(* ===== verification/Prelude.thy ===== *)
theory Prelude
  imports Main "HOL-Library.Word"
begin

text \<open>
  Shared vocabulary of the development: Go's machine integers as words, byte strings, the
  error-or-value results that model Go's \<open>(value, error)\<close> returns, and the generic lemmas on
  big-endian byte strings, lists and words that the components use.
\<close>

section \<open>Machine integers and byte strings\<close>

type_synonym byte = "8 word"
type_synonym bytes = "byte list"
type_synonym uint64 = "64 word"
type_synonym uint16 = "16 word"

named_theorems word_nat \<open>word facts read through \<open>unat\<close>\<close>

lemma word_less_unat [word_nat]: "(a :: 'a::len word) < b \<longleftrightarrow> unat a < unat b"
  by (simp add: word_less_nat_alt)

lemma word_le_unat [word_nat]: "(a :: 'a::len word) \<le> b \<longleftrightarrow> unat a \<le> unat b"
  by (simp add: word_le_nat_alt)

lemma unat_of_nat64 [simp]: "n < 2 ^ 64 \<Longrightarrow> unat (of_nat n :: uint64) = n"
  by (simp add: unat_of_nat take_bit_nat_eq_self)

lemma byte_bound [simp]: "unat (b :: byte) < 256"
  using unsigned_less [of b] by simp

lemma uint64_bound [simp]: "unat (b :: uint64) < 18446744073709551616"
  using unsigned_less [of b] by simp

lemma unat_drop_bit_div [word_nat]: "unat (drop_bit n (i :: 'a::len word)) = unat i div 2 ^ n"
  unfolding unat_drop_bit_eq by (rule drop_bit_eq_div)

lemma unat_drop_bit8_less: "drop_bit 8 (i :: uint64) \<noteq> 0 \<Longrightarrow> unat (drop_bit 8 i) < unat i"
proof -
  assume "drop_bit 8 i \<noteq> 0"
  then have "unat (drop_bit 8 i) \<noteq> 0" by (simp add: unsigned_eq_0_iff)
  then show ?thesis by (simp add: unat_drop_bit_div)
qed

section \<open>Results\<close>

text \<open>A Go call that returns a value or an error is a value of \<open>'e + 'a\<close>, \<open>Inl\<close> the error.\<close>

definition map_ok :: "('a \<Rightarrow> 'b) \<Rightarrow> 'e + 'a \<Rightarrow> 'e + 'b" where
  "map_ok f x = (case x of Inl e \<Rightarrow> Inl e | Inr a \<Rightarrow> Inr (f a))"

definition outcome :: "'e + 'a \<Rightarrow> 'e + unit" where
  "outcome x = (case x of Inl e \<Rightarrow> Inl e | Inr _ \<Rightarrow> Inr ())"

definition res_bind :: "'e + 'a \<Rightarrow> ('a \<Rightarrow> 'e + 'b) \<Rightarrow> 'e + 'b" where
  "res_bind x f = (case x of Inl e \<Rightarrow> Inl e | Inr a \<Rightarrow> f a)"

lemma res_bind_simps [simp]: "res_bind (Inl e) f = Inl e" "res_bind (Inr a) f = f a"
  by (simp_all add: res_bind_def)

lemma res_bind_eq_Inr: "res_bind x f = Inr b \<longleftrightarrow> (\<exists>a. x = Inr a \<and> f a = Inr b)"
  by (cases x) auto

lemma map_ok_simps [simp]:
  "map_ok f (Inl e) = Inl e" "map_ok f (Inr a) = Inr (f a)"
  by (simp_all add: map_ok_def)

lemma outcome_simps [simp]:
  "outcome (Inl e) = Inl e" "outcome (Inr a) = Inr ()" "outcome (map_ok f x) = outcome x"
  "outcome (case x of Inl e \<Rightarrow> Inl e | Inr y \<Rightarrow> Inr (g y)) = outcome x"
  by (simp_all add: outcome_def map_ok_def split: sum.splits)

lemma map_ok_eq_Inr [simp]: "map_ok f x = Inr y \<longleftrightarrow> (\<exists>z. x = Inr z \<and> y = f z)"
  by (cases x) auto

lemma map_ok_eq_Inl [simp]: "map_ok f x = Inl e \<longleftrightarrow> x = Inl e"
  by (cases x) auto

lemma outcome_eq_Inl [simp]: "outcome x = Inl e \<longleftrightarrow> x = Inl e"
  by (cases x) auto

lemma outcome_eq_Inr [simp]: "outcome x = Inr u \<longleftrightarrow> (\<exists>y. x = Inr y)"
  by (cases x) auto

section \<open>Big-endian natural numbers\<close>

text \<open>
  \<open>be_val\<close> is \<open>big.Int.SetBytes\<close> (and \<open>binary.BigEndian.Uint64\<close> on eight bytes);
  \<open>nat_bytes\<close> is \<open>big.Int.Bytes\<close>, the shortest big-endian representation.
\<close>

definition be_val :: "bytes \<Rightarrow> nat" where
  "be_val bs = foldl (\<lambda>a b. a * 256 + unat b) 0 bs"

fun nat_bytes :: "nat \<Rightarrow> bytes" where
  "nat_bytes n = (if n = 0 then [] else nat_bytes (n div 256) @ [of_nat n])"

declare nat_bytes.simps [simp del]

lemma nat_bytes_0 [simp]: "nat_bytes 0 = []"
  by (simp add: nat_bytes.simps)

lemma nat_bytes_pos: "0 < n \<Longrightarrow> nat_bytes n = nat_bytes (n div 256) @ [of_nat n]"
  by (simp add: nat_bytes.simps [of n])

lemma nat_bytes_eq_Nil [simp]: "nat_bytes n = [] \<longleftrightarrow> n = 0"
  by (cases "n = 0") (simp_all add: nat_bytes_pos)

lemma be_val_Nil [simp]: "be_val [] = 0"
  by (simp add: be_val_def)

lemma be_val_snoc [simp]: "be_val (bs @ [b]) = be_val bs * 256 + unat b"
  by (simp add: be_val_def)

lemma be_val_append: "be_val (as @ bs) = be_val as * 256 ^ length bs + be_val bs"
proof (induction bs rule: rev_induct)
  case (snoc b bs)
  have "be_val (as @ bs @ [b]) = be_val (as @ bs) * 256 + unat b"
    using be_val_snoc [of "as @ bs" b] by simp
  with snoc.IH show ?case by (simp add: algebra_simps)
qed simp

lemma be_val_Cons: "be_val (b # bs) = unat b * 256 ^ length bs + be_val bs"
  using be_val_append [of "[b]" bs] be_val_snoc [of "[]" b] by simp

lemma be_val_bound: "be_val bs < 256 ^ length bs"
proof (induction bs rule: rev_induct)
  case (snoc b bs)
  have "be_val bs * 256 + unat b < (be_val bs + 1) * 256"
    using byte_bound [of b] by simp
  also have "\<dots> \<le> 256 ^ length bs * 256"
    using snoc.IH by (intro mult_le_mono1) simp
  finally show ?case by simp
qed simp

lemma unat_of_nat_byte: "unat (of_nat n :: byte) = n mod 256"
  by (simp add: unat_of_nat take_bit_eq_mod)

lemma be_val_nat_bytes [simp]: "be_val (nat_bytes n) = n"
proof (induction n rule: nat_bytes.induct)
  case (1 n)
  then show ?case
    by (cases "n = 0") (simp_all add: nat_bytes_pos unat_of_nat_byte)
qed

lemma be_val_pos: "bs \<noteq> [] \<Longrightarrow> hd bs \<noteq> 0 \<Longrightarrow> 0 < be_val bs"
  by (cases bs) (auto simp: be_val_Cons unat_gt_0)

lemma nat_bytes_be_val: "(bs \<noteq> [] \<Longrightarrow> hd bs \<noteq> 0) \<Longrightarrow> nat_bytes (be_val bs) = bs"
proof (induction bs rule: rev_induct)
  case (snoc b bs)
  have pos: "0 < be_val (bs @ [b])"
    using snoc.prems by (intro be_val_pos) auto
  have IH: "nat_bytes (be_val bs) = bs"
  proof (rule snoc.IH)
    assume "bs \<noteq> []"
    then show "hd bs \<noteq> 0" using snoc.prems by (cases bs) auto
  qed
  have b: "(of_nat (be_val bs * 256 + unat b) :: byte) = b"
    by (rule word_unat_eq_iff [THEN iffD2]) (simp only: unat_of_nat_byte mod_mult_self3 mod_less byte_bound)
  have d: "(be_val bs * 256 + unat b) div 256 = be_val bs"
    by simp
  show ?case
    using nat_bytes_pos [OF pos] by (simp only: be_val_snoc d IH b)
qed simp

lemma hd_nat_bytes: "0 < n \<Longrightarrow> hd (nat_bytes n) \<noteq> 0"
proof (induction n rule: nat_bytes.induct)
  case (1 n)
  show ?case
  proof (cases "n div 256 = 0")
    case True
    then have "n < 256" by simp
    have "(of_nat n :: byte) \<noteq> 0"
    proof
      assume "(of_nat n :: byte) = 0"
      then have "unat (of_nat n :: byte) = 0" by simp
      then show False using \<open>n < 256\<close> "1.prems" by (simp add: unat_of_nat_byte)
    qed
    with True "1.prems" show ?thesis by (simp add: nat_bytes_pos)
  next
    case False
    then have "hd (nat_bytes (n div 256)) \<noteq> 0"
      using "1.IH" "1.prems" by blast
    with False "1.prems" show ?thesis by (simp add: nat_bytes_pos [of n] hd_append)
  qed
qed

lemma length_nat_bytes_le: "n < 256 ^ k \<Longrightarrow> length (nat_bytes n) \<le> k"
proof (induction n arbitrary: k rule: nat_bytes.induct)
  case (1 n)
  show ?case
  proof (cases "n = 0")
    case False
    with "1.prems" obtain k' where k: "k = Suc k'" by (cases k) auto
    with "1.prems" have "n div 256 < 256 ^ k'" by (simp add: less_mult_imp_div_less mult.commute)
    with 1 False have "length (nat_bytes (n div 256)) \<le> k'" by simp
    with False k show ?thesis by (simp add: nat_bytes_pos)
  qed simp
qed

lemma max_length_nat_bytes [simp]:
  "0 < n \<Longrightarrow> max (Suc 0) (length (nat_bytes n)) = length (nat_bytes n)"
  using nat_bytes_eq_Nil [of n] by (cases "nat_bytes n") auto

text \<open>What holds of a result if there is one.\<close>

definition ens :: "('a \<Rightarrow> bool) \<Rightarrow> 'e + 'a \<Rightarrow> bool" where
  "ens P r \<longleftrightarrow> (\<forall>x. r = Inr x \<longrightarrow> P x)"

lemma ens_map [simp]: "ens P (map_ok f r) \<longleftrightarrow> ens (\<lambda>x. P (f x)) r"
  by (auto simp: ens_def map_ok_eq_Inr)

lemma ens_intros:
  "ens P (Inl e)" "P x \<Longrightarrow> ens P (Inr x)"
  "(b \<Longrightarrow> ens P r) \<Longrightarrow> (\<not> b \<Longrightarrow> ens P r') \<Longrightarrow> ens P (if b then r else r')"
  by (auto simp: ens_def map_ok_eq_Inr)

lemma ens_then: "ens Q r \<Longrightarrow> (\<And>x. Q x \<Longrightarrow> ens P (f x)) \<Longrightarrow> ens P (res_bind r f)"
  by (auto simp: ens_def res_bind_eq_Inr)

lemma ens_mono: "ens Q r \<Longrightarrow> (\<And>x. Q x \<Longrightarrow> P x) \<Longrightarrow> ens P r"
  by (auto simp: ens_def)

end
