(* ===== verification/Rlp_Encode.thy ===== *)
theory Rlp_Encode
  imports Prelude
begin

text \<open>
  The RLP encoder of \<open>helper/rlp/encode.go\<close>: integer and header encoding, the two-part encode
  buffer (string data plus list headers that are back-patched when a list is closed), and the
  type-directed writers. The types and values that Go's reflection hands to the writers are the
  datatypes \<open>gotype\<close> and \<open>goval\<close>. The lemmas show that the buffer machinery produces exactly
  the recursive RLP encoding \<open>enc\<close>.
\<close>

section \<open>Integers and headers\<close>

definition byte_at :: "nat \<Rightarrow> uint64 \<Rightarrow> byte" where
  "byte_at k i = ucast (drop_bit k i)"

definition putint :: "uint64 \<Rightarrow> bytes" where
  \<comment> \<open>the bytes written at the start of the buffer; the returned size is their number\<close>
  "putint i =
     (if i < 0x100 then [byte_at 0 i]
      else if i < 0x10000 then [byte_at 8 i, byte_at 0 i]
      else if i < 0x1000000 then [byte_at 16 i, byte_at 8 i, byte_at 0 i]
      else if i < 0x100000000 then [byte_at 24 i, byte_at 16 i, byte_at 8 i, byte_at 0 i]
      else if i < 0x10000000000 then
        [byte_at 32 i, byte_at 24 i, byte_at 16 i, byte_at 8 i, byte_at 0 i]
      else if i < 0x1000000000000 then
        [byte_at 40 i, byte_at 32 i, byte_at 24 i, byte_at 16 i, byte_at 8 i, byte_at 0 i]
      else if i < 0x100000000000000 then
        [byte_at 48 i, byte_at 40 i, byte_at 32 i, byte_at 24 i, byte_at 16 i, byte_at 8 i,
         byte_at 0 i]
      else
        [byte_at 56 i, byte_at 48 i, byte_at 40 i, byte_at 32 i, byte_at 24 i, byte_at 16 i,
         byte_at 8 i, byte_at 0 i])"

function intsize_from :: "nat \<Rightarrow> uint64 \<Rightarrow> nat" where
  \<comment> \<open>the loop of \<open>intsize\<close>, entered with the current \<open>size\<close>\<close>
  "intsize_from sz i =
     (let i' = drop_bit 8 i in if i' = 0 then sz else intsize_from (Suc sz) i')"
  by pat_completeness auto
termination
  by (relation "measure (\<lambda>(sz, i). unat i)") (auto intro: unat_drop_bit8_less)

declare intsize_from.simps [simp del]

definition intsize :: "uint64 \<Rightarrow> nat" where
  "intsize i = intsize_from 1 i"

definition headsize :: "uint64 \<Rightarrow> nat" where
  "headsize sz = (if sz < 56 then 1 else 1 + intsize sz)"

definition puthead :: "byte \<Rightarrow> byte \<Rightarrow> uint64 \<Rightarrow> bytes" where
  \<comment> \<open>the header bytes written to the buffer; the returned length is their number\<close>
  "puthead smalltag largetag sz =
     (if sz < 56 then [smalltag + ucast sz]
      else let sizebytes = putint sz
           in (largetag + of_nat (length sizebytes)) # sizebytes)"

section \<open>Types, values and errors\<close>

text \<open>
  \<open>gotype\<close> is the part of \<open>reflect.Type\<close> that \<open>makeWriter\<close> and \<open>makeDecoder\<close> branch on:
  \<open>TUint n\<close> is the unsigned kind of \<open>n\<close> bits, \<open>TBig\<close> is \<open>big.Int\<close>, \<open>TRaw\<close> is
  \<open>rlp.RawValue\<close>, \<open>TInterface\<close> is \<open>interface{}\<close>, and \<open>TOther\<close> stands for every kind that
  is not serializable (signed integers, maps, channels, ...). A struct type lists its
  fields, all exported, with their parsed tags. Types that implement \<open>Encoder\<close> or \<open>Decoder\<close> run their own
  code and are not part of this model; a value of a pointer or interface type is \<open>GNil\<close> or
  \<open>GPtr\<close>/\<open>GIface\<close>.
\<close>

record tags =
  nilOK :: bool
  tail :: bool

definition no_tags :: tags where
  "no_tags = \<lparr>nilOK = False, tail = False\<rparr>"

datatype gotype =
    TRaw
  | TInterface
  | TBig
  | TUint nat
  | TBool
  | TString
  | TSlice gotype
  | TArray nat gotype
  | TStruct "(tags \<times> gotype) list"
  | TPtr gotype
  | TOther

datatype goval =
    GBytes bytes
  | GUint uint64
  | GBool bool
  | GBig int
  | GNil
  | GPtr goval
  | GIface gotype goval
  | GList "goval list"

datatype rlp_error =
    EOL
  | ErrExpectedString
  | ErrExpectedList
  | ErrCanonInt
  | ErrCanonSize
  | ErrElemTooLarge
  | ErrValueTooLarge
  | ErrMoreThanOneValue
  | ErrNotInList
  | ErrNotAtEOL
  | ErrUintOverflow
  | EOF
  | ErrUnexpectedEOF
  | DecodeError string gotype
  | NotSerializable gotype
  | BadStructTag gotype
  | NegativeBigInt
  | InvalidBool uint64
  | Panic
  | OutOfFuel

text \<open>
  \<open>isByte\<close> decides whether a slice or array is encoded as a string. \<open>reflect.Zero\<close> of the
  types a nil pointer may be encoded through.
\<close>

definition isByte :: "gotype \<Rightarrow> bool" where
  "isByte t \<longleftrightarrow> t = TUint 8"

fun zero_value :: "gotype \<Rightarrow> goval" where
  "zero_value TRaw = GBytes []"
| "zero_value TInterface = GNil"
| "zero_value TBig = GBig 0"
| "zero_value (TUint n) = GUint 0"
| "zero_value TBool = GBool False"
| "zero_value TString = GBytes []"
| "zero_value (TSlice t) = (if isByte t then GBytes [] else GList [])"
| "zero_value (TArray n t) =
     (if isByte t then GBytes (replicate n 0) else GList (replicate n (zero_value t)))"
| "zero_value (TStruct fs) = GList (map (\<lambda>f. zero_value (snd f)) fs)"
| "zero_value (TPtr t) = GNil"
| "zero_value TOther = GNil"

text \<open>
  \<open>genTypeInfo\<close> builds decoder and writer for a type and fails for a type neither can handle,
  or whose struct tags do not parse (\<open>parseStructTag\<close>).
\<close>

definition is_slice_kind :: "gotype \<Rightarrow> bool" where
  "is_slice_kind t = (case t of TRaw \<Rightarrow> True | TSlice _ \<Rightarrow> True | _ \<Rightarrow> False)"

definition parseStructTag :: "gotype \<Rightarrow> tags \<Rightarrow> gotype \<Rightarrow> bool \<Rightarrow> rlp_error + tags" where
  "parseStructTag styp ts ft lastField =
     (if tail ts \<and> \<not> lastField then Inl (BadStructTag styp)
      else if tail ts \<and> \<not> is_slice_kind ft then Inl (BadStructTag styp)
      else Inr ts)"

fun genTypeInfo :: "gotype \<Rightarrow> rlp_error + unit"
  and structFields :: "gotype \<Rightarrow> (tags \<times> gotype) list \<Rightarrow> rlp_error + unit" where
  "genTypeInfo TRaw = Inr ()"
| "genTypeInfo TInterface = Inr ()"
| "genTypeInfo TBig = Inr ()"
| "genTypeInfo (TUint n) = Inr ()"
| "genTypeInfo TBool = Inr ()"
| "genTypeInfo TString = Inr ()"
| "genTypeInfo (TSlice t) = (if isByte t then Inr () else genTypeInfo t)"
| "genTypeInfo (TArray n t) = (if isByte t then Inr () else genTypeInfo t)"
| "genTypeInfo (TStruct fs) = structFields (TStruct fs) fs"
| "genTypeInfo (TPtr t) = genTypeInfo t"
| "genTypeInfo TOther = Inl (NotSerializable TOther)"
| "structFields styp [] = Inr ()"
| "structFields styp ((ts, t) # fs) =
     (case parseStructTag styp ts t (fs = []) of
        Inl e \<Rightarrow> Inl e
      | Inr _ \<Rightarrow>
          (case genTypeInfo t of Inl e \<Rightarrow> Inl e | Inr _ \<Rightarrow> structFields styp fs))"

section \<open>The encode buffer\<close>

text \<open>
  \<open>lheads\<close> holds pointers in the code: \<open>list\<close> returns the new header and \<open>listEnd\<close> patches
  it later. The pointer is modelled by the header's index in \<open>lheads\<close>. \<open>sizebuf\<close> is scratch
  space and has no counterpart.
\<close>

record listhead =
  offset :: nat
  lsize :: nat

record encbuf =
  str :: bytes
  lheads :: "listhead list"
  lhsize :: nat

definition empty_encbuf :: encbuf where
  \<comment> \<open>the buffer after \<open>reset\<close>\<close>
  "empty_encbuf = \<lparr>str = [], lheads = [], lhsize = 0\<rparr>"

definition head_encode :: "listhead \<Rightarrow> bytes" where
  "head_encode h = puthead 0xC0 0xF7 (of_nat (lsize h))"

definition buf_write :: "bytes \<Rightarrow> encbuf \<Rightarrow> encbuf" where
  "buf_write b w = w\<lparr>str := str w @ b\<rparr>"

definition buf_size :: "encbuf \<Rightarrow> nat" where
  "buf_size w = length (str w) + lhsize w"

definition encodeStringHeader :: "nat \<Rightarrow> encbuf \<Rightarrow> encbuf" where
  "encodeStringHeader n w =
     (if n < 56 then buf_write [0x80 + of_nat n] w
      else let sizebytes = putint (of_nat n)
           in buf_write ((0xB7 + of_nat (length sizebytes)) # sizebytes) w)"

definition encodeString :: "bytes \<Rightarrow> encbuf \<Rightarrow> encbuf" where
  "encodeString b w =
     (case b of
        [x] \<Rightarrow> if x \<le> 0x7F then buf_write [x] w else buf_write b (encodeStringHeader 1 w)
      | _ \<Rightarrow> buf_write b (encodeStringHeader (length b) w))"

definition buf_list :: "encbuf \<Rightarrow> nat \<times> encbuf" where
  "buf_list w =
     (length (lheads w),
      w\<lparr>lheads := lheads w @ [\<lparr>offset = length (str w), lsize = lhsize w\<rparr>]\<rparr>)"

definition listEnd :: "nat \<Rightarrow> encbuf \<Rightarrow> encbuf" where
  "listEnd lh w =
     (let h = lheads w ! lh;
          sz = buf_size w - offset h - lsize h;
          w' = w\<lparr>lheads := (lheads w)[lh := h\<lparr>lsize := sz\<rparr>]\<rparr>
      in if sz < 56 then w'\<lparr>lhsize := lhsize w' + 1\<rparr>
         else w'\<lparr>lhsize := lhsize w' + 1 + intsize (of_nat sz)\<rparr>)"

fun toBytes_from :: "bytes \<Rightarrow> nat \<Rightarrow> listhead list \<Rightarrow> bytes" where
  \<comment> \<open>the loop of \<open>toBytes\<close>: string data up to the next header, the header, and so on\<close>
  "toBytes_from s strpos [] = drop strpos s"
| "toBytes_from s strpos (h # hs) =
     (let piece = drop strpos (take (offset h) s)
      in piece @ head_encode h @ toBytes_from s (strpos + length piece) hs)"

definition toBytes :: "encbuf \<Rightarrow> bytes" where
  "toBytes w = toBytes_from (str w) 0 (lheads w)"

fun toWriter_from :: "bytes \<Rightarrow> nat \<Rightarrow> listhead list \<Rightarrow> bytes list" where
  \<comment> \<open>the chunks handed to \<open>out.Write\<close> when every write succeeds\<close>
  "toWriter_from s strpos [] = (if strpos < length s then [drop strpos s] else [])"
| "toWriter_from s strpos (h # hs) =
     (if strpos < offset h
      then let piece = drop strpos (take (offset h) s)
           in piece # head_encode h # toWriter_from s (strpos + length piece) hs
      else head_encode h # toWriter_from s strpos hs)"

definition toWriter :: "encbuf \<Rightarrow> bytes list" where
  "toWriter w = toWriter_from (str w) 0 (lheads w)"

section \<open>The writers\<close>

definition writeUint :: "uint64 \<Rightarrow> encbuf \<Rightarrow> encbuf" where
  "writeUint i w =
     (if i = 0 then buf_write [0x80] w
      else if i < 128 then buf_write [byte_at 0 i] w
      else let s = putint i in buf_write ((0x80 + of_nat (length s)) # s) w)"

definition writeBool :: "bool \<Rightarrow> encbuf \<Rightarrow> encbuf" where
  "writeBool b w = (if b then buf_write [0x01] w else buf_write [0x80] w)"

definition writeBigInt :: "int \<Rightarrow> encbuf \<Rightarrow> rlp_error + encbuf" where
  "writeBigInt i w =
     (if i < 0 then Inl NegativeBigInt
      else if i = 0 then Inr (buf_write [0x80] w)
      else Inr (encodeString (nat_bytes (nat i)) w))"

definition writeString :: "bytes \<Rightarrow> encbuf \<Rightarrow> encbuf" where
  "writeString s w =
     (if length s = 1 \<and> s ! 0 \<le> 0x7F then buf_write [s ! 0] w
      else buf_write s (encodeStringHeader (length s) w))"

text \<open>
  A size of values and types for the termination of the writers: a nil pointer is written through
  the zero value of its element type, which is no larger than the pointer.
\<close>

fun vsize :: "goval \<Rightarrow> nat" where
  "vsize (GPtr v) = Suc (vsize v)"
| "vsize (GIface t v) = Suc (vsize v)"
| "vsize (GList vs) = Suc (sum_list (map vsize vs))"
| "vsize _ = 1"

fun tsize :: "gotype \<Rightarrow> nat" where
  "tsize (TSlice t) = Suc (tsize t)"
| "tsize (TArray n t) = Suc (tsize t)"
| "tsize (TStruct fs) = Suc (sum_list (map (\<lambda>f. Suc (tsize (snd f))) fs))"
| "tsize (TPtr t) = Suc (tsize t)"
| "tsize _ = 1"

text \<open>
  \<open>writer t ts v w\<close> is the writer function that \<open>makeWriter\<close> returns for type \<open>t\<close> and tags
  \<open>ts\<close>, applied to \<open>v\<close>. A value that does not have the type is a reflection panic.
\<close>

definition is_array_or_struct :: "gotype \<Rightarrow> bool" where
  "is_array_or_struct t = (case t of TArray _ _ \<Rightarrow> True | TStruct _ \<Rightarrow> True | TBig \<Rightarrow> True | _ \<Rightarrow> False)"

definition is_byte_array :: "gotype \<Rightarrow> bool" where
  "is_byte_array t = (case t of TArray _ e \<Rightarrow> isByte e | _ \<Rightarrow> False)"

lemma is_array_or_struct_simps [simp]:
  "is_array_or_struct (TArray n t)" "is_array_or_struct (TStruct fs)" "is_array_or_struct TBig"
  by (simp_all add: is_array_or_struct_def)

lemma vsize_pos [simp]: "0 < vsize v"
  by (cases v) auto

lemma vsize_zero_value: "\<not> is_array_or_struct t \<Longrightarrow> vsize (zero_value t) = 1"
  by (cases t) (auto simp: is_array_or_struct_def)

function writer :: "gotype \<Rightarrow> tags \<Rightarrow> goval \<Rightarrow> encbuf \<Rightarrow> rlp_error + encbuf"
  and write_elems :: "gotype \<Rightarrow> goval list \<Rightarrow> encbuf \<Rightarrow> rlp_error + encbuf"
  and write_fields :: "(tags \<times> gotype) list \<Rightarrow> goval list \<Rightarrow> encbuf \<Rightarrow> rlp_error + encbuf" where
  "writer TRaw ts v w = (case v of GBytes b \<Rightarrow> Inr (buf_write b w) | _ \<Rightarrow> Inl Panic)"
| "writer TInterface ts v w =
     (case v of
        GNil \<Rightarrow> Inr (buf_write [0xC0] w)
      | GIface dt dv \<Rightarrow>
          (case genTypeInfo dt of Inl e \<Rightarrow> Inl e | Inr _ \<Rightarrow> writer dt no_tags dv w)
      | _ \<Rightarrow> Inl Panic)"
| "writer TBig ts v w = (case v of GBig i \<Rightarrow> writeBigInt i w | _ \<Rightarrow> Inl Panic)"
| "writer (TUint n) ts v w = (case v of GUint i \<Rightarrow> Inr (writeUint i w) | _ \<Rightarrow> Inl Panic)"
| "writer TBool ts v w = (case v of GBool b \<Rightarrow> Inr (writeBool b w) | _ \<Rightarrow> Inl Panic)"
| "writer TString ts v w = (case v of GBytes s \<Rightarrow> Inr (writeString s w) | _ \<Rightarrow> Inl Panic)"
| "writer (TSlice et) ts v w =
     (if isByte et then (case v of GBytes b \<Rightarrow> Inr (encodeString b w) | _ \<Rightarrow> Inl Panic)
      else case v of
        GList vs \<Rightarrow>
          if tail ts then write_elems et vs w
          else (let (lh, w1) = buf_list w
                in case write_elems et vs w1 of Inl e \<Rightarrow> Inl e | Inr w2 \<Rightarrow> Inr (listEnd lh w2))
      | _ \<Rightarrow> Inl Panic)"
| "writer (TArray n et) ts v w =
     (if isByte et then (case v of GBytes b \<Rightarrow> Inr (encodeString b w) | _ \<Rightarrow> Inl Panic)
      else case v of
        GList vs \<Rightarrow>
          if tail ts then write_elems et vs w
          else (let (lh, w1) = buf_list w
                in case write_elems et vs w1 of Inl e \<Rightarrow> Inl e | Inr w2 \<Rightarrow> Inr (listEnd lh w2))
      | _ \<Rightarrow> Inl Panic)"
| "writer (TStruct fs) ts v w =
     (case v of
        GList vs \<Rightarrow>
          (let (lh, w1) = buf_list w
           in case write_fields fs vs w1 of Inl e \<Rightarrow> Inl e | Inr w2 \<Rightarrow> Inr (listEnd lh w2))
      | _ \<Rightarrow> Inl Panic)"
| "writer (TPtr et) ts v w =
     (case v of
        GNil \<Rightarrow>
          if et = TBig then Inr (buf_write [0x80] w)
          else if is_byte_array et then Inr (buf_write [0x80] w)
          else if is_array_or_struct et then (let (lh, w1) = buf_list w in Inr (listEnd lh w1))
          else writer et no_tags (zero_value et) w
      | GPtr pv \<Rightarrow> writer et no_tags pv w
      | _ \<Rightarrow> Inl Panic)"
| "writer TOther ts v w = Inl Panic"
| "write_elems et [] w = Inr w"
| "write_elems et (v # vs) w =
     (case writer et no_tags v w of Inl e \<Rightarrow> Inl e | Inr w' \<Rightarrow> write_elems et vs w')"
| "write_fields [] vs w = Inr w"
| "write_fields ((ts, t) # fs) [] w = Inl Panic"
| "write_fields ((ts, t) # fs) (v # vs) w =
     (case writer t ts v w of Inl e \<Rightarrow> Inl e | Inr w' \<Rightarrow> write_fields fs vs w')"
  by pat_completeness auto
termination
  by (relation "measures
        [case_sum (\<lambda>(t, ts, v, w). vsize v)
           (case_sum (\<lambda>(t, vs, w). sum_list (map vsize vs))
              (\<lambda>(fs, vs, w). sum_list (map vsize vs))),
         case_sum (\<lambda>(t, ts, v, w). tsize t)
           (case_sum (\<lambda>(t, vs, w). Suc (tsize t))
              (\<lambda>(fs, vs, w). sum_list (map (\<lambda>f. Suc (tsize (snd f))) fs)))]")
    (auto simp: vsize_zero_value)

definition EncodeToBytes :: "gotype \<Rightarrow> goval \<Rightarrow> rlp_error + bytes" where
  "EncodeToBytes t v =
     (case genTypeInfo t of
        Inl e \<Rightarrow> Inl e
      | Inr _ \<Rightarrow>
          (case writer t no_tags v empty_encbuf of Inl e \<Rightarrow> Inl e | Inr w \<Rightarrow> Inr (toBytes w)))"

section \<open>Reading an encode buffer piecewise\<close>

record encReader =
  rbuf :: "encbuf option"
  lhpos :: nat
  strpos :: nat
  piece :: "bytes option"

definition EncodeToReader :: "gotype \<Rightarrow> goval \<Rightarrow> rlp_error + nat \<times> encReader" where
  "EncodeToReader t v =
     (case genTypeInfo t of
        Inl e \<Rightarrow> Inl e
      | Inr _ \<Rightarrow>
          (case writer t no_tags v empty_encbuf of
             Inl e \<Rightarrow> Inl e
           | Inr w \<Rightarrow> Inr (buf_size w, \<lparr>rbuf = Some w, lhpos = 0, strpos = 0, piece = None\<rparr>)))"

definition reader_next :: "encReader \<Rightarrow> bytes option \<times> encReader" where
  "reader_next r =
     (case rbuf r of
        None \<Rightarrow> (None, r)
      | Some b \<Rightarrow>
          (case piece r of
             Some p \<Rightarrow> (Some p, r)
           | None \<Rightarrow>
               if lhpos r < length (lheads b) then
                 let head = lheads b ! lhpos r; sizebefore = offset head - strpos r
                 in if sizebefore > 0
                    then (Some (drop (strpos r) (take (offset head) (str b))),
                          r\<lparr>strpos := strpos r + sizebefore\<rparr>)
                    else (Some (head_encode head), r\<lparr>lhpos := Suc (lhpos r)\<rparr>)
               else if strpos r < length (str b) then
                 (Some (drop (strpos r) (str b)), r\<lparr>strpos := length (str b)\<rparr>)
               else (None, r)))"

text \<open>
  \<open>reader_read room r\<close> is \<open>Read\<close> into a slice with \<open>room\<close> bytes left: the bytes copied, whether
  it returned \<open>io.EOF\<close>, and the reader. Every round uses up a header, the string data before it,
  the string data after the last header, or a left-over piece.
\<close>

definition reader_measure :: "(encReader \<times> encReader) set" where
  "reader_measure = measures
     [\<lambda>r. case rbuf r of None \<Rightarrow> 0 | Some b \<Rightarrow> length (lheads b) - lhpos r,
      \<lambda>r. case rbuf r of
            None \<Rightarrow> 0
          | Some b \<Rightarrow> (if lhpos r < length (lheads b) then offset (lheads b ! lhpos r)
                       else length (str b)) - strpos r,
      \<lambda>r. case piece r of None \<Rightarrow> 0 | Some _ \<Rightarrow> 1]"

lemma wf_reader_measure: "wf reader_measure"
  by (simp add: reader_measure_def)

lemma reader_next_measure:
  "reader_next r = (Some p, r') \<Longrightarrow> (r'\<lparr>piece := None\<rparr>, r) \<in> reader_measure"
  by (auto simp: reader_next_def reader_measure_def Let_def split: option.splits if_splits)

function reader_read :: "nat \<Rightarrow> encReader \<Rightarrow> bytes \<times> bool \<times> encReader" where
  "reader_read room r =
     (case reader_next r of
        (None, r') \<Rightarrow> ([], True, r'\<lparr>rbuf := None, piece := None\<rparr>)
      | (Some p, r') \<Rightarrow>
          if room < length p then (take room p, False, r'\<lparr>piece := Some (drop room p)\<rparr>)
          else (let (out, eof, r'') = reader_read (room - length p) (r'\<lparr>piece := None\<rparr>)
                in (p @ out, eof, r'')))"
  by pat_completeness auto
termination
  by (relation "inv_image reader_measure snd")
    (auto simp: wf_reader_measure dest: reader_next_measure [OF sym])

declare reader_read.simps [simp del]

section \<open>The encoding, recursively\<close>

text \<open>
  An RLP item is a string or a list of items; \<open>Enc\<close> is data that is already encoded (the contents
  of a \<open>RawValue\<close>). \<open>rlp\<close> is the encoding the format prescribes and \<open>items\<close> the items that the
  encoding rules assign to a Go value (a slice with tag \<open>tail\<close> contributes its elements to the
  enclosing list).
\<close>

datatype item = Str bytes | Lst "item list" | Enc bytes

definition rlp_str :: "bytes \<Rightarrow> bytes" where
  "rlp_str b = (if length b = 1 \<and> hd b < 0x80 then b
                else puthead 0x80 0xB7 (of_nat (length b)) @ b)"

definition rlp_lst :: "bytes \<Rightarrow> bytes" where
  "rlp_lst payload = puthead 0xC0 0xF7 (of_nat (length payload)) @ payload"

fun rlp :: "item \<Rightarrow> bytes" where
  "rlp (Str b) = rlp_str b"
| "rlp (Lst xs) = rlp_lst (concat (map rlp xs))"
| "rlp (Enc b) = b"

definition rlps :: "item list \<Rightarrow> bytes" where
  "rlps xs = concat (map rlp xs)"

definition big_item :: "int \<Rightarrow> rlp_error + item list" where
  "big_item i = (if i < 0 then Inl NegativeBigInt else Inr [Str (nat_bytes (nat i))])"

function items :: "gotype \<Rightarrow> tags \<Rightarrow> goval \<Rightarrow> rlp_error + item list"
  and elem_items :: "gotype \<Rightarrow> goval list \<Rightarrow> rlp_error + item list"
  and field_items :: "(tags \<times> gotype) list \<Rightarrow> goval list \<Rightarrow> rlp_error + item list" where
  "items TRaw ts v = (case v of GBytes b \<Rightarrow> Inr [Enc b] | _ \<Rightarrow> Inl Panic)"
| "items TInterface ts v =
     (case v of
        GNil \<Rightarrow> Inr [Enc [0xC0]]
      | GIface dt dv \<Rightarrow> (case genTypeInfo dt of Inl e \<Rightarrow> Inl e | Inr _ \<Rightarrow> items dt no_tags dv)
      | _ \<Rightarrow> Inl Panic)"
| "items TBig ts v = (case v of GBig i \<Rightarrow> big_item i | _ \<Rightarrow> Inl Panic)"
| "items (TUint n) ts v =
     (case v of GUint i \<Rightarrow> Inr [Str (nat_bytes (unat i))] | _ \<Rightarrow> Inl Panic)"
| "items TBool ts v = (case v of GBool b \<Rightarrow> Inr [Str (if b then [1] else [])] | _ \<Rightarrow> Inl Panic)"
| "items TString ts v = (case v of GBytes s \<Rightarrow> Inr [Str s] | _ \<Rightarrow> Inl Panic)"
| "items (TSlice et) ts v =
     (if isByte et then (case v of GBytes b \<Rightarrow> Inr [Str b] | _ \<Rightarrow> Inl Panic)
      else case v of
        GList vs \<Rightarrow>
          if tail ts then elem_items et vs else map_ok (\<lambda>xs. [Lst xs]) (elem_items et vs)
      | _ \<Rightarrow> Inl Panic)"
| "items (TArray n et) ts v =
     (if isByte et then (case v of GBytes b \<Rightarrow> Inr [Str b] | _ \<Rightarrow> Inl Panic)
      else case v of
        GList vs \<Rightarrow>
          if tail ts then elem_items et vs else map_ok (\<lambda>xs. [Lst xs]) (elem_items et vs)
      | _ \<Rightarrow> Inl Panic)"
| "items (TStruct fs) ts v =
     (case v of
        GList vs \<Rightarrow> map_ok (\<lambda>xs. [Lst xs]) (field_items fs vs)
      | _ \<Rightarrow> Inl Panic)"
| "items (TPtr et) ts v =
     (case v of
        GNil \<Rightarrow>
          if et = TBig \<or> is_byte_array et then Inr [Str []]
          else if is_array_or_struct et then Inr [Lst []]
          else items et no_tags (zero_value et)
      | GPtr pv \<Rightarrow> items et no_tags pv
      | _ \<Rightarrow> Inl Panic)"
| "items TOther ts v = Inl Panic"
| "elem_items et [] = Inr []"
| "elem_items et (v # vs) =
     (case items et no_tags v of
        Inl e \<Rightarrow> Inl e
      | Inr xs \<Rightarrow> map_ok (\<lambda>ys. xs @ ys) (elem_items et vs))"
| "field_items [] vs = Inr []"
| "field_items ((ts, t) # fs) [] = Inl Panic"
| "field_items ((ts, t) # fs) (v # vs) =
     (case items t ts v of
        Inl e \<Rightarrow> Inl e
      | Inr xs \<Rightarrow> map_ok (\<lambda>ys. xs @ ys) (field_items fs vs))"
  by pat_completeness auto
termination
  by (relation "measures
        [case_sum (\<lambda>(t, ts, v). vsize v)
           (case_sum (\<lambda>(t, vs). sum_list (map vsize vs)) (\<lambda>(fs, vs). sum_list (map vsize vs))),
         case_sum (\<lambda>(t, ts, v). tsize t)
           (case_sum (\<lambda>(t, vs). Suc (tsize t))
              (\<lambda>(fs, vs). sum_list (map (\<lambda>f. Suc (tsize (snd f))) fs)))]")
    (auto simp: vsize_zero_value)

section \<open>The buffer produces the encoding\<close>

subsection \<open>Integer and header encoding\<close>

lemma unat_byte_at: "unat (byte_at k i) = unat i div 2 ^ k mod 256"
  by (simp add: byte_at_def unsigned_ucast_eq take_bit_eq_mod unat_drop_bit_div)

lemma byte_at_of_nat: "byte_at k i = of_nat (unat i div 2 ^ k)"
  by (rule word_unat_eq_iff [THEN iffD2]) (simp add: unat_byte_at unat_of_nat_byte)

lemma nat_bytes_digits:
  "256 ^ k \<le> n \<Longrightarrow> n < 256 ^ Suc k \<Longrightarrow>
   nat_bytes n = map (\<lambda>j. of_nat (n div 2 ^ (8 * j))) (rev [0..<Suc k])"
proof (induction k arbitrary: n)
  case 0
  then have "n div 256 = 0" "0 < n" by auto
  then show ?case by (simp add: nat_bytes_pos)
next
  case (Suc k)
  have n: "0 < n" using Suc.prems(1) by (metis gr0I le_zero_eq power_not_zero zero_neq_numeral)
  have "256 ^ k \<le> n div 256" using Suc.prems(1)
    by (simp add: less_eq_div_iff_mult_less_eq mult.commute)
  moreover have "n div 256 < 256 ^ Suc k" using Suc.prems(2)
    by (simp add: less_mult_imp_div_less mult.commute)
  ultimately have IH: "nat_bytes (n div 256) =
      map (\<lambda>j. of_nat (n div 256 div 2 ^ (8 * j))) (rev [0..<Suc k])"
    by (rule Suc.IH)
  have shift: "n div 256 div 2 ^ (8 * j) = n div 2 ^ (8 * Suc j)" for j
    by (simp add: div_mult2_eq power_add)
  have "rev [0..<Suc (Suc k)] = map Suc (rev [0..<Suc k]) @ [0]"
    by (simp add: rev_map [symmetric] map_Suc_upt upt_conv_Cons del: upt_Suc)
  then show ?case
    using n by (simp add: nat_bytes_pos [of n] IH shift del: upt_Suc)
qed

lemma putint_digits:
  assumes "256 ^ k \<le> unat i" "unat i < 256 ^ Suc k"
  shows "putint i = map (\<lambda>j. byte_at (8 * j) i) (rev [0..<Suc k])"
proof -
  have "(256 :: nat) ^ k < 256 ^ 8" using le_less_trans [OF assms(1) uint64_bound] by simp
  then have "k < 8" by (rule power_less_imp_less_exp [rotated]) simp
  then consider "k = 0" | "k = 1" | "k = 2" | "k = 3" | "k = 4" | "k = 5" | "k = 6" | "k = 7"
    by fastforce
  then show ?thesis
    using assms by cases (simp_all add: putint_def word_less_unat upt_conv_Cons)
qed

lemma putint_nat_bytes: "i \<noteq> 0 \<Longrightarrow> putint i = nat_bytes (unat i)"
proof -
  assume "i \<noteq> 0"
  then have "1 \<le> unat i" by (simp add: Suc_le_eq unat_gt_0)
  then obtain k where k: "256 ^ k \<le> unat i" "unat i < 256 ^ Suc k"
    using ex_power_ivl1 [of 256 "unat i"] by auto
  then show ?thesis
    using nat_bytes_digits [OF k] by (simp only: putint_digits byte_at_of_nat)
qed

lemma intsize_from_length: "intsize_from sz i = sz - 1 + max 1 (length (nat_bytes (unat i)))" if "0 < sz" for sz
  using that
proof (induction sz i rule: intsize_from.induct)
  case (1 sz i)
  have unat: "unat (drop_bit 8 i) = unat i div 256" by (simp add: unat_drop_bit_div)
  show ?case
  proof (cases "drop_bit 8 i = 0")
    case True
    then have "unat i div 256 = 0" using unat by simp
    then have "length (nat_bytes (unat i)) \<le> 1"
      by (intro length_nat_bytes_le) auto
    with True "1.prems" show ?thesis by (simp add: intsize_from.simps [of sz i])
  next
    case False
    then have "unat i div 256 \<noteq> 0" using unat by (metis unat_0_iff)
    then have pos: "0 < unat i" by auto
    have "length (nat_bytes (unat i)) = Suc (length (nat_bytes (unat i div 256)))"
      using pos by (simp add: nat_bytes_pos)
    moreover have "0 < length (nat_bytes (unat i div 256))"
      using \<open>unat i div 256 \<noteq> 0\<close> by simp
    ultimately show ?thesis
      using "1.IH" [OF refl False] "1.prems" False
      by (simp add: intsize_from.simps [of sz i] unat)
  qed
qed

lemma intsize_putint: "intsize i = length (putint i)"
proof (cases "i = 0")
  case True
  then show ?thesis
    by (simp add: intsize_def intsize_from_length putint_def)
next
  case False
  then have "0 < unat i" by (simp add: unat_gt_0)
  with False show ?thesis
    by (simp add: intsize_def intsize_from_length putint_nat_bytes)
qed

lemma length_putint: "length (putint i) \<le> 8" "0 < length (putint i)"
  by (simp_all add: putint_def)

lemma be_val_putint: "be_val (putint i) = unat i"
  by (cases "i = 0") (simp_all add: putint_nat_bytes, simp add: putint_def byte_at_def be_val_def)

lemma headsize_puthead: "headsize sz = length (puthead s l sz)"
  by (simp add: headsize_def puthead_def intsize_putint Let_def)


subsection \<open>What a run of the writers adds to the buffer\<close>

text \<open>
  The items of a value add string data (everything but list headers), list headers at their
  offsets, and the total size of these headers.
\<close>

fun sdata :: "item \<Rightarrow> bytes" where
  "sdata (Str b) = rlp_str b"
| "sdata (Lst xs) = concat (map sdata xs)"
| "sdata (Enc b) = b"

definition hbytes :: "nat \<Rightarrow> nat" where
  "hbytes sz = (if sz < 56 then 1 else 1 + intsize (of_nat sz))"

fun hsize :: "item \<Rightarrow> nat" where
  "hsize (Str b) = 0"
| "hsize (Lst xs) =
     (let hs = sum_list (map hsize xs) in hs + hbytes (length (concat (map sdata xs)) + hs))"
| "hsize (Enc b) = 0"

abbreviation sdatas :: "item list \<Rightarrow> bytes" where
  "sdatas xs \<equiv> concat (map sdata xs)"

abbreviation hsizes :: "item list \<Rightarrow> nat" where
  "hsizes xs \<equiv> sum_list (map hsize xs)"

fun heads :: "nat \<Rightarrow> item \<Rightarrow> listhead list" and headss :: "nat \<Rightarrow> item list \<Rightarrow> listhead list" where
  "heads off (Str b) = []"
| "heads off (Enc b) = []"
| "heads off (Lst xs) = \<lparr>offset = off, lsize = length (sdatas xs) + hsizes xs\<rparr> # headss off xs"
| "headss off [] = []"
| "headss off (x # xs) = heads off x @ headss (off + length (sdata x)) xs"

lemma headss_append:
  "headss off (xs @ ys) = headss off xs @ headss (off + length (sdatas xs)) ys"
  by (induction xs arbitrary: off) (simp_all add: add.assoc)

definition add_items :: "item list \<Rightarrow> encbuf \<Rightarrow> encbuf" where
  "add_items xs w =
     w\<lparr>str := str w @ sdatas xs, lheads := lheads w @ headss (length (str w)) xs,
       lhsize := lhsize w + hsizes xs\<rparr>"

lemma add_items_Nil [simp]: "add_items [] w = w"
  by (simp add: add_items_def)

lemma add_items_append: "add_items (xs @ ys) w = add_items ys (add_items xs w)"
  by (simp add: add_items_def headss_append)

text \<open>Go lengths fit in 64 bits; \<open>fits\<close> says so of the strings and list payloads of an item.\<close>

fun fits :: "item \<Rightarrow> bool" where
  "fits (Str b) \<longleftrightarrow> length b < 2 ^ 64"
| "fits (Lst xs) \<longleftrightarrow> list_all fits xs \<and> length (concat (map rlp xs)) < 2 ^ 64"
| "fits (Enc b) \<longleftrightarrow> True"

lemma length_rlp_le_concat: "x \<in> set xs \<Longrightarrow> length (rlp x) \<le> length (concat (map rlp xs))"
  by (induction xs) auto

lemma fits_length: "length (rlp x) < 2 ^ 64 \<Longrightarrow> fits x"
proof (induction x rule: rlp.induct)
  case (1 b)
  then show ?case by (auto simp: rlp_str_def split: if_splits)
next
  case (2 xs)
  then have p: "length (concat (map rlp xs)) < 2 ^ 64" by (simp add: rlp_lst_def)
  then have "fits x" if "x \<in> set xs" for x
    using that "2.IH" [OF that] length_rlp_le_concat [OF that] by simp
  with p show ?case by (simp add: list_all_iff)
qed simp

lemma fits_rlps: "length (rlps xs) < 2 ^ 64 \<Longrightarrow> list_all fits xs"
  by (fastforce simp: rlps_def list_all_iff intro: fits_length dest: length_rlp_le_concat)

lemma of_nat_less_56: "n < 2 ^ 64 \<Longrightarrow> (of_nat n :: uint64) < 56 \<longleftrightarrow> n < 56"
  by (simp add: word_less_unat)

lemma ucast_of_nat64: "(ucast (of_nat n :: uint64) :: byte) = of_nat n"
  by (rule word_unat_eq_iff [THEN iffD2])
     (simp add: unsigned_ucast_eq unat_of_nat take_bit_eq_mod mod_mod_cancel)

lemma encodeStringHeader_puthead:
  "n < 2 ^ 64 \<Longrightarrow> encodeStringHeader n w = buf_write (puthead 0x80 0xB7 (of_nat n)) w"
  by (simp add: encodeStringHeader_def puthead_def of_nat_less_56 ucast_of_nat64 Let_def)

lemma byte_le_7F: "x \<le> (0x7F :: byte) \<longleftrightarrow> x < 0x80"
  by (simp add: word_le_unat word_less_unat) arith

lemma buf_write_append: "buf_write b (buf_write a w) = buf_write (a @ b) w"
  by (simp add: buf_write_def)

lemma encodeString_rlp_str: "length b < 2 ^ 64 \<Longrightarrow> encodeString b w = buf_write (rlp_str b) w"
  by (cases b; cases "tl b")
     (auto simp: encodeString_def rlp_str_def encodeStringHeader_puthead buf_write_append
        byte_le_7F split: list.splits)

lemma writeString_rlp_str: "length b < 2 ^ 64 \<Longrightarrow> writeString b w = buf_write (rlp_str b) w"
  by (cases b) (auto simp: writeString_def rlp_str_def encodeStringHeader_puthead buf_write_append
        byte_le_7F)

lemma writeUint_rlp_str: "writeUint i w = buf_write (rlp_str (nat_bytes (unat i))) w"
proof -
  consider (zero) "i = 0" | (byte) "i \<noteq> 0" "i < 128" | (large) "128 \<le> i" by fastforce
  then show ?thesis
  proof cases
    case zero
    then show ?thesis by (simp add: writeUint_def rlp_str_def puthead_def)
  next
    case byte
    then have "unat i < 128" "0 < unat i" by (simp_all add: word_less_unat unat_gt_0)
    then have n: "nat_bytes (unat i) = [byte_at 0 i]" 
      by (simp add: nat_bytes_pos byte_at_of_nat)
    have "unat (byte_at 0 i) < 128" using \<open>unat i < 128\<close> by (simp add: unat_byte_at)
    with byte n show ?thesis by (simp add: writeUint_def rlp_str_def word_less_unat)
  next
    case large
    then have l: "128 \<le> unat i" by (simp add: word_le_unat)
    then have "i \<noteq> 0" by auto
    then have p: "nat_bytes (unat i) = putint i" by (simp add: putint_nat_bytes)
    have "\<not> (length (putint i) = 1 \<and> hd (putint i) < 0x80)"
    proof
      assume a: "length (putint i) = 1 \<and> hd (putint i) < 0x80"
      then obtain x where "putint i = [x]" by (auto simp: length_Suc_conv)
      with a l be_val_putint [of i] show False by (simp add: be_val_Cons word_less_unat)
    qed
    with large l p \<open>i \<noteq> 0\<close> length_putint [of i] show ?thesis
      by (auto simp: writeUint_def rlp_str_def puthead_def of_nat_less_56 word_less_unat Let_def
           ucast_of_nat64)
  qed
qed


lemma add_items_Str [simp]: "add_items [Str b] w = buf_write (rlp_str b) w"
  by (simp add: add_items_def buf_write_def)

lemma add_items_Enc [simp]: "add_items [Enc b] w = buf_write b w"
  by (simp add: add_items_def buf_write_def)

text \<open>Opening a list, writing its items and closing it adds the list item.\<close>

lemma listEnd_add_items:
  assumes "buf_list w = (lh, w1)"
  shows "listEnd lh (add_items xs w1) = add_items [Lst xs] w"
proof -
  have lh: "lh = length (lheads w)"
    and w1: "w1 = w\<lparr>lheads := lheads w @ [\<lparr>offset = length (str w), lsize = lhsize w\<rparr>]\<rparr>"
    using assms by (auto simp: buf_list_def)
  show ?thesis
    by (simp add: lh w1 listEnd_def add_items_def buf_size_def hbytes_def Let_def
          list_update_append nth_append)
qed

lemma writeBigInt_items:
  "writeBigInt i w = (case big_item i of Inl e \<Rightarrow> Inl e | Inr xs \<Rightarrow> Inr (add_items xs w))"
  if "\<forall>xs. big_item i = Inr xs \<longrightarrow> list_all fits xs"
  using that
  by (auto simp: writeBigInt_def big_item_def encodeString_rlp_str puthead_def rlp_str_def)

lemma writer_items:
  "items t ts v = Inr xs \<Longrightarrow> list_all fits xs \<Longrightarrow> writer t ts v w = Inr (add_items xs w)"
  "elem_items t vs = Inr xs \<Longrightarrow> list_all fits xs \<Longrightarrow> write_elems t vs w = Inr (add_items xs w)"
  "field_items fs vs = Inr xs \<Longrightarrow> list_all fits xs \<Longrightarrow> write_fields fs vs w = Inr (add_items xs w)"
proof (induction t ts v and t vs and fs vs arbitrary: xs w and xs w and xs w
    rule: items_elem_items_field_items.induct)
  case (9 fs ts v)
  then show ?case
    by (auto split: goval.splits prod.splits simp: listEnd_add_items)
next
  case (10 et ts v)
  then show ?case
    using listEnd_add_items [where xs = "[]"]
    by (auto split: goval.splits if_splits prod.splits
        simp: rlp_str_def puthead_def writeBigInt_items)
next
  case (13 et v vs)
  then show ?case by (auto split: sum.splits simp: add_items_append)
next
  case (16 ts t fs v vs)
  then show ?case by (auto split: sum.splits simp: add_items_append)
qed (auto split: goval.splits sum.splits if_splits prod.splits
      simp: writeBigInt_items writeUint_rlp_str writeBool_def rlp_str_def puthead_def
        writeString_rlp_str encodeString_rlp_str listEnd_add_items)

lemma writer_outcome:
  "outcome (writer t ts v w) = outcome (items t ts v)"
  "outcome (write_elems t vs w) = outcome (elem_items t vs)"
  "outcome (write_fields fs vs w) = outcome (field_items fs vs)"
proof (induction t ts v and t vs and fs vs arbitrary: w and w and w
    rule: items_elem_items_field_items.induct)
  case (2 ts v)
  then show ?case by (auto split: goval.splits sum.splits)
next
  case (13 et v vs)
  show ?case
    using "13.IH"(1) [of w] "13.IH"(2)
    by (cases "items et no_tags v"; cases "writer et no_tags v w") auto
next
  case (16 ts t fs v vs)
  show ?case
    using "16.IH"(1) [of w] "16.IH"(2)
    by (cases "items t ts v"; cases "writer t ts v w") auto
qed (auto split: goval.splits prod.splits simp: writeBigInt_def big_item_def)


subsection \<open>Flushing the buffer\<close>

lemma length_puthead: "sz < 2 ^ 64 \<Longrightarrow> length (puthead s l (of_nat sz)) = hbytes sz"
  by (simp add: puthead_def hbytes_def of_nat_less_56 intsize_putint Let_def)

lemma length_rlps_sum:
  "(\<And>x. x \<in> set xs \<Longrightarrow> length (rlp x) = length (sdata x) + hsize x) \<Longrightarrow>
   length (concat (map rlp xs)) = length (sdatas xs) + hsizes xs"
  by (induction xs) auto

lemma length_rlp: "fits x \<Longrightarrow> length (rlp x) = length (sdata x) + hsize x"
proof (induction x rule: rlp.induct)
  case (2 xs)
  have len: "length (concat (map rlp xs)) = length (sdatas xs) + hsizes xs"
    using 2 by (intro length_rlps_sum) (simp add: list_all_iff)
  have "length (puthead 0xC0 0xF7 (of_nat (length (concat (map rlp xs))))) =
      hbytes (length (concat (map rlp xs)))"
    using "2.prems" by (intro length_puthead) simp
  with len show ?case by (simp add: rlp_lst_def Let_def del: of_nat_add)
qed simp_all

lemma length_rlps: "list_all fits xs \<Longrightarrow> length (rlps xs) = length (sdatas xs) + hsizes xs"
  unfolding rlps_def by (intro length_rlps_sum length_rlp) (simp add: list_all_iff)

lemma toBytes_from_skip:
  assumes "p \<le> q" "q \<le> length s" "\<forall>h \<in> set hs. q \<le> offset h"
  shows "toBytes_from s p hs = drop p (take q s) @ toBytes_from s q hs"
proof (cases hs)
  case Nil
  have "drop p s = drop p (take q s @ drop q s)" by simp
  also have "\<dots> = drop p (take q s) @ drop q s"
    using assms(1,2) by (simp only: drop_append) (simp add: min_absorb2)
  finally show ?thesis using Nil by simp
next
  case (Cons h hs')
  have q: "q \<le> offset h" using assms(3) Cons by simp
  have "take (offset h) s = take q s @ drop q (take (offset h) s)"
    using q by (metis append_take_drop_id min.absorb1 take_take)
  then have "drop p (take (offset h) s) = drop p (take q s) @ drop q (take (offset h) s)"
    using assms(1,2) by (metis diff_is_0_eq drop0 drop_append length_take min.absorb2)
  with Cons assms(1,2) q show ?thesis
    by (simp add: Let_def min_absorb2)
qed

lemma offset_headss_ge:
  "h \<in> set (heads off x) \<Longrightarrow> off \<le> offset h"
  "h \<in> set (headss off xs) \<Longrightarrow> off \<le> offset h"
  by (induction off x and off xs rule: heads_headss.induct) auto

lemma toBytes_from_headss:
  "fits x \<Longrightarrow> s = pre @ sdata x @ post \<Longrightarrow> off = length pre \<Longrightarrow>
   \<forall>h \<in> set hs. off + length (sdata x) \<le> offset h \<Longrightarrow>
   toBytes_from s off (heads off x @ hs) = rlp x @ toBytes_from s (off + length (sdata x)) hs"
  "list_all fits xs \<Longrightarrow> s = pre @ sdatas xs @ post \<Longrightarrow> off = length pre \<Longrightarrow>
   \<forall>h \<in> set hs. off + length (sdatas xs) \<le> offset h \<Longrightarrow>
   toBytes_from s off (headss off xs @ hs) = rlps xs @ toBytes_from s (off + length (sdatas xs)) hs"
proof (induction off x and off xs arbitrary: pre post hs and pre post hs
    rule: heads_headss.induct)
  case (1 off b)
  then show ?case
    using toBytes_from_skip [of off "off + length (rlp_str b)" s hs] by simp
next
  case (2 off b)
  then show ?case
    using toBytes_from_skip [of off "off + length b" s hs] by simp
next
  case (3 off xs)
  have len: "length (concat (map rlp xs)) = length (sdatas xs) + hsizes xs"
    using "3.prems"(1) length_rlps [of xs] by (simp add: rlps_def)
  show ?case
    using 3 by (simp add: head_encode_def rlp_lst_def len rlps_def del: of_nat_add)
next
  case (4 off)
  then show ?case by (simp add: rlps_def)
next
  case (5 off x xs)
  define hs' where "hs' = headss (off + length (sdata x)) xs @ hs"
  have hs': "\<forall>h \<in> set hs'. off + length (sdata x) \<le> offset h"
    using "5.prems"(4) offset_headss_ge(2) by (fastforce simp: hs'_def)
  have "toBytes_from s off (heads off x @ hs') =
      rlp x @ toBytes_from s (off + length (sdata x)) hs'"
    using "5.prems" hs' by (intro "5.IH"(1) [where post = "sdatas xs @ post"]) simp_all
  also have "toBytes_from s (off + length (sdata x)) hs' =
      rlps xs @ toBytes_from s (off + length (sdata x) + length (sdatas xs)) hs"
    unfolding hs'_def using "5.prems"
    by (intro "5.IH"(2) [where pre = "pre @ sdata x"]) (simp_all add: add.assoc)
  finally show ?case by (simp add: hs'_def rlps_def add.assoc)
qed

lemma toBytes_add_items:
  assumes "list_all fits xs"
  shows "toBytes (add_items xs empty_encbuf) = rlps xs"
  using toBytes_from_headss(2) [OF assms, of "sdatas xs" "[]" "[]" 0 "[]"]
  by (simp add: toBytes_def add_items_def empty_encbuf_def)

text \<open>The buffer's size is the length of the encoding, so \<open>toBytes\<close> fills its output exactly.\<close>

lemma buf_size_add_items:
  "list_all fits xs \<Longrightarrow> buf_size (add_items xs empty_encbuf) = length (rlps xs)"
  by (simp add: buf_size_def add_items_def empty_encbuf_def length_rlps)

lemma concat_toWriter_from: "concat (toWriter_from s p hs) = toBytes_from s p hs"
  by (induction hs arbitrary: p) (auto simp: Let_def)

lemma concat_toWriter: "concat (toWriter w) = toBytes w"
  by (simp add: toWriter_def toBytes_def concat_toWriter_from)

text \<open>The bytes an \<open>encReader\<close> still has to deliver.\<close>

definition reader_pending :: "encReader \<Rightarrow> bytes" where
  "reader_pending r =
     (case rbuf r of
        None \<Rightarrow> []
      | Some b \<Rightarrow>
          (case piece r of None \<Rightarrow> [] | Some p \<Rightarrow> p) @
          toBytes_from (str b) (strpos r) (drop (lhpos r) (lheads b)))"

definition reader_ok :: "encReader \<Rightarrow> bool" where
  "reader_ok r \<longleftrightarrow>
     (case rbuf r of
        None \<Rightarrow> True
      | Some b \<Rightarrow> strpos r \<le> length (str b) \<and> (\<forall>h \<in> set (lheads b). offset h \<le> length (str b)) \<and>
          piece r \<noteq> Some [])"

lemma head_encode_nonempty: "head_encode h \<noteq> []"
  by (simp add: head_encode_def puthead_def Let_def)

lemma drop_nth_Cons: "i < length xs \<Longrightarrow> drop i xs = xs ! i # drop (Suc i) xs"
  by (simp add: Cons_nth_drop_Suc)

lemma reader_next_None:
  "reader_ok r \<Longrightarrow> reader_next r = (None, r') \<Longrightarrow> reader_pending r = [] \<and> r' = r"
  by (auto simp: reader_next_def reader_pending_def reader_ok_def Let_def
      split: option.splits if_splits)

lemma reader_next_Some:
  assumes "reader_ok r" "reader_next r = (Some p, r')"
  shows "reader_pending r = p @ reader_pending (r'\<lparr>piece := None\<rparr>)" "p \<noteq> []"
    "reader_ok (r'\<lparr>piece := None\<rparr>)" "\<exists>b. rbuf r' = Some b"
proof -
  have off: "rbuf r = Some b \<Longrightarrow> lhpos r < length (lheads b) \<Longrightarrow>
      offset (lheads b ! lhpos r) \<le> length (str b)" for b
    using assms(1) by (simp add: reader_ok_def)
  show "reader_pending r = p @ reader_pending (r'\<lparr>piece := None\<rparr>)" "p \<noteq> []"
    "reader_ok (r'\<lparr>piece := None\<rparr>)" "\<exists>b. rbuf r' = Some b"
    using assms off
    by (auto simp: reader_next_def reader_pending_def reader_ok_def drop_nth_Cons Let_def
        head_encode_nonempty min.absorb2 split: option.splits if_splits)
qed

lemma reader_pending_piece:
  "\<exists>b. rbuf r = Some b \<Longrightarrow>
   reader_pending (r\<lparr>piece := Some p\<rparr>) = p @ reader_pending (r\<lparr>piece := None\<rparr>)"
  by (auto simp: reader_pending_def)

lemma reader_ok_piece:
  "reader_ok (r\<lparr>piece := None\<rparr>) \<Longrightarrow> p \<noteq> [] \<Longrightarrow> reader_ok (r\<lparr>piece := Some p\<rparr>)"
  by (auto simp: reader_ok_def split: option.splits)

lemma reader_read_pending:
  assumes "reader_ok r" "reader_read room r = (out, eof, r')"
  shows "out = take room (reader_pending r) \<and> (eof \<longleftrightarrow> length (reader_pending r) \<le> room) \<and>
    reader_pending r' = drop room (reader_pending r) \<and> reader_ok r'"
  using assms
proof (induction room r arbitrary: out eof r' rule: reader_read.induct)
  case (1 room r)
  obtain np r1 where nx: "reader_next r = (np, r1)" by (cases "reader_next r")
  show ?case
  proof (cases np)
    case None
    with 1 nx reader_next_None [of r] show ?thesis
      by (auto simp: reader_read.simps [of room r] reader_pending_def reader_ok_def)
  next
    case (Some p)
    note next_r = reader_next_Some [OF "1.prems"(1) nx [unfolded Some]]
    show ?thesis
    proof (cases "room < length p")
      case True
      with Some nx next_r "1.prems" show ?thesis
        by (auto simp: reader_read.simps [of room r] reader_pending_piece intro: reader_ok_piece)
    next
      case False
      obtain out2 eof2 r2
        where rec: "reader_read (room - length p) (r1\<lparr>piece := None\<rparr>) = (out2, eof2, r2)"
        by (cases "reader_read (room - length p) (r1\<lparr>piece := None\<rparr>)")
      have "out = p @ out2" "eof = eof2" "r' = r2"
        using "1.prems"(2) Some nx False rec by (simp_all add: reader_read.simps [of room r])
      with "1.IH" [OF nx [symmetric, unfolded Some] refl False next_r(3) rec] next_r False
      show ?thesis by auto
    qed
  qed
qed


fun reader_reads :: "nat list \<Rightarrow> encReader \<Rightarrow> bytes" where
  \<comment> \<open>successive calls of \<open>Read\<close> with buffers of the given sizes\<close>
  "reader_reads [] r = []"
| "reader_reads (m # ms) r = (case reader_read m r of (out, eof, r') \<Rightarrow> out @ reader_reads ms r')"

lemma take_add_drop: "take m xs @ take n (drop m xs) = take (m + n) xs"
  by (simp add: take_add)

lemma reader_reads_pending:
  "reader_ok r \<Longrightarrow> reader_reads ms r = take (sum_list ms) (reader_pending r)"
proof (induction ms arbitrary: r)
  case (Cons m ms)
  obtain out eof r' where "reader_read m r = (out, eof, r')" by (cases "reader_read m r")
  with Cons reader_read_pending [OF Cons.prems this] show ?case
    by (simp add: take_add_drop)
qed simp

lemma headss_offset_le:
  "h \<in> set (heads off x) \<Longrightarrow> offset h \<le> off + length (sdata x)"
  "h \<in> set (headss off xs) \<Longrightarrow> offset h \<le> off + length (sdatas xs)"
  by (induction off x and off xs rule: heads_headss.induct) auto

lemma reader_ok_add_items:
  "reader_ok \<lparr>rbuf = Some (add_items xs empty_encbuf), lhpos = 0, strpos = 0, piece = None\<rparr>"
  using headss_offset_le(2) [of _ 0 xs] by (auto simp: reader_ok_def add_items_def empty_encbuf_def)

section \<open>Properties of the encoder\<close>

text \<open>
  C19. \<open>EncodeToBytes\<close> writes into a buffer that keeps list headers apart from string data and
  patches them when a list is closed; its result is nevertheless exactly the recursive RLP encoding
  of the items of the value, and it fails with exactly the errors of the encoding rules, for every
  type and value whose encoding is shorter than \<open>2^64\<close> bytes.
\<close>

theorem EncodeToBytes_rlps:
  assumes "\<And>xs. items t no_tags v = Inr xs \<Longrightarrow> length (rlps xs) < 2 ^ 64"
  shows "EncodeToBytes t v =
    (case genTypeInfo t of Inl e \<Rightarrow> Inl e | Inr _ \<Rightarrow> map_ok rlps (items t no_tags v))"
proof (cases "items t no_tags v")
  case (Inl e)
  then have "writer t no_tags v empty_encbuf = Inl e"
    using writer_outcome(1) [of t no_tags v empty_encbuf] by simp
  with Inl show ?thesis by (simp add: EncodeToBytes_def split: sum.splits)
next
  case (Inr xs)
  then have "list_all fits xs" using assms by (intro fits_rlps)
  with Inr show ?thesis
    by (simp add: EncodeToBytes_def writer_items(1) toBytes_add_items split: sum.splits)
qed

theorem EncodeToBytes_rlps_witness:
  "EncodeToBytes (TStruct [(no_tags, TUint 64), (no_tags, TSlice (TUint 8))])
     (GList [GUint 1024, GBytes [1, 2]]) = Inr [0xC6, 0x82, 4, 0, 0x82, 1, 2]"
proof -
  have it: "items (TStruct [(no_tags, TUint 64), (no_tags, TSlice (TUint 8))]) no_tags
      (GList [GUint 1024, GBytes [1, 2]]) = Inr [Lst [Str [4, 0], Str [1, 2]]]"
    by (simp add: isByte_def nat_bytes.simps)
  have enc: "rlps [Lst [Str [4, 0], Str [1, 2]]] = [0xC6, 0x82, 4, 0, 0x82, 1, 2]"
    by (simp add: rlps_def rlp_lst_def rlp_str_def puthead_def)
  have g: "genTypeInfo (TStruct [(no_tags, TUint 64), (no_tags, TSlice (TUint 8))]) = Inr ()"
    by (simp add: parseStructTag_def no_tags_def isByte_def)
  show ?thesis
    using EncodeToBytes_rlps [of "TStruct [(no_tags, TUint 64), (no_tags, TSlice (TUint 8))]"
        "GList [GUint 1024, GBytes [1, 2]]"]
    by (simp only: it g enc sum.case map_ok_simps) (simp add: it enc)
qed

text \<open>
  C22. The reader returned by \<open>EncodeToReader\<close> reports the length of the encoding and delivers the
  encoding itself: whatever the sizes of the buffers passed to \<open>Read\<close>, the bytes read so far are
  the first bytes of the recursive encoding, each \<open>Read\<close> fills its buffer as far as data is left,
  and \<open>io.EOF\<close> is returned exactly by the calls that reach the end.
\<close>

theorem EncodeToReader_delivers:
  assumes "EncodeToReader t v = Inr (n, r)" "items t no_tags v = Inr xs" "length (rlps xs) < 2 ^ 64"
  shows "n = length (rlps xs) \<and> reader_reads ms r = take (sum_list ms) (rlps xs) \<and>
    (case reader_read m r of (out, eof, _) \<Rightarrow>
       out = take m (rlps xs) \<and> (eof \<longleftrightarrow> length (rlps xs) \<le> m))"
proof -
  have fits: "list_all fits xs" using assms(3) by (rule fits_rlps)
  have r: "n = buf_size (add_items xs empty_encbuf)"
      "r = \<lparr>rbuf = Some (add_items xs empty_encbuf), lhpos = 0, strpos = 0, piece = None\<rparr>"
    using assms(1,2) fits by (auto simp: EncodeToReader_def writer_items(1) split: sum.splits)
  have ok: "reader_ok r" unfolding r(2) by (rule reader_ok_add_items)
  have pending: "reader_pending r = rlps xs"
    using toBytes_add_items [OF fits] by (simp add: r(2) reader_pending_def toBytes_def)
  show ?thesis
    using fits reader_reads_pending [OF ok] pending reader_read_pending [OF ok]
    by (auto simp: r(1) buf_size_add_items)
qed

theorem EncodeToReader_delivers_witness:
  "\<exists>r. EncodeToReader (TSlice (TUint 64)) (GList [GUint 1024]) = Inr (4, r) \<and>
     reader_reads [3, 5] r = [0xC3, 0x82, 4, 0] \<and>
     (\<exists>r'. reader_read 4 r = ([0xC3, 0x82, 4, 0], True, r'))"
proof -
  have it: "items (TSlice (TUint 64)) no_tags (GList [GUint 1024]) = Inr [Lst [Str [4, 0]]]"
    by (simp add: isByte_def nat_bytes.simps no_tags_def)
  have enc: "rlps [Lst [Str [4, 0]]] = [0xC3, 0x82, 4, 0]"
    by (simp add: rlps_def rlp_lst_def rlp_str_def puthead_def)
  obtain n r where e: "EncodeToReader (TSlice (TUint 64)) (GList [GUint 1024]) = Inr (n, r)"
    by (simp add: EncodeToReader_def buf_list_def isByte_def no_tags_def)
  obtain out eof r' where rd: "reader_read 4 r = (out, eof, r')" by (cases "reader_read 4 r")
  have "n = 4 \<and> reader_reads [3, 5] r = [0xC3, 0x82, 4, 0] \<and>
      reader_read 4 r = ([0xC3, 0x82, 4, 0], True, r')"
    using EncodeToReader_delivers [OF e it, of "[3, 5]" 4] rd by (simp add: enc)
  with e show ?thesis by blast
qed

end
