(* ===== verification/Rlp_Raw.thy ===== *)
theory Rlp_Raw
  imports Rlp_Encode
begin

text \<open>
  Splitting encoded RLP without decoding it (\<open>helper/rlp/raw.go\<close>): the kind and size of the first
  value of a buffer, its content and the bytes after it, and the number of values. The lemmas show
  that splitting inverts the encoder and that it accepts canonical encodings only.
\<close>

unbundle bit_operations_syntax

section \<open>Definitions\<close>

datatype kind = KByte | KString | KList

definition be_word :: "bytes \<Rightarrow> uint64" where
  \<comment> \<open>\<open>uint64(b[0]) << 8k | \<dots> | uint64(b[k])\<close>\<close>
  "be_word bs = foldl (\<lambda>s x. push_bit 8 s OR ucast x) 0 bs"

definition ListSize :: "uint64 \<Rightarrow> uint64" where
  "ListSize contentSize = of_nat (headsize contentSize) + contentSize"

definition readSize :: "bytes \<Rightarrow> byte \<Rightarrow> rlp_error + uint64" where
  "readSize b slen =
     (if unat slen > length b then Inl ErrUnexpectedEOF
      else let s = (if 1 \<le> slen \<and> slen \<le> 8 then be_word (take (unat slen) b) else 0)
           in if s < 56 then Inl ErrCanonSize
              else case b of [] \<Rightarrow> Inl Panic
                 | x # _ \<Rightarrow> if x = 0 then Inl ErrCanonSize else Inr s)"

definition readTag :: "byte \<Rightarrow> bytes \<Rightarrow> rlp_error + kind \<times> uint64 \<times> uint64" where
  \<comment> \<open>the switch of \<open>readKind\<close> on the first byte \<open>b\<close> of a buffer that goes on with \<open>rest\<close>\<close>
  "readTag b rest =
     (if b < 0x80 then Inr (KByte, 0, 1)
      else if b < 0xB8 then
        (let contentsize = ucast (b - 0x80)
         in if contentsize = 1
            then (case rest of
                    [] \<Rightarrow> Inl Panic
                  | x # _ \<Rightarrow> if x < 128 then Inl ErrCanonSize else Inr (KString, 1, contentsize))
            else Inr (KString, 1, contentsize))
      else if b < 0xC0 then
        map_ok (\<lambda>cs. (KString, ucast (b - 0xB7) + 1, cs)) (readSize rest (b - 0xB7))
      else if b < 0xF8 then Inr (KList, 1, ucast (b - 0xC0))
      else map_ok (\<lambda>cs. (KList, ucast (b - 0xF7) + 1, cs)) (readSize rest (b - 0xF7)))"

definition readKind :: "bytes \<Rightarrow> rlp_error + kind \<times> uint64 \<times> uint64" where
  "readKind buf =
     (case buf of
        [] \<Rightarrow> Inl ErrUnexpectedEOF
      | b # rest \<Rightarrow>
          (case readTag b rest of
             Inl e \<Rightarrow> Inl e
           | Inr (k, tagsize, contentsize) \<Rightarrow>
               if contentsize > of_nat (length buf) - tagsize then Inl ErrValueTooLarge
               else Inr (k, tagsize, contentsize)))"

definition Split :: "bytes \<Rightarrow> rlp_error + kind \<times> bytes \<times> bytes" where
  "Split b =
     (case readKind b of
        Inl e \<Rightarrow> Inl e
      | Inr (k, ts, cs) \<Rightarrow>
          Inr (k, take (unat cs) (drop (unat ts) b), drop (unat (ts + cs)) b))"

definition SplitString :: "bytes \<Rightarrow> rlp_error + bytes \<times> bytes" where
  "SplitString b =
     (case Split b of
        Inl e \<Rightarrow> Inl e
      | Inr (k, content, rest) \<Rightarrow> if k = KList then Inl ErrExpectedString else Inr (content, rest))"

definition SplitList :: "bytes \<Rightarrow> rlp_error + bytes \<times> bytes" where
  "SplitList b =
     (case Split b of
        Inl e \<Rightarrow> Inl e
      | Inr (k, content, rest) \<Rightarrow> if k \<noteq> KList then Inl ErrExpectedList else Inr (content, rest))"

section \<open>Sizes\<close>

lemma be_word_Nil [simp]: "be_word [] = 0"
  by (simp add: be_word_def)

lemma be_word_snoc: "be_word (bs @ [b]) = push_bit 8 (be_word bs) OR ucast b"
  by (simp add: be_word_def)

lemma unat_be_word: "length bs \<le> 8 \<Longrightarrow> unat (be_word bs) = be_val bs"
proof (induction bs rule: rev_induct)
  case (snoc b bs)
  have bound: "be_val bs < 0x100000000000000"
    using be_val_bound [of bs] snoc.prems power_increasing [of "length bs" 7 "256 :: nat"] by simp
  have "push_bit 8 (be_word bs) AND (ucast b :: uint64) = 0"
    by (rule bit_word_eqI) (auto simp: bit_simps dest: bit_imp_le_length)
  then have "push_bit 8 (be_word bs) OR ucast b = push_bit 8 (be_word bs) + (ucast b :: uint64)"
    by (simp add: disjunctive_add_eq_or)
  then have "unat (be_word (bs @ [b])) = (unat (be_word bs) * 256 + unat b) mod 2 ^ 64"
    by (simp add: be_word_snoc unat_word_ariths push_bit_eq_mult unsigned_ucast_eq
        take_bit_nat_eq_self less_trans [OF byte_bound] mod_add_left_eq)
  moreover have "be_val bs * 256 + unat b < 0x10000000000000000"
    using bound byte_bound [of b] by linarith
  ultimately show ?case using snoc by simp
qed simp

section \<open>Splitting inverts encoding\<close>

lemma readSize_putint:
  assumes "56 \<le> sz"
  shows "readSize (putint sz @ rest) (of_nat (length (putint sz))) = Inr sz"
proof -
  have len: "1 \<le> length (putint sz)" "length (putint sz) \<le> 8"
    using length_putint [of sz] by linarith+
  then have slen: "unat (of_nat (length (putint sz)) :: byte) = length (putint sz)"
    by (simp add: unat_of_nat_byte)
  have w: "be_word (putint sz) = sz"
    by (rule word_unat_eq_iff [THEN iffD2]) (simp add: unat_be_word len be_val_putint)
  have "sz \<noteq> 0" using assms by auto
  then have hd: "hd (putint sz) \<noteq> 0" by (simp add: putint_nat_bytes hd_nat_bytes unat_gt_0)
  have c: "1 \<le> (of_nat (length (putint sz)) :: byte)" "(of_nat (length (putint sz)) :: byte) \<le> 8"
    using len by (simp_all add: word_le_unat slen)
  obtain x xs where p: "putint sz = x # xs" using len by (cases "putint sz") auto
  show ?thesis
    using assms hd c w unfolding readSize_def slen
    by (simp add: p not_less)
qed


lemma ucast_byte_word: "unat (ucast (b :: byte) :: uint64) = unat b"
  by (simp add: unsigned_ucast_eq take_bit_nat_eq_self less_trans [OF byte_bound])

lemma puthead_small: "n < 56 \<Longrightarrow> puthead s l (of_nat n) = [s + of_nat n]"
  by (simp add: puthead_def of_nat_less_56 ucast_of_nat64)

lemma puthead_large:
  "56 \<le> n \<Longrightarrow> n < 2 ^ 64 \<Longrightarrow>
   puthead s l (of_nat n) = (l + of_nat (length (putint (of_nat n)))) # putint (of_nat n)"
  by (simp add: puthead_def of_nat_less_56 Let_def)

lemma unat_byte_add:
  "unat (c :: byte) + n < 256 \<Longrightarrow> unat (c + of_nat n) = unat c + n"
  by (simp add: unat_word_ariths unat_of_nat_byte)

lemma ucast_byte_eqI: "unat b = n \<Longrightarrow> (ucast (b :: byte) :: uint64) = of_nat n"
  by (rule word_unat_eq_iff [THEN iffD2])
     (auto simp: ucast_byte_word unat_of_nat take_bit_nat_eq_self less_trans [OF byte_bound])

lemma unat_sub_tag: "unat (c :: byte) = unat t + n \<Longrightarrow> unat (c - t) = n"
  by (simp add: unat_sub word_le_unat)

lemma unat_uint64_eq_1: "(of_nat n :: uint64) = 1 \<longleftrightarrow> n = 1" if "n < 2 ^ 64"
  using that by (simp add: word_unat_eq_iff)

text \<open>The tag of a string or list header leads to the header's kind and the content's size.\<close>

lemma readTag_string_small:
  assumes c: "unat c = 128 + n" and n: "n < 56" and canon: "n \<noteq> 1 \<or> (\<exists>x r. rest = x # r \<and> 128 \<le> x)"
  shows "readTag c rest = Inr (KString, 1, of_nat n)"
proof -
  have cs: "(ucast (c - 0x80) :: uint64) = of_nat n"
    using c by (intro ucast_byte_eqI unat_sub_tag) simp
  have one: "(of_nat n :: uint64) = 1 \<longleftrightarrow> n = 1" using n by (simp add: unat_uint64_eq_1)
  show ?thesis
    using n canon unfolding readTag_def cs Let_def one
    by (auto simp: word_less_unat word_le_unat c split: list.splits)
qed

lemma readTag_list_small:
  assumes c: "unat c = 192 + n" and n: "n < 56"
  shows "readTag c rest = Inr (KList, 1, of_nat n)"
proof -
  have cs: "(ucast (c - 0xC0) :: uint64) = of_nat n"
    using c by (intro ucast_byte_eqI unat_sub_tag) simp
  show ?thesis
    using n unfolding readTag_def cs by (simp add: word_less_unat c)
qed

lemma readTag_string_large:
  assumes c: "unat c = 183 + m" and m: "1 \<le> m" "m \<le> 8"
  shows "readTag c rest = map_ok (\<lambda>cs. (KString, of_nat (Suc m), cs)) (readSize rest (of_nat m))"
proof -
  have u: "unat (c - 0xB7) = m" using c by (intro unat_sub_tag) simp
  then have "c - 0xB7 = of_nat m"
    using m by (intro word_unat_eq_iff [THEN iffD2]) (simp add: unat_of_nat_byte)
  moreover have "(ucast (c - 0xB7) :: uint64) = of_nat m" using u by (rule ucast_byte_eqI)
  ultimately show ?thesis
    using m unfolding readTag_def by (simp add: word_less_unat c add.commute [of "of_nat m" "1 :: uint64"])
qed

lemma readTag_list_large:
  assumes c: "unat c = 247 + m" and m: "1 \<le> m" "m \<le> 8"
  shows "readTag c rest = map_ok (\<lambda>cs. (KList, of_nat (Suc m), cs)) (readSize rest (of_nat m))"
proof -
  have u: "unat (c - 0xF7) = m" using c by (intro unat_sub_tag) simp
  then have "c - 0xF7 = of_nat m"
    using m by (intro word_unat_eq_iff [THEN iffD2]) (simp add: unat_of_nat_byte)
  moreover have "(ucast (c - 0xF7) :: uint64) = of_nat m" using u by (rule ucast_byte_eqI)
  ultimately show ?thesis
    using m unfolding readTag_def by (simp add: word_less_unat c add.commute [of "of_nat m" "1 :: uint64"])
qed


subsection \<open>Headers\<close>

text \<open>\<open>puthead\<close> and \<open>readKind\<close> agree on the header of a string or list.\<close>

lemma readKind_check:
  assumes "readTag c hs = Inr (k, of_nat (Suc (length ds)), of_nat n)" "hs = ds @ body @ rest"
    "n = length body" "length (c # hs) < 2 ^ 64"
  shows "readKind (c # hs) = Inr (k, of_nat (Suc (length ds)), of_nat n)"
proof -
  have "(of_nat (length (c # hs)) :: uint64) - of_nat (Suc (length ds)) = of_nat (n + length rest)"
    using assms(2,3) by simp
  moreover have "\<not> (of_nat (n + length rest) :: uint64) < of_nat n"
    using assms(2-4) by (simp add: word_less_unat del: of_nat_add)
  ultimately show ?thesis
    unfolding readKind_def using assms(1) by (simp del: of_nat_Suc of_nat_add length_Cons)
qed

lemma readKind_head:
  assumes tags: "(k, smalltag, largetag) \<in> {(KString, 0x80, 0xB7), (KList, 0xC0, 0xF7)}"
    and canon: "k = KString \<Longrightarrow> \<not> (length body = 1 \<and> hd body < 0x80)"
    and len: "length (puthead smalltag largetag (of_nat (length body)) @ body @ rest) < 2 ^ 64"
  shows "readKind (puthead smalltag largetag (of_nat (length body)) @ body @ rest) =
    Inr (k, of_nat (length (puthead smalltag largetag (of_nat (length body)))), of_nat (length body))"
proof (cases "length body < 56")
  case True
  have "length body \<noteq> 1 \<or> (\<exists>x r. body @ rest = x # r \<and> 128 \<le> x)" if "k = KString"
    using canon [OF that] by (cases body) (auto simp: not_less)
  then have "readTag (smalltag + of_nat (length body)) (body @ rest) = Inr (k, 1, of_nat (length body))"
    using tags True by (auto intro!: readTag_string_small readTag_list_small simp: unat_byte_add)
  then show ?thesis
    using readKind_check [of "smalltag + of_nat (length body)" "body @ rest" k "[]" "length body" body rest]
      len by (simp add: puthead_small [OF True])
next
  case False
  define sz :: uint64 where "sz = of_nat (length body)"
  have "length body < 2 ^ 64" using len by simp
  then have sz: "56 \<le> sz" using False by (simp add: sz_def word_le_unat)
  define m where "m = length (putint sz)"
  have m: "1 \<le> m" "m \<le> 8" using length_putint [of sz] by (simp_all add: m_def del: length_greater_0_conv)
  have head: "puthead smalltag largetag sz = (largetag + of_nat m) # putint sz"
    using leD [OF sz] by (simp add: puthead_def m_def Let_def)
  have "readTag (largetag + of_nat m) (putint sz @ body @ rest) = Inr (k, of_nat (Suc m), sz)"
    using tags m readSize_putint [OF sz, folded m_def]
    by (auto simp: readTag_string_large readTag_list_large unat_byte_add)
  then show ?thesis
    using readKind_check [of "largetag + of_nat m" "putint sz @ body @ rest" k "putint sz" "length body" body rest]
      len by (simp add: head m_def sz_def [symmetric])
qed


lemma readSize_canonical:
  assumes "readSize b slen = Inr s" "1 \<le> slen" "slen \<le> 8"
  shows "unat slen \<le> length b" "take (unat slen) b = putint s" "56 \<le> s"
proof -
  obtain x xs where b: "b = x # xs" and x: "x \<noteq> 0" and s: "s = be_word (take (unat slen) b)"
    and le: "unat slen \<le> length b" and "56 \<le> s"
    using assms by (auto simp: readSize_def Let_def not_less split: if_splits list.splits)
  show "unat slen \<le> length b" "56 \<le> s" by fact+
  have "1 \<le> unat slen" "unat slen \<le> 8" using assms(2,3) by (simp_all add: word_le_unat)
  then have "unat s = be_val (take (unat slen) b)" and "hd (take (unat slen) b) \<noteq> 0"
    using b x by (simp_all add: s unat_be_word)
  moreover have "s \<noteq> 0" using \<open>56 \<le> s\<close> by auto
  ultimately show "take (unat slen) b = putint s"
    by (simp add: putint_nat_bytes nat_bytes_be_val)
qed

lemma readSize_head:
  assumes "readSize hs (of_nat m) = Inr cs" "1 \<le> m" "m \<le> 8"
  shows "m \<le> length hs" "take (Suc m) ((l + of_nat m) # hs) = puthead s l cs" "cs \<noteq> 1"
proof -
  have m: "unat (of_nat m :: byte) = m" "1 \<le> (of_nat m :: byte)" "(of_nat m :: byte) \<le> 8"
    using assms(2,3) by (simp_all add: word_le_unat unat_of_nat_byte)
  note r = readSize_canonical [OF assms(1) m(2,3), unfolded m(1)]
  show "m \<le> length hs" by (rule r(1))
  have "length (putint cs) = m" using r(1) by (simp flip: r(2))
  then show "take (Suc m) ((l + of_nat m) # hs) = puthead s l cs"
    using leD [OF r(3)] r(2) by (simp add: puthead_def Let_def)
  show "cs \<noteq> 1" using r(3) by (auto simp: word_le_unat)
qed

text \<open>
  Whatever header \<open>readKind\<close> accepts is the header the encoder would have written for the content.
\<close>

lemma readTag_canonical:
  assumes "readTag c hs = Inr (k, ts, cs)"
  shows "case k of
      KByte \<Rightarrow> c < 0x80 \<and> ts = 0 \<and> cs = 1
    | KString \<Rightarrow> 1 \<le> unat ts \<and> unat ts \<le> Suc (length hs) \<and>
        take (unat ts) (c # hs) = puthead 0x80 0xB7 cs \<and>
        (cs = 1 \<longrightarrow> (\<exists>x r. hs = x # r \<and> 128 \<le> x))
    | KList \<Rightarrow> 1 \<le> unat ts \<and> unat ts \<le> Suc (length hs) \<and>
        take (unat ts) (c # hs) = puthead 0xC0 0xF7 cs"
proof -
  consider (byte) "unat c < 128" | (str) n where "unat c = 128 + n" "n < 56"
    | (lstr) m where "unat c = 183 + m" "1 \<le> m" "m \<le> 8"
    | (lst) n where "unat c = 192 + n" "n < 56" | (llst) m where "unat c = 247 + m" "1 \<le> m" "m \<le> 8"
  proof -
    have "unat c < 256" by simp
    then have "unat c < 128 \<or> (128 \<le> unat c \<and> unat c - 128 < 56) \<or>
        (183 \<le> unat c \<and> 1 \<le> unat c - 183 \<and> unat c - 183 \<le> 8) \<or>
        (192 \<le> unat c \<and> unat c - 192 < 56) \<or>
        (247 \<le> unat c \<and> 1 \<le> unat c - 247 \<and> unat c - 247 \<le> 8)"
      by linarith
    then show thesis
      using that by (metis le_add_diff_inverse)
  qed
  then show ?thesis
  proof cases
    case byte
    with assms show ?thesis by (auto simp: readTag_def word_less_unat)
  next
    case (str n)
    then have c: "c = 0x80 + of_nat n"
      by (intro word_unat_eq_iff [THEN iffD2]) (simp add: unat_byte_add)
    show ?thesis
    proof (cases "n \<noteq> 1 \<or> (\<exists>x r. hs = x # r \<and> 128 \<le> x)")
      case True
      with assms readTag_string_small [OF str True] str(2) show ?thesis
        by (auto simp: puthead_small c unat_uint64_eq_1)
    next
      case False
      then have "readTag c hs \<noteq> Inr (k, ts, cs)"
        using str by (auto simp: readTag_def word_less_unat word_le_unat Let_def c split: list.splits)
      with assms show ?thesis by simp
    qed
  next
    case (lstr m)
    then have c: "c = 0xB7 + of_nat m"
      by (intro word_unat_eq_iff [THEN iffD2]) (simp add: unat_byte_add)
    from assms obtain s where s: "readSize hs (of_nat m) = Inr s"
        "k = KString" "ts = of_nat (Suc m)" "cs = s"
      unfolding readTag_string_large [OF lstr] by auto
    with lstr readSize_head [OF s(1) lstr(2,3)] show ?thesis
      by (simp add: c del: of_nat_Suc take_Suc_Cons)
  next
    case (lst n)
    then have c: "c = 0xC0 + of_nat n"
      by (intro word_unat_eq_iff [THEN iffD2]) (simp add: unat_byte_add)
    with assms readTag_list_small [OF lst] lst(2) show ?thesis
      by (auto simp: puthead_small)
  next
    case (llst m)
    then have c: "c = 0xF7 + of_nat m"
      by (intro word_unat_eq_iff [THEN iffD2]) (simp add: unat_byte_add)
    from assms obtain s where s: "readSize hs (of_nat m) = Inr s"
        "k = KList" "ts = of_nat (Suc m)" "cs = s"
      unfolding readTag_list_large [OF llst] by auto
    with llst readSize_head [OF s(1) llst(2,3)] show ?thesis
      by (simp add: c del: of_nat_Suc take_Suc_Cons)
  qed
qed


section \<open>Properties of splitting\<close>

definition reencode :: "kind \<Rightarrow> bytes \<Rightarrow> bytes" where
  \<comment> \<open>the encoding of a value of the given kind and content\<close>
  "reencode k content = (case k of KList \<Rightarrow> rlp_lst content | _ \<Rightarrow> rlp_str content)"

definition kind_of :: "kind \<Rightarrow> bytes \<Rightarrow> bool" where
  \<comment> \<open>a string is of kind \<open>Byte\<close> iff it is its own encoding\<close>
  "kind_of k content \<longleftrightarrow> k = KList \<or> (k = KByte \<longleftrightarrow> length content = 1 \<and> hd content < 0x80)"

lemma Split_reencode:
  assumes "kind_of k content" "length (reencode k content @ rest) < 2 ^ 64"
  shows "Split (reencode k content @ rest) = Inr (k, content, rest)"
proof (cases k)
  case KByte
  then obtain x where "content = [x]" "x < 0x80"
    using assms(1) by (auto simp: kind_of_def length_Suc_conv)
  with KByte assms(2) show ?thesis
    by (simp add: Split_def reencode_def rlp_str_def readKind_def readTag_def word_less_unat
        del: of_nat_Suc)
next
  case KString
  then have c: "\<not> (length content = 1 \<and> hd content < 0x80)" using assms(1) by (auto simp: kind_of_def)
  then have r: "reencode k content = puthead 0x80 0xB7 (of_nat (length content)) @ content"
    by (auto simp: KString reencode_def rlp_str_def)
  from c KString assms(2) readKind_head [of KString "0x80" "0xB7" content rest] show ?thesis
    unfolding r by (simp add: Split_def flip: of_nat_add)
next
  case KList
  with assms(2) readKind_head [of KList "0xC0" "0xF7" content rest] show ?thesis
    by (simp add: Split_def reencode_def rlp_lst_def flip: of_nat_add)
qed

lemma readKind_inv:
  assumes "readKind b = Inr (k, ts, cs)" "length b < 2 ^ 64"
  obtains c hs where "b = c # hs" "readTag c hs = Inr (k, ts, cs)"
    "unat ts + unat cs \<le> length b" "unat (ts + cs) = unat ts + unat cs"
proof -
  from assms(1) obtain c hs where b: "b = c # hs" and tag: "readTag c hs = Inr (k, ts, cs)"
    and le: "cs \<le> of_nat (length b) - ts"
    by (auto simp: readKind_def not_less split: list.splits sum.splits if_splits prod.splits)
  have ts: "unat ts \<le> length b" using readTag_canonical [OF tag] by (cases k) (simp_all add: b)
  then have "unat (of_nat (length b) - ts) = length b - unat ts"
    using assms(2) by (simp add: unat_sub word_le_unat)
  then have cs: "unat ts + unat cs \<le> length b" using le ts by (simp add: word_le_unat)
  then have "unat (ts + cs) = unat ts + unat cs"
    using assms(2) by (simp add: unat_word_ariths)
  with b tag cs show thesis by (rule that)
qed

lemma Split_inv:
  assumes split: "Split b = Inr (k, content, rest)" and len64: "length b < 2 ^ 64"
  shows "kind_of k content \<and> b = reencode k content @ rest"
proof -
  from split obtain ts cs where rk: "readKind b = Inr (k, ts, cs)"
    and content: "content = take (unat cs) (drop (unat ts) b)" and rest: "rest = drop (unat (ts + cs)) b"
    by (auto simp: Split_def split: sum.splits)
  from rk len64 obtain c hs where b: "b = c # hs" and tag: "readTag c hs = Inr (k, ts, cs)"
    and cs: "unat ts + unat cs \<le> length b" and sum: "unat (ts + cs) = unat ts + unat cs"
    by (rule readKind_inv)
  note canon = readTag_canonical [OF tag]
  have "rest = drop (unat cs) (drop (unat ts) b)" 
    unfolding rest sum by (simp add: add.commute)
  then have parts: "b = take (unat ts) b @ content @ rest"
    by (simp only: content append_take_drop_id)
  have len: "length content = unat cs" using cs by (simp add: content)
  then have of_len: "(of_nat (length content) :: uint64) = cs" by simp
  show "kind_of k content \<and> b = reencode k content @ rest"
  proof (cases k)
    case KByte
    with canon have "c < 0x80" "ts = 0" "cs = 1" by simp_all
    then show ?thesis using parts KByte
      by (simp add: b content kind_of_def reencode_def rlp_str_def)
  next
    case KString
    have "\<not> (length content = 1 \<and> hd content < 0x80)"
    proof
      assume one: "length content = 1 \<and> hd content < 0x80"
      then have "cs = 1" using of_len by simp
      moreover have "unat ts = 1"
        using canon KString \<open>cs = 1\<close>
        by (cases "unat ts"; cases "unat ts - 1") (auto simp: puthead_def)
      ultimately show False
        using canon KString one by (auto simp: b content not_less [symmetric])
    qed
    then show ?thesis using canon KString parts of_len
      by (auto simp: b kind_of_def reencode_def rlp_str_def)
  next
    case KList
    then show ?thesis using canon parts of_len
      by (auto simp: b kind_of_def reencode_def rlp_lst_def)
  qed
qed

text \<open>
  C21. \<open>Split\<close> accepts exactly the canonical encodings: it returns kind, content and rest for a buffer
  if and only if the buffer is the encoder's output for that content followed by the rest, so no two
  different encodings of a value are accepted and nothing is lost by re-encoding.
\<close>

theorem Split_canonical:
  assumes "length b < 2 ^ 64"
  shows "Split b = Inr (k, content, rest) \<longleftrightarrow> kind_of k content \<and> b = reencode k content @ rest"
proof (rule iffI)
  assume "kind_of k content \<and> b = reencode k content @ rest"
  with Split_reencode [of k content rest] assms show "Split b = Inr (k, content, rest)" by simp
qed (rule Split_inv [OF _ assms])

theorem Split_canonical_witness:
  "Split [0xC2, 0x04, 0x05, 0x09] = Inr (KList, [0x04, 0x05], [0x09])"
  using Split_canonical [of "[0xC2, 0x04, 0x05, 0x09]" KList "[0x04, 0x05]" "[0x09]"]
  by (simp add: kind_of_def reencode_def rlp_lst_def puthead_def)

section \<open>Counting values\<close>

lemma readKind_pos: "readKind b = Inr (k, ts, cs) \<Longrightarrow> 1 \<le> unat ts + unat cs \<and> b \<noteq> []"
proof -
  assume "readKind b = Inr (k, ts, cs)"
  then obtain c hs where b: "b = c # hs" and tag: "readTag c hs = Inr (k, ts, cs)"
    by (auto simp: readKind_def split: list.splits sum.splits if_splits prod.splits)
  from readTag_canonical [OF tag] show ?thesis by (cases k) (auto simp: b)
qed

text \<open>
  \<open>b[tagsize+size:]\<close>: \<open>readKind\<close> has checked that the sum is at most the length of \<open>b\<close>, so it
  does not wrap around. The error return carries the count 0.
\<close>

function CountValues_from :: "nat \<Rightarrow> bytes \<Rightarrow> nat \<times> rlp_error option" where
  "CountValues_from i b =
     (if b = [] then (i, None)
      else case readKind b of
             Inl e \<Rightarrow> (0, Some e)
           | Inr (_, tagsize, sz) \<Rightarrow> CountValues_from (Suc i) (drop (unat tagsize + unat sz) b))"
  by pat_completeness auto
termination
  by (relation "measure (\<lambda>(i, b). length b)") (auto dest!: readKind_pos simp: Suc_le_eq)

declare CountValues_from.simps [simp del]

definition CountValues :: "bytes \<Rightarrow> nat \<times> rlp_error option" where
  "CountValues b = CountValues_from 0 b"

text \<open>Items without pre-encoded parts.\<close>

fun plain :: "item \<Rightarrow> bool" where
  "plain (Str b) \<longleftrightarrow> True"
| "plain (Lst xs) \<longleftrightarrow> list_all plain xs"
| "plain (Enc b) \<longleftrightarrow> False"

definition item_kind :: "item \<Rightarrow> kind" where
  "item_kind x = (case x of
     Str b \<Rightarrow> if length b = 1 \<and> hd b < 0x80 then KByte else KString | _ \<Rightarrow> KList)"

definition item_content :: "item \<Rightarrow> bytes" where
  "item_content x = (case x of Str b \<Rightarrow> b | Lst xs \<Rightarrow> rlps xs | Enc b \<Rightarrow> b)"

lemma rlp_reencode: "plain x \<Longrightarrow> rlp x = reencode (item_kind x) (item_content x)"
  by (cases x) (simp_all add: reencode_def item_kind_def item_content_def rlps_def)

lemma kind_of_item: "kind_of (item_kind x) (item_content x)"
  by (cases x) (auto simp: kind_of_def item_kind_def item_content_def)

lemma rlp_nonempty: "plain x \<Longrightarrow> rlp x \<noteq> []"
  by (cases x) (auto simp: rlp_str_def rlp_lst_def puthead_def Let_def)

lemma rlps_Cons: "rlps (x # xs) = rlp x @ rlps xs"
  by (simp add: rlps_def)

lemma rlps_Nil [simp]: "rlps [] = []"
  by (simp add: rlps_def)

lemma Split_rlp:
  "plain x \<Longrightarrow> length (rlp x @ rest) < 2 ^ 64 \<Longrightarrow>
   Split (rlp x @ rest) = Inr (item_kind x, item_content x, rest)"
  using Split_reencode [OF kind_of_item] by (simp add: rlp_reencode)

lemma readKind_rlp:
  assumes "plain x" "length (rlp x @ rest) < 2 ^ 64"
  obtains ts cs where "readKind (rlp x @ rest) = Inr (item_kind x, ts, cs)"
    "unat ts + unat cs = length (rlp x)"
proof -
  have "Split (rlp x @ rest) = Inr (item_kind x, item_content x, rest)"
    using assms by (rule Split_rlp)
  then obtain ts cs where rk: "readKind (rlp x @ rest) = Inr (item_kind x, ts, cs)"
    and rest: "rest = drop (unat (ts + cs)) (rlp x @ rest)"
    by (auto simp: Split_def split: sum.splits)
  from rk assms(2) have "unat ts + unat cs \<le> length (rlp x @ rest)"
    "unat (ts + cs) = unat ts + unat cs"
    using readKind_inv by blast+
  with arg_cong [OF rest, of length] have "unat ts + unat cs = length (rlp x)" by simp
  with rk show thesis by (rule that)
qed

lemma CountValues_from_rlps:
  "list_all plain xs \<Longrightarrow> length (rlps xs) < 2 ^ 64 \<Longrightarrow> CountValues_from i (rlps xs) = (i + length xs, None)"
proof (induction xs arbitrary: i)
  case Nil
  then show ?case by (simp add: CountValues_from.simps)
next
  case (Cons x xs)
  from Cons.prems obtain ts cs where "readKind (rlp x @ rlps xs) = Inr (item_kind x, ts, cs)"
    "unat ts + unat cs = length (rlp x)"
    using readKind_rlp [of x "rlps xs"] by (auto simp: rlps_Cons)
  with Cons show ?case
    by (simp add: CountValues_from.simps [of i "rlp x @ rlps xs"] rlps_Cons rlp_nonempty)
qed

text \<open>
  \<open>CountValues\<close> counts: on the concatenated encodings of any items it returns their number and
  no error.
\<close>

theorem CountValues_rlps:
  assumes "list_all plain xs" "length (rlps xs) < 2 ^ 64"
  shows "CountValues (rlps xs) = (length xs, None)"
  using CountValues_from_rlps [OF assms] by (simp add: CountValues_def)

theorem CountValues_rlps_witness:
  "CountValues [0x05, 0x82, 0x01, 0x02, 0xC1, 0x07] = (3, None)"
  using CountValues_rlps [of "[Str [5], Str [1, 2], Lst [Str [7]]]"]
  by (simp add: rlps_def rlp_lst_def rlp_str_def puthead_def)

text \<open>
  C23. \<open>readKind\<close> returns an error instead of indexing out of range on every input but one: the
  one-byte buffer \<open>0x81\<close>, a header that announces one byte of content, makes it read \<open>buf[1]\<close>
  before the check that the content is there, and panic.
\<close>

theorem readKind_panics_iff: "readKind b = Inl Panic \<longleftrightarrow> b = [0x81]"
proof
  assume "readKind b = Inl Panic"
  then obtain c hs where b: "b = c # hs" and p: "readTag c hs = Inl Panic"
    by (auto simp: readKind_def split: list.splits sum.splits if_splits)
  have "readSize hs n \<noteq> Inl Panic" for n
    by (cases hs) (auto simp: readSize_def Let_def unat_0_iff)
  with p have "c < 0xB8" "\<not> c < 0x80" "(ucast (c - 0x80) :: uint64) = 1" "hs = []"
    by (auto simp: readTag_def Let_def split: if_splits list.splits)
  then have "unat (c - 0x80) = 1"
    by (metis ucast_byte_word unat_1)
  then have "c - 0x80 = 1" by (simp add: word_unat_eq_iff)
  then have "c = 0x81" by (simp add: diff_eq_eq)
  with b \<open>hs = []\<close> show "b = [0x81]" by simp
next
  assume "b = [0x81]"
  then show "readKind b = Inl Panic" by (simp add: readKind_def readTag_def)
qed

end
