(* ===== verification/Trie_Encoding.thy ===== *)
theory Trie_Encoding
  imports Rlp_Raw
begin

text \<open>
  Key encodings of the Merkle Patricia trie (\<open>trie/encoding.go\<close>): keys as nibble sequences with an
  optional terminator 16, and the compact (hex-prefix) form that is stored in nodes. The lemmas show
  that the compact form loses nothing and when the byte form of a path can be computed at all.
\<close>

section \<open>Definitions\<close>

type_synonym nibbles = bytes

text \<open>An index out of range is a panic, here \<open>None\<close>.\<close>

function compactEncode_loop :: "bytes \<Rightarrow> nat \<Rightarrow> nat \<Rightarrow> nat \<Rightarrow> nibbles \<Rightarrow> bytes" where
  \<comment> \<open>the loop of \<open>compactEncode\<close> with its variables \<open>buf\<close>, \<open>bi\<close>, \<open>hi\<close>, \<open>hs\<close>; \<open>hs\<close> flips between 0 and 4\<close>
  "compactEncode_loop buf bi hi hs hexSlice =
     (if bi < length buf \<and> hi < length hexSlice
      then compactEncode_loop (buf[bi := buf ! bi OR push_bit hs (hexSlice ! hi)])
             (if hs = 0 then Suc bi else bi) (Suc hi) (if hs = 0 then 4 else 0) hexSlice
      else buf)"
  by pat_completeness auto
termination
  by (relation "measure (\<lambda>(buf, bi, hi, hs, h). length h - hi)") auto

declare compactEncode_loop.simps [simp del]

definition compactEncode :: "nibbles \<Rightarrow> bytes option" where
  "compactEncode hexSlice =
     (if hexSlice = [] then None
      else
        let (terminator, hexSlice) =
              (if last hexSlice = 16 then (1 :: byte, butlast hexSlice) else (0, hexSlice));
            odd = (if length hexSlice mod 2 = 1 then 1 else 0 :: byte);
            buflen = length hexSlice div 2 + 1;
            buf = (push_bit 5 terminator OR push_bit 4 odd) # replicate (buflen - 1) 0
        in Some (if odd = 0 then compactEncode_loop buf 1 0 4 hexSlice
                 else compactEncode_loop buf 0 0 0 hexSlice))"

definition compactHexDecode :: "bytes \<Rightarrow> nibbles" where
  "compactHexDecode b = concat (map (\<lambda>x. [x div 16, x mod 16]) b) @ [16]"

definition compactDecode :: "bytes \<Rightarrow> nibbles option" where
  "compactDecode b =
     (let base = butlast (compactHexDecode b)
      in if base = [] then None
         else
           let base' = (if base ! 0 \<ge> 2 then base @ [16] else base)
           in Some (if base' ! 0 mod 2 = 1 then drop 1 base' else drop 2 base'))"

definition hex_bytes :: "nibbles \<Rightarrow> nat \<Rightarrow> bytes option" where
  \<comment> \<open>the loop of \<open>compactHexEncode\<close> for \<open>l\<close> bytes: the test \<open>nl > i*2\<close> always holds in it\<close>
  "hex_bytes nibbles l =
     (if 2 * l \<le> length nibbles
      then Some (map (\<lambda>i. nibbles ! (2 * i) * 16 + nibbles ! (2 * i + 1)) [0..<l])
      else None)"

definition compactHexEncode :: "nibbles \<Rightarrow> bytes option" where
  "compactHexEncode nibbles =
     (if nibbles = [] then Some []
      else
        let nl = (if last nibbles = 16 then length nibbles - 1 else length nibbles)
        in hex_bytes nibbles ((nl + 1) div 2))"

definition decodeCompact :: "nibbles \<Rightarrow> bytes" where
  "decodeCompact key = map (\<lambda>i. key ! (2 * i) * 16 + key ! (2 * i + 1)) [0..<length key div 2]"

fun prefixLen :: "bytes \<Rightarrow> bytes \<Rightarrow> nat" where
  "prefixLen (a # as) (b # bs) = (if a \<noteq> b then 0 else Suc (prefixLen as bs))"
| "prefixLen _ _ = 0"

definition hasTerm :: "nibbles \<Rightarrow> bool option" where
  "hasTerm s = (if s = [] then None else Some (last s = 16))"

definition remTerm :: "nibbles \<Rightarrow> nibbles option" where
  "remTerm s = map_option (\<lambda>t. if t then butlast s else s) (hasTerm s)"

section \<open>Paths\<close>

definition is_nibbles :: "nibbles \<Rightarrow> bool" where
  "is_nibbles k \<longleftrightarrow> list_all (\<lambda>x. x < 16) k"

definition is_path :: "nibbles \<Rightarrow> bool" where
  \<comment> \<open>nibbles with or without a terminator\<close>
  "is_path k \<longleftrightarrow> k \<noteq> [] \<and> is_nibbles (butlast k) \<and> last k \<le> 16"

definition is_key :: "nibbles \<Rightarrow> bool" where
  \<comment> \<open>a whole key: nibbles and the terminator\<close>
  "is_key k \<longleftrightarrow> k \<noteq> [] \<and> is_nibbles (butlast k) \<and> last k = 16"

fun pairs :: "nibbles \<Rightarrow> bytes" where
  \<comment> \<open>two nibbles per byte\<close>
  "pairs (a # b # ns) = (push_bit 4 a OR b) # pairs ns"
| "pairs _ = []"

lemma compactEncode_loop_pairs:
  "even (length ns) \<Longrightarrow>
   compactEncode_loop (pre @ replicate (length ns div 2) 0) (length pre) (length xs) 4 (xs @ ns) = pre @ pairs ns"
proof (induction ns arbitrary: pre xs rule: pairs.induct)
  case (1 a b ns)
  have step: "compactEncode_loop (pre @ replicate (length (a # b # ns) div 2) 0) (length pre) (length xs) 4 (xs @ a # b # ns) =
      compactEncode_loop ((pre @ [push_bit 4 a OR b]) @ replicate (length ns div 2) 0)
        (length (pre @ [push_bit 4 a OR b])) (length (xs @ [a, b])) 4 ((xs @ [a, b]) @ ns)"
    by (subst compactEncode_loop.simps, simp add: nth_append list_update_append,
        subst compactEncode_loop.simps, simp add: nth_append list_update_append)
  show ?case unfolding step using 1 by (subst "1.IH") simp_all
qed (auto simp: compactEncode_loop.simps)

lemma compactEncode_nibbles:
  assumes "h \<noteq> []"
  shows "compactEncode h =
    (let ns = (if last h = 16 then butlast h else h)
     in Some (if even (length ns) then (if last h = 16 then 32 else 0) # pairs ns
              else ((if last h = 16 then 48 else 16) OR hd ns) # pairs (tl ns)))"
proof -
  define ns where "ns = (if last h = 16 then butlast h else h)"
  have ev: "compactEncode_loop (t # replicate (length ns div 2) 0) 1 0 4 ns = t # pairs ns" if "even (length ns)" for t
    using compactEncode_loop_pairs [OF that, of "[t]" "[]"] by simp
  have od: "compactEncode_loop (t # replicate (length ns div 2) 0) 0 0 0 ns = (t OR hd ns) # pairs (tl ns)"
    if o: "odd (length ns)" for t
  proof -
    from o obtain a ms where ns: "ns = a # ms" by (cases ns) auto
    with o have "even (length ms)" by simp
    from compactEncode_loop_pairs [OF this, of "[t OR a]" "[a]"] show ?thesis
      unfolding ns using \<open>even (length ms)\<close> by (subst compactEncode_loop.simps) simp
  qed
  have parity: "n mod 2 = Suc 0 \<longleftrightarrow> odd n" "n mod 2 = 0 \<longleftrightarrow> even n" for n :: nat by presburger+
  show ?thesis
    using assms ev od
    by (cases "last h = 16"; cases "even (length ns)")
      (simp_all add: compactEncode_def ns_def parity Let_def)
qed


text \<open>Nibble arithmetic.\<close>

lemma nibble_join:
  assumes "a < 16" "b < (16 :: byte)"
  shows "push_bit 4 a OR b = a * 16 + b" "unat (a * 16 + b) = unat a * 16 + unat b"
    "(push_bit 4 a OR b) div 16 = a" "(push_bit 4 a OR b) mod 16 = b"
proof -
  have ab: "unat a < 16" "unat b < 16" using assms by (simp_all add: word_less_unat)
  have "unat (take_bit 4 b) = unat b" using ab(2) by (simp add: unsigned_take_bit_eq take_bit_nat_eq_self)
  then have b: "take_bit 4 b = b" by (simp add: word_unat_eq_iff)
  have "push_bit 4 a AND take_bit 4 b = 0" by (rule bit_word_eqI) (auto simp: bit_simps)
  then have disj: "push_bit 4 a AND b = 0" by (simp add: b)
  show u: "unat (a * 16 + b) = unat a * 16 + unat b"
    using ab by (simp add: unat_word_ariths)
  show j: "push_bit 4 a OR b = a * 16 + b"
    using disjunctive_add_eq_or [OF disj] by (simp add: push_bit_eq_mult)
  show "(push_bit 4 a OR b) div 16 = a" "(push_bit 4 a OR b) mod 16 = b"
    unfolding j using ab u by (simp_all add: word_unat_eq_iff unat_div_distrib unat_mod_distrib del: unat_div unat_mod)
qed


lemma pairs_split:
  "is_nibbles ns \<Longrightarrow> even (length ns) \<Longrightarrow> concat (map (\<lambda>x. [x div 16, x mod 16]) (pairs ns)) = ns"
  by (induction ns rule: pairs.induct) (auto simp: is_nibbles_def nibble_join(3,4))

lemma compactHexDecode_Cons: "butlast (compactHexDecode (x # xs)) = x div 16 # x mod 16 # concat (map (\<lambda>x. [x div 16, x mod 16]) xs)"
  by (simp add: compactHexDecode_def butlast_append)

lemma compactDecode_Cons:
  "compactDecode (x # xs) =
     Some ((if odd (unat (x div 16)) then [x mod 16] else []) @
       concat (map (\<lambda>x. [x div 16, x mod 16]) xs) @ (if 2 \<le> x div 16 then [16] else []))"
proof -
  have "x div 16 mod 2 = 1 \<longleftrightarrow> odd (unat (x div 16))"
    by (simp add: word_unat_eq_iff unat_mod_distrib odd_iff_mod_2_eq_one del: unat_mod)
  then show ?thesis by (simp add: compactDecode_def compactHexDecode_Cons Let_def)
qed

lemma is_path_cases:
  assumes "is_path k"
  obtains (nibbles) "is_nibbles k" "k \<noteq> []" "last k \<noteq> 16" | (key) ns where "k = ns @ [16]" "is_nibbles ns"
proof -
  obtain ns x where k: "k = ns @ [x]" using assms by (cases k rule: rev_cases) (auto simp: is_path_def)
  with assms have "is_nibbles ns" "x \<le> 16" by (simp_all add: is_path_def)
  with k that show thesis by (cases "x = 16") (auto simp: is_nibbles_def)
qed

lemma first_byte:
  assumes "b < 16"
  shows "compactDecode ((16 OR b) # xs) = Some (b # concat (map (\<lambda>x. [x div 16, x mod 16]) xs))"
    "compactDecode ((48 OR b) # xs) = Some (b # concat (map (\<lambda>x. [x div 16, x mod 16]) xs) @ [16])"
  using nibble_join(3,4) [of 1 b] nibble_join(3,4) [of 3 b] assms
  by (simp_all add: compactDecode_Cons word_le_unat)

lemma first_byte_even:
  "compactDecode (0 # xs) = Some (concat (map (\<lambda>x. [x div 16, x mod 16]) xs))"
  "compactDecode (32 # xs) = Some (concat (map (\<lambda>x. [x div 16, x mod 16]) xs) @ [16])"
  by (simp_all add: compactDecode_Cons)

lemma compactEncode_path:
  assumes "is_path k"
  obtains c where "compactEncode k = Some c" "compactDecode c = Some k"
  using assms
proof (cases k rule: is_path_cases)
  case nibbles
  show ?thesis
  proof (cases "even (length k)")
    case True
    with nibbles show ?thesis by (intro that [of "0 # pairs k"]) (simp_all add: compactEncode_nibbles first_byte_even pairs_split)
  next
    case False
    then obtain a ns where k: "k = a # ns" "even (length ns)" by (cases k) auto
    with nibbles have "a < 16" "is_nibbles ns" by (simp_all add: is_nibbles_def)
    with k nibbles show ?thesis
      by (intro that [of "(16 OR a) # pairs ns"]) (simp_all add: compactEncode_nibbles first_byte pairs_split)
  qed
next
  case (key ns)
  show ?thesis
  proof (cases "even (length ns)")
    case True
    with key show ?thesis
      by (intro that [of "32 # pairs ns"]) (simp_all add: compactEncode_nibbles first_byte_even pairs_split)
  next
    case False
    then obtain a ms where ms: "ns = a # ms" "even (length ms)" by (cases ns) auto
    with key have "a < 16" "is_nibbles ms" by (simp_all add: is_nibbles_def)
    with key ms show ?thesis
      by (intro that [of "(48 OR a) # pairs ms"]) (simp_all add: compactEncode_nibbles first_byte pairs_split)
  qed
qed

text \<open>
  C40. The compact form of a path loses nothing: decoding what \<open>compactEncode\<close> returns for a
  non-empty nibble path, with or without terminator and of even or odd length, gives the path back.
\<close>

theorem compactDecode_compactEncode:
  assumes "is_path k"
  shows "\<exists>c. compactEncode k = Some c \<and> compactDecode c = Some k"
  using compactEncode_path [OF assms] by blast

theorem compactDecode_compactEncode_witness:
  "\<exists>c. compactEncode [1, 2, 3, 16] = Some c \<and> compactDecode c = Some [1, 2, 3, 16]"
  by (rule compactDecode_compactEncode) (simp add: is_path_def is_nibbles_def)

section \<open>Byte keys\<close>

lemma nibble_split:
  "x div 16 < (16 :: byte)" "x mod 16 < (16 :: byte)" "x div 16 * 16 + x mod 16 = x" for x :: byte
proof -
  have "unat x < 256" by simp
  then have "unat x div 16 < 16" by linarith
  then show "x div 16 < 16" by (simp add: word_less_unat unat_div_distrib del: unat_div)
  show "x mod 16 < 16" by (simp add: word_less_unat unat_mod_distrib del: unat_mod)
  show "x div 16 * 16 + x mod 16 = x" by (rule div_mult_mod_eq)
qed

lemma is_key_compactHexDecode: "is_key (compactHexDecode b)"
  by (induction b)
    (auto simp: is_key_def compactHexDecode_def is_nibbles_def butlast_append nibble_split)

lemma is_key_is_path: "is_key k \<Longrightarrow> is_path k"
  by (simp add: is_key_def is_path_def)

lemma length_compactHexDecode: "length (compactHexDecode b) = 2 * length b + 1"
  by (induction b) (simp_all add: compactHexDecode_def)

lemma nth_compactHexDecode:
  "i < length b \<Longrightarrow> compactHexDecode b ! (2 * i) = b ! i div 16 \<and> compactHexDecode b ! (2 * i + 1) = b ! i mod 16"
proof (induction b arbitrary: i)
  case (Cons x b)
  then show ?case by (cases i) (auto simp: compactHexDecode_def)
qed simp

lemma compactHexEncode_decode: "compactHexEncode (compactHexDecode b) = Some b"
proof -
  have l: "last (compactHexDecode b) = 16" "compactHexDecode b \<noteq> []"
    using is_key_compactHexDecode [of b] by (simp_all add: is_key_def)
  have "map (\<lambda>i. compactHexDecode b ! (2 * i) * 16 + compactHexDecode b ! (2 * i + 1)) [0..<length b] = b"
    by (rule nth_equalityI) (simp_all add: nth_compactHexDecode [simplified] nibble_split(3))
  then show ?thesis
    using l by (simp add: compactHexEncode_def hex_bytes_def length_compactHexDecode)
qed

lemma decodeCompact_inverse: "decodeCompact (compactHexDecode b) = b"
proof -
  have "map (\<lambda>i. compactHexDecode b ! (2 * i) * 16 + compactHexDecode b ! (2 * i + 1)) [0..<length b] = b"
    by (rule nth_equalityI) (simp_all add: nth_compactHexDecode [simplified] nibble_split(3))
  then show ?thesis by (simp add: decodeCompact_def length_compactHexDecode)
qed

lemma compactHexDecode_inj: "compactHexDecode a = compactHexDecode b \<longleftrightarrow> a = b"
  by (metis compactHexEncode_decode option.inject)

text \<open>
  The byte form of a path is an exact inverse of the nibble form on whole keys; on a path of odd
  length without terminator it cannot be computed: the conversion indexes out of range.
\<close>

theorem compactHexEncode_inverse:
  "compactHexEncode (compactHexDecode b) = Some b \<and>
   (compactHexEncode k = None \<longleftrightarrow> odd (length k) \<and> last k \<noteq> 16)"
proof
  show "compactHexEncode (compactHexDecode b) = Some b" by (rule compactHexEncode_decode)
  have n: "2 * ((n + 1) div 2) \<le> n \<longleftrightarrow> even n" for n :: nat by presburger
  show "compactHexEncode k = None \<longleftrightarrow> odd (length k) \<and> last k \<noteq> 16"
  proof (cases "k = []")
    case False
    then have "2 * ((length k - 1 + 1) div 2) \<le> length k" by simp
    with False n [of "length k"] show ?thesis by (auto simp: compactHexEncode_def hex_bytes_def Let_def)
  qed (simp add: compactHexEncode_def)
qed

lemma prefixLen_take: "take (prefixLen a b) a = take (prefixLen a b) b"
  by (induction a b rule: prefixLen.induct) auto

lemma prefixLen_le: "prefixLen a b \<le> length a" "prefixLen a b \<le> length b"
  by (induction a b rule: prefixLen.induct) auto

lemma prefixLen_nth:
  "prefixLen a b < length a \<Longrightarrow> prefixLen a b < length b \<Longrightarrow> a ! prefixLen a b \<noteq> b ! prefixLen a b"
  by (induction a b rule: prefixLen.induct) auto

lemma prefixLen_whole: "prefixLen a b = length b \<longleftrightarrow> (\<exists>r. a = b @ r)"
  by (induction a b rule: prefixLen.induct) auto

end
