(* ===== verification/Rlp_Decode.thy ===== *)
theory Rlp_Decode
  imports Rlp_Raw
begin

text \<open>
  The streaming decoder of \<open>helper/rlp/decode.go\<close>: the \<open>Stream\<close> with its list stack, input limit
  and cached kind, and the type-directed decoders built on it. The stream reads from a byte reader
  whose unread input is \<open>input\<close>. The error context that \<open>addErrorContext\<close> collects is only printed
  and is left out.
\<close>

section \<open>The stream\<close>

record listpos =
  pos :: uint64
  lpsize :: uint64

record stream =
  input :: bytes
  remaining :: uint64
  limited :: bool
  skind :: "kind option"
  ssize :: uint64
  byteval :: byte
  kinderr :: "rlp_error option"
  stack :: "listpos list"

text \<open>
  \<open>skind\<close> is \<open>None\<close> where the code has \<open>kind = -1\<close>. The innermost list is the head of \<open>stack\<close>.
  A stream operation returns an error or a value, and the stream in either case.
\<close>

type_synonym 'a dec = "stream \<Rightarrow> (rlp_error + 'a) \<times> stream"

definition dreturn :: "'a \<Rightarrow> 'a dec" where
  "dreturn a s = (Inr a, s)"

definition dfail :: "rlp_error \<Rightarrow> 'a dec" where
  "dfail e s = (Inl e, s)"

definition dbind :: "'a dec \<Rightarrow> ('a \<Rightarrow> 'b dec) \<Rightarrow> 'b dec" where
  "dbind m f s = (case m s of (Inl e, s') \<Rightarrow> (Inl e, s') | (Inr a, s') \<Rightarrow> f a s')"

definition dmap_err :: "(rlp_error \<Rightarrow> rlp_error) \<Rightarrow> 'a dec \<Rightarrow> 'a dec" where
  "dmap_err g m s = (case m s of (Inl e, s') \<Rightarrow> (Inl (g e), s') | (Inr a, s') \<Rightarrow> (Inr a, s'))"

definition Reset :: "bytes \<Rightarrow> bool \<Rightarrow> uint64 \<Rightarrow> stream \<Rightarrow> stream" where
  \<comment> \<open>\<open>sized\<close>: the reader over \<open>b\<close> is a \<open>bytes.Reader\<close> or \<open>strings.Reader\<close>\<close>
  "Reset b sized inputLimit s =
     s\<lparr>input := b,
       remaining := (if inputLimit > 0 then inputLimit
                     else if sized then of_nat (length b) else remaining s),
       limited := (inputLimit > 0 \<or> sized),
       stack := [], ssize := 0, skind := None, kinderr := None\<rparr>"

definition NewStream :: "bytes \<Rightarrow> bool \<Rightarrow> uint64 \<Rightarrow> stream" where
  "NewStream b sized inputLimit = Reset b sized inputLimit
     \<lparr>input = [], remaining = 0, limited = False, skind = Some KByte, ssize = 0, byteval = 0,
      kinderr = None, stack = []\<rparr>"

definition NewListStream :: "bytes \<Rightarrow> bool \<Rightarrow> uint64 \<Rightarrow> stream" where
  "NewListStream b sized len = (NewStream b sized len)\<lparr>skind := Some KList, ssize := len\<rparr>"

definition willRead :: "uint64 \<Rightarrow> unit dec" where
  "willRead n s =
     (let s = s\<lparr>skind := None\<rparr>
      in case (case stack s of
                 [] \<Rightarrow> Inr s
               | tos # st \<Rightarrow>
                   if n > lpsize tos - pos tos then Inl (ErrElemTooLarge)
                   else Inr (s\<lparr>stack := tos\<lparr>pos := pos tos + n\<rparr> # st\<rparr>)) of
           Inl e \<Rightarrow> (Inl e, s)
         | Inr s \<Rightarrow>
             if limited s then
               if n > remaining s then (Inl ErrValueTooLarge, s)
               else (Inr (), s\<lparr>remaining := remaining s - n\<rparr>)
             else (Inr (), s))"

definition readFull :: "uint64 \<Rightarrow> bytes dec" where
  \<comment> \<open>\<open>readFull(buf)\<close> with a buffer of \<open>n\<close> bytes\<close>
  "readFull n = dbind (willRead n) (\<lambda>_ s.
     if length (input s) < unat n then (Inl ErrUnexpectedEOF, s\<lparr>input := []\<rparr>)
     else (Inr (take (unat n) (input s)), s\<lparr>input := drop (unat n) (input s)\<rparr>))"

definition readByte :: "byte dec" where
  "readByte = dbind (willRead 1) (\<lambda>_ s.
     case input s of
       [] \<Rightarrow> (Inl ErrUnexpectedEOF, s)
     | b # bs \<Rightarrow> (Inr b, s\<lparr>input := bs\<rparr>))"

definition readUint :: "nat \<Rightarrow> uint64 dec" where
  \<comment> \<open>for sizes up to 8, the length of \<open>uintbuf\<close>\<close>
  "readUint n =
     (if n = 0 then (\<lambda>s. (Inr 0, s\<lparr>skind := None\<rparr>))
      else if n = 1 then dbind readByte (\<lambda>b. dreturn (ucast b))
      else dbind (readFull (of_nat n)) (\<lambda>bs.
             if bs ! 0 = 0 then dfail ErrCanonSize else dreturn (be_word bs)))"

definition readKindS :: "stream \<Rightarrow> (kind \<times> uint64 \<times> rlp_error option) \<times> stream" where
  \<comment> \<open>\<open>(s *Stream) readKind\<close>\<close>
  "readKindS s =
     (case readByte s of
        (Inl err, s) \<Rightarrow>
          ((KByte, 0, Some (if stack s = [] \<and> (err = ErrUnexpectedEOF \<or> err = ErrValueTooLarge)
                            then EOF else err)), s)
      | (Inr b, s) \<Rightarrow>
          let s = s\<lparr>byteval := 0\<rparr>
          in if b < 0x80 then ((KByte, 0, None), s\<lparr>byteval := b\<rparr>)
             else if b < 0xB8 then ((KString, ucast (b - 0x80), None), s)
             else if b < 0xC0 then
               (case readUint (unat (b - 0xB7)) s of
                  (Inl e, s) \<Rightarrow> ((KString, 0, Some e), s)
                | (Inr sz, s) \<Rightarrow> ((KString, sz, if sz < 56 then Some ErrCanonSize else None), s))
             else if b < 0xF8 then ((KList, ucast (b - 0xC0), None), s)
             else
               (case readUint (unat (b - 0xF7)) s of
                  (Inl e, s) \<Rightarrow> ((KList, 0, Some e), s)
                | (Inr sz, s) \<Rightarrow> ((KList, sz, if sz < 56 then Some ErrCanonSize else None), s)))"

definition at_end :: "stream \<Rightarrow> bool" where
  "at_end s = (case stack s of [] \<Rightarrow> False | tos # _ \<Rightarrow> pos tos = lpsize tos)"

definition size_check :: "uint64 \<Rightarrow> stream \<Rightarrow> rlp_error option" where
  "size_check sz s =
     (case stack s of
        [] \<Rightarrow> if limited s \<and> sz > remaining s then Some ErrValueTooLarge else None
      | tos # _ \<Rightarrow> if sz > lpsize tos - pos tos then Some ErrElemTooLarge else None)"

definition Kind :: "(kind \<times> uint64) dec" where
  \<comment> \<open>callers look at kind and size only when there is no error\<close>
  "Kind s =
     (case skind s of
        Some k \<Rightarrow> (case kinderr s of None \<Rightarrow> (Inr (k, ssize s), s) | Some e \<Rightarrow> (Inl e, s))
      | None \<Rightarrow>
          let s = s\<lparr>kinderr := None\<rparr>
          in if at_end s then (Inl EOL, s)
             else
               let ((k, sz, err), s) = readKindS s;
                   err = (case err of Some e \<Rightarrow> Some e | None \<Rightarrow> size_check sz s);
                   s = s\<lparr>skind := Some k, ssize := sz, kinderr := err\<rparr>
               in (case err of None \<Rightarrow> (Inr (k, sz), s) | Some e \<Rightarrow> (Inl e, s)))"

definition rearm :: "stream \<Rightarrow> stream" where
  "rearm s = s\<lparr>skind := None\<rparr>"

definition Stream_Bytes :: "bytes dec" where
  "Stream_Bytes = dbind Kind (\<lambda>(k, sz) s.
     case k of
       KByte \<Rightarrow> (Inr [byteval s], rearm s)
     | KString \<Rightarrow>
         dbind (readFull sz) (\<lambda>b. if sz = 1 \<and> b ! 0 < 128 then dfail ErrCanonSize else dreturn b) s
     | KList \<Rightarrow> (Inl ErrExpectedString, s))"

definition Raw :: "bytes dec" where
  "Raw = dbind Kind (\<lambda>(k, sz) s.
     if k = KByte then (Inr [byteval s], rearm s)
     else dbind (readFull sz) (\<lambda>content.
            dreturn ((if k = KString then puthead 0x80 0xB8 sz else puthead 0xC0 0xF7 sz) @ content)) s)"

definition Stream_uint :: "nat \<Rightarrow> uint64 dec" where
  "Stream_uint maxbits = dbind Kind (\<lambda>(k, sz) s.
     case k of
       KByte \<Rightarrow> if byteval s = 0 then (Inl ErrCanonInt, s) else (Inr (ucast (byteval s)), rearm s)
     | KString \<Rightarrow>
         if sz > of_nat (maxbits div 8) then (Inl ErrUintOverflow, s)
         else dbind (dmap_err (\<lambda>e. if e = ErrCanonSize then ErrCanonInt else e) (readUint (unat sz)))
                (\<lambda>v. if sz > 0 \<and> v < 128 then dfail ErrCanonSize else dreturn v) s
     | KList \<Rightarrow> (Inl ErrExpectedString, s))"

definition Stream_Bool :: "bool dec" where
  "Stream_Bool = dbind (Stream_uint 8) (\<lambda>num.
     if num = 0 then dreturn False else if num = 1 then dreturn True else dfail (InvalidBool num))"

definition Stream_List :: "uint64 dec" where
  "Stream_List = dbind Kind (\<lambda>(k, sz) s.
     if k \<noteq> KList then (Inl ErrExpectedList, s)
     else (Inr sz, s\<lparr>stack := \<lparr>pos = 0, lpsize = sz\<rparr> # stack s, skind := None, ssize := 0\<rparr>))"

definition ListEnd :: "unit dec" where
  "ListEnd s =
     (case stack s of
        [] \<Rightarrow> (Inl ErrNotInList, s)
      | tos # st \<Rightarrow>
          if pos tos \<noteq> lpsize tos then (Inl ErrNotAtEOL, s)
          else (Inr (),
            s\<lparr>stack := (case st of [] \<Rightarrow> [] | outer # st' \<Rightarrow> outer\<lparr>pos := pos outer + lpsize tos\<rparr> # st'),
              skind := None, ssize := 0\<rparr>))"

section \<open>Decoding values\<close>

definition wrapStreamError :: "gotype \<Rightarrow> rlp_error \<Rightarrow> rlp_error" where
  "wrapStreamError typ err =
     (case err of
        ErrCanonInt \<Rightarrow> DecodeError ''non-canonical integer (leading zero bytes)'' typ
      | ErrCanonSize \<Rightarrow> DecodeError ''non-canonical size information'' typ
      | ErrExpectedList \<Rightarrow> DecodeError ''expected input list'' typ
      | ErrExpectedString \<Rightarrow> DecodeError ''expected input string or byte'' typ
      | ErrUintOverflow \<Rightarrow> DecodeError ''input string too long'' typ
      | ErrNotAtEOL \<Rightarrow> DecodeError ''input list has too many elements'' typ
      | _ \<Rightarrow> err)"

definition decodeRawValue :: "goval dec" where
  "decodeRawValue = dbind Raw (\<lambda>r. dreturn (GBytes r))"

definition decodeUint :: "nat \<Rightarrow> goval dec" where
  "decodeUint bits = dmap_err (wrapStreamError (TUint bits))
     (dbind (Stream_uint bits) (\<lambda>num. dreturn (GUint num)))"

definition decodeBool :: "goval dec" where
  "decodeBool = dmap_err (wrapStreamError TBool) (dbind Stream_Bool (\<lambda>b. dreturn (GBool b)))"

definition decodeString :: "goval dec" where
  "decodeString = dmap_err (wrapStreamError TString) (dbind Stream_Bytes (\<lambda>b. dreturn (GBytes b)))"

definition decodeBigInt :: "goval dec" where
  "decodeBigInt = dmap_err (wrapStreamError (TPtr TBig)) (dbind Stream_Bytes (\<lambda>b.
     if b \<noteq> [] \<and> b ! 0 = 0 then dfail ErrCanonInt else dreturn (GBig (int (be_val b)))))"

definition decodeByteSlice :: "gotype \<Rightarrow> goval dec" where
  "decodeByteSlice typ = dmap_err (wrapStreamError typ) (dbind Stream_Bytes (\<lambda>b. dreturn (GBytes b)))"

definition decodeByteArray :: "gotype \<Rightarrow> nat \<Rightarrow> goval dec" where
  "decodeByteArray typ vlen = dbind Kind (\<lambda>(k, sz).
     case k of
       KByte \<Rightarrow>
         if vlen = 0 then dfail (DecodeError ''input string too long'' typ)
         else if vlen > 1 then dfail (DecodeError ''input string too short'' typ)
         else (\<lambda>s. case Stream_uint 64 s of
                 (Inl _, s') \<Rightarrow> (Inr (GBytes [0]), s')
               | (Inr bv, s') \<Rightarrow> (Inr (GBytes [ucast bv]), s'))
     | KString \<Rightarrow>
         if of_nat vlen < sz then dfail (DecodeError ''input string too long'' typ)
         else if of_nat vlen > sz then dfail (DecodeError ''input string too short'' typ)
         else dbind (readFull (of_nat vlen)) (\<lambda>slice.
                if sz = 1 \<and> slice ! 0 < 128 then dfail (wrapStreamError typ ErrCanonSize)
                else dreturn (GBytes slice))
     | KList \<Rightarrow> dfail (wrapStreamError typ ErrExpectedString))"

text \<open>
  The list decoders run an element decoder until the stream reports the end of the list
  (\<open>EOL\<close>); \<open>elems\<close>, \<open>arr\<close> and \<open>flds\<close> below are those loops.
\<close>

definition decodeListSlice :: "gotype \<Rightarrow> goval list dec \<Rightarrow> goval list dec" where
  "decodeListSlice typ elems = dbind (dmap_err (wrapStreamError typ) Stream_List) (\<lambda>sz.
     if sz = 0 then dbind ListEnd (\<lambda>_. dreturn [])
     else dbind elems (\<lambda>vs. dbind ListEnd (\<lambda>_. dreturn vs)))"

definition decodeListArray :: "gotype \<Rightarrow> nat \<Rightarrow> goval list dec \<Rightarrow> goval list dec" where
  "decodeListArray typ vlen arr = dbind (dmap_err (wrapStreamError typ) Stream_List) (\<lambda>_.
     dbind arr (\<lambda>vs.
       if length vs < vlen then dfail (DecodeError ''input list has too few elements'' typ)
       else dbind (dmap_err (wrapStreamError typ) ListEnd) (\<lambda>_. dreturn vs)))"

definition decodeStruct :: "gotype \<Rightarrow> goval list dec \<Rightarrow> goval list dec" where
  \<comment> \<open>the function \<open>makeStructDecoder\<close> returns\<close>
  "decodeStruct typ flds = dbind (dmap_err (wrapStreamError typ) Stream_List) (\<lambda>_.
     dbind flds (\<lambda>vs. dbind (dmap_err (wrapStreamError typ) ListEnd) (\<lambda>_. dreturn vs)))"

definition decodeOptionalPtr :: "goval dec \<Rightarrow> goval dec" where
  \<comment> \<open>the function \<open>makeOptionalPtrDecoder\<close> returns\<close>
  "decodeOptionalPtr elem s =
     (case Kind s of
        (Inl e, s') \<Rightarrow> (Inl e, rearm s')
      | (Inr (k, sz), s') \<Rightarrow>
          if sz = 0 \<and> k \<noteq> KByte then (Inr GNil, rearm s')
          else dbind elem (\<lambda>v. dreturn (GPtr v)) s')"

text \<open>
  \<open>decoder f t ts\<close> is the decoder that \<open>makeDecoder\<close> returns for type \<open>t\<close> and tags \<open>ts\<close>, run
  on a zero value of the type. Input can make the element loops run long, so every call uses one
  unit of the fuel \<open>f\<close>; \<open>OutOfFuel\<close> is no error of the code.
\<close>

fun decoder :: "nat \<Rightarrow> gotype \<Rightarrow> tags \<Rightarrow> goval dec"
  and decodeSliceElems :: "nat \<Rightarrow> gotype \<Rightarrow> goval list dec"
  and decodeArrayElems :: "nat \<Rightarrow> nat \<Rightarrow> gotype \<Rightarrow> goval list dec"
  and decodeFields :: "nat \<Rightarrow> gotype \<Rightarrow> (tags \<times> gotype) list \<Rightarrow> goval list dec" where
  "decoder 0 t ts = dfail OutOfFuel"
| "decoder (Suc f) TRaw ts = decodeRawValue"
| "decoder (Suc f) TInterface ts = dbind Kind (\<lambda>(k, _).
     if k = KList
     then dbind (decodeListSlice (TSlice TInterface) (decodeSliceElems f TInterface))
            (\<lambda>vs. dreturn (GIface (TSlice TInterface) (GList vs)))
     else dbind Stream_Bytes (\<lambda>b. dreturn (GIface (TSlice (TUint 8)) (GBytes b))))"
| "decoder (Suc f) TBig ts = decodeBigInt"
| "decoder (Suc f) (TUint n) ts = decodeUint n"
| "decoder (Suc f) TBool ts = decodeBool"
| "decoder (Suc f) TString ts = decodeString"
| "decoder (Suc f) (TSlice et) ts =
     (if isByte et then decodeByteSlice (TSlice et)
      else dbind (if tail ts then decodeSliceElems f et
                  else decodeListSlice (TSlice et) (decodeSliceElems f et))
             (\<lambda>vs. dreturn (GList vs)))"
| "decoder (Suc f) (TArray n et) ts =
     (if isByte et then decodeByteArray (TArray n et) n
      else dbind (decodeListArray (TArray n et) n (decodeArrayElems f n et)) (\<lambda>vs. dreturn (GList vs)))"
| "decoder (Suc f) (TStruct fs) ts =
     dbind (decodeStruct (TStruct fs) (decodeFields f (TStruct fs) fs)) (\<lambda>vs. dreturn (GList vs))"
| "decoder (Suc f) (TPtr et) ts =
     (if et = TBig then dbind decodeBigInt (\<lambda>v. dreturn (GPtr v))
      else if nilOK ts then decodeOptionalPtr (decoder f et no_tags)
      else dbind (decoder f et no_tags) (\<lambda>v. dreturn (GPtr v)))"
| "decoder (Suc f) TOther ts = dfail (NotSerializable TOther)"
| "decodeSliceElems 0 et = dfail OutOfFuel"
| "decodeSliceElems (Suc f) et = (\<lambda>s.
     case decoder f et no_tags s of
       (Inl e, s') \<Rightarrow> if e = EOL then (Inr [], s') else (Inl e, s')
     | (Inr v, s') \<Rightarrow> dbind (decodeSliceElems f et) (\<lambda>vs. dreturn (v # vs)) s')"
| "decodeArrayElems 0 n et = dfail OutOfFuel"
| "decodeArrayElems (Suc f) 0 et = dreturn []"
| "decodeArrayElems (Suc f) (Suc n) et = (\<lambda>s.
     case decoder f et no_tags s of
       (Inl e, s') \<Rightarrow> if e = EOL then (Inr [], s') else (Inl e, s')
     | (Inr v, s') \<Rightarrow> dbind (decodeArrayElems f n et) (\<lambda>vs. dreturn (v # vs)) s')"
| "decodeFields 0 styp fs = dfail OutOfFuel"
| "decodeFields (Suc f) styp [] = dreturn []"
| "decodeFields (Suc f) styp ((ts, t) # fs) = (\<lambda>s.
     case decoder f t ts s of
       (Inl e, s') \<Rightarrow>
         if e = EOL then (Inl (DecodeError ''too few elements'' styp), s') else (Inl e, s')
     | (Inr v, s') \<Rightarrow> dbind (decodeFields f styp fs) (\<lambda>vs. dreturn (v # vs)) s')"

definition Stream_Decode :: "nat \<Rightarrow> gotype \<Rightarrow> goval dec" where
  "Stream_Decode f t =
     (case genTypeInfo t of Inl e \<Rightarrow> dfail e | Inr _ \<Rightarrow> decoder f t no_tags)"

definition DecodeBytes :: "nat \<Rightarrow> bytes \<Rightarrow> gotype \<Rightarrow> rlp_error + goval" where
  "DecodeBytes f b t =
     (case Stream_Decode f t (NewStream b True (of_nat (length b))) of
        (Inl e, _) \<Rightarrow> Inl e
      | (Inr v, s) \<Rightarrow> if input s \<noteq> [] then Inl ErrMoreThanOneValue else Inr v)"

definition Decode :: "nat \<Rightarrow> bytes \<Rightarrow> bool \<Rightarrow> gotype \<Rightarrow> (rlp_error + goval) \<times> stream" where
  "Decode f b sized t = Stream_Decode f t (NewStream b sized 0)"

section \<open>Termination\<close>

text \<open>
  No stream operation moves back in the input. A header that has been read but whose value has
  not been consumed counts as one byte of input still to come.
\<close>

definition ahead :: "stream \<Rightarrow> nat" where
  "ahead s = length (input s) + (if skind s = None then 0 else 1)"

definition steady :: "bool \<Rightarrow> 'a dec \<Rightarrow> stream \<Rightarrow> bool" where
  \<comment> \<open>does not move back and, if \<open>fuelled\<close>, does not run out of fuel\<close>
  "steady fuelled m s \<longleftrightarrow> (kinderr s \<noteq> Some OutOfFuel \<longrightarrow>
     kinderr (snd (m s)) \<noteq> Some OutOfFuel \<and> length (input (snd (m s))) \<le> length (input s) \<and>
     (fuelled \<longrightarrow> fst (m s) \<noteq> Inl OutOfFuel))"

definition settles :: "'a dec \<Rightarrow> bool" where
  \<comment> \<open>leaves the stream in front of a next value when it succeeds\<close>
  "settles m \<longleftrightarrow> (\<forall>s v s'. m s = (Inr v, s') \<longrightarrow> kinderr s \<noteq> Some OutOfFuel \<longrightarrow>
     skind s' = None \<and> ahead s' < ahead s)"

lemma steady_iff:
  "steady x m s \<longleftrightarrow> (kinderr s \<noteq> Some OutOfFuel \<longrightarrow> (\<forall>r s'. m s = (r, s') \<longrightarrow>
     kinderr s' \<noteq> Some OutOfFuel \<and> length (input s') \<le> length (input s) \<and> (x \<longrightarrow> r \<noteq> Inl OutOfFuel)))"
  by (cases "m s") (simp add: steady_def)

lemma steady_cong: "m s = m' s \<Longrightarrow> steady x m' s \<Longrightarrow> steady x m s"
  by (simp add: steady_def)

lemma steadyD:
  "steady x m s \<Longrightarrow> m s = (r, s') \<Longrightarrow> kinderr s \<noteq> Some OutOfFuel \<Longrightarrow>
   kinderr s' \<noteq> Some OutOfFuel \<and> length (input s') \<le> length (input s) \<and> (x \<longrightarrow> r \<noteq> Inl OutOfFuel)"
  by (simp add: steady_iff)

lemma dbind_eq:
  "dbind m f s = (r, s') \<longleftrightarrow>
   (\<exists>e. m s = (Inl e, s') \<and> r = Inl e) \<or> (\<exists>a s1. m s = (Inr a, s1) \<and> f a s1 = (r, s'))"
  by (auto simp: dbind_def split: prod.splits sum.splits)

lemma dbind_ok: "m s = (Inr a, s1) \<Longrightarrow> dbind m f s = f a s1"
  by (simp add: dbind_def)

lemma dmap_err_eq:
  "dmap_err g m s = (r, s') \<longleftrightarrow>
   (\<exists>e. m s = (Inl e, s') \<and> r = Inl (g e)) \<or> (\<exists>a. m s = (Inr a, s') \<and> r = Inr a)"
  by (auto simp: dmap_err_def split: prod.splits sum.splits)

lemma dmap_err_ok: "m s = (Inr a, s1) \<Longrightarrow> dmap_err g m s = (Inr a, s1)"
  by (simp add: dmap_err_def)

lemma steady_dbind:
  assumes "steady x m s"
    and "\<And>a s1. m s = (Inr a, s1) \<Longrightarrow> kinderr s1 \<noteq> Some OutOfFuel \<Longrightarrow> length (input s1) \<le> length (input s) \<Longrightarrow>
           steady x (f a) s1"
  shows "steady x (dbind m f) s"
  using assms by (fastforce simp: steady_iff dbind_eq)

lemma steady_dreturn: "steady x (dreturn a) s"
  by (simp add: steady_iff dreturn_def)

lemma steady_dfail: "(x \<Longrightarrow> e \<noteq> OutOfFuel) \<Longrightarrow> steady x (dfail e) s"
  by (simp add: steady_iff dfail_def)

lemma steady_dmap_err:
  "steady x m s \<Longrightarrow> (\<And>e. e \<noteq> OutOfFuel \<Longrightarrow> g e \<noteq> OutOfFuel) \<Longrightarrow> steady x (dmap_err g m) s"
  unfolding steady_iff dmap_err_eq by (auto; metis)

lemma wrapStreamError_fuel: "e \<noteq> OutOfFuel \<Longrightarrow> wrapStreamError typ e \<noteq> OutOfFuel"
  by (cases e) (simp_all add: wrapStreamError_def)

lemma willRead_cases:
  "willRead n s = (r, s') \<Longrightarrow>
   input s' = input s \<and> skind s' = None \<and> kinderr s' = kinderr s \<and> r \<noteq> Inl OutOfFuel"
  by (auto simp: willRead_def Let_def split: list.splits if_splits sum.splits)


lemma readFull_cases:
  "readFull n s = (r, s') \<Longrightarrow>
   length (input s') \<le> length (input s) \<and> skind s' = None \<and> kinderr s' = kinderr s \<and> r \<noteq> Inl OutOfFuel"
  by (auto simp: readFull_def dbind_eq dest!: willRead_cases split: if_splits)

lemma readByte_cases:
  "readByte s = (r, s') \<Longrightarrow>
   skind s' = None \<and> kinderr s' = kinderr s \<and> r \<noteq> Inl OutOfFuel \<and>
   (case r of Inl _ \<Rightarrow> length (input s') \<le> length (input s) | Inr b \<Rightarrow> input s = b # input s')"
  by (cases "willRead 1 s"; cases "input s")
    (auto simp: readByte_def dbind_eq dest!: willRead_cases)

lemma readUint_cases:
  assumes "readUint n s = (r, s')"
  shows "length (input s') \<le> length (input s) \<and> skind s' = None \<and> kinderr s' = kinderr s \<and> r \<noteq> Inl OutOfFuel"
proof -
  consider "n = 0" | "n = 1" | "n \<noteq> 0" "n \<noteq> 1" by blast
  then show ?thesis
  proof cases
    case 2
    with assms show ?thesis
      by (auto simp: readUint_def dbind_eq dreturn_def dest!: readByte_cases)
  next
    case 3
    with assms show ?thesis
      by (auto simp: readUint_def dbind_eq dreturn_def dfail_def dest!: readFull_cases split: if_splits)
  qed (use assms in \<open>auto simp: readUint_def\<close>)
qed

lemma readKindS_cases:
  assumes "readKindS s = ((k, sz, err), s')"
  shows "length (input s') \<le> length (input s) \<and> err \<noteq> Some OutOfFuel \<and>
    (err = None \<longrightarrow> length (input s') < length (input s))"
proof (cases "readByte s")
  case (Pair r s1)
  note rb = readByte_cases [OF Pair]
  show ?thesis
  proof (cases r)
    case (Inl e)
    with assms rb show ?thesis by (auto simp: readKindS_def Pair split: if_split_asm)
  next
    case (Inr b)
    then have inp: "length (input s) = Suc (length (input s1))" using rb by simp
    obtain r2 s2 where two: "readUint (unat (b - 0xB7)) (s1\<lparr>byteval := 0\<rparr>) = (r2, s2)" by fastforce
    obtain r3 s3 where three: "readUint (unat (b - 0xF7)) (s1\<lparr>byteval := 0\<rparr>) = (r3, s3)" by fastforce
    from assms inp readUint_cases [OF two] readUint_cases [OF three] show ?thesis
      by (auto simp: readKindS_def Pair Inr two three Let_def split: if_split_asm sum.split_asm)
  qed
qed

lemma Kind_cases:
  assumes K: "Kind s = (r, s')" and ok: "kinderr s \<noteq> Some OutOfFuel"
  shows "r \<noteq> Inl OutOfFuel \<and> kinderr s' \<noteq> Some OutOfFuel \<and> length (input s') \<le> length (input s) \<and>
    (\<forall>k sz. r = Inr (k, sz) \<longrightarrow> skind s' = Some k \<and> ssize s' = sz \<and> kinderr s' = None \<and> ahead s' \<le> ahead s)"
proof (cases "skind s")
  case (Some k)
  with K ok show ?thesis by (auto simp: Kind_def split: option.split_asm)
next
  case None
  define s0 where "s0 = s\<lparr>kinderr := None\<rparr>"
  obtain k sz err s1 where R: "readKindS s0 = ((k, sz, err), s1)" by (metis prod_cases3 surj_pair)
  show ?thesis
  proof (cases "at_end s0")
    case True
    with K None show ?thesis by (auto simp: Kind_def s0_def Let_def)
  next
    case False
    have K': "(r, s') =
       (let err = (case err of Some e \<Rightarrow> Some e | None \<Rightarrow> size_check sz s1);
            s = s1\<lparr>skind := Some k, ssize := sz, kinderr := err\<rparr>
        in (case err of None \<Rightarrow> (Inr (k, sz), s) | Some e \<Rightarrow> (Inl e, s)))"
      using K unfolding Kind_def by (simp only: None option.case Let_def s0_def [symmetric] False if_False R prod.case)
    have "size_check sz s1 \<noteq> Some OutOfFuel" by (simp add: size_check_def split: list.split)
    moreover have "input s0 = input s" by (simp add: s0_def)
    ultimately show ?thesis
      using K' None readKindS_cases [OF R] by (auto simp: Let_def ahead_def split: option.splits)
  qed
qed



lemma steady_Kind: "steady x Kind s"
  unfolding steady_iff using Kind_cases by blast

lemma steady_readFull: "steady x (readFull n) s"
  by (auto simp: steady_iff dest!: readFull_cases)

lemma steady_readUint: "steady x (readUint n) s"
  by (auto simp: steady_iff dest!: readUint_cases)

lemma steady_rearm: "steady x (\<lambda>s. (Inr (h s), rearm s)) s"
  by (simp add: steady_iff rearm_def)

lemma steady_error: "(x \<Longrightarrow> e \<noteq> OutOfFuel) \<Longrightarrow> steady x (\<lambda>s. (Inl e, s)) s"
  by (simp add: steady_iff)

lemma steady_kind:
  "steady x a s \<Longrightarrow> steady x b s \<Longrightarrow> steady x c s \<Longrightarrow>
   steady x (\<lambda>s. case k of KByte \<Rightarrow> a s | KString \<Rightarrow> b s | KList \<Rightarrow> c s) s"
  by (cases k) simp_all

lemma steady_kind_dec:
  "steady x a s \<Longrightarrow> steady x b s \<Longrightarrow> steady x c s \<Longrightarrow>
   steady x (case k of KByte \<Rightarrow> a | KString \<Rightarrow> b | KList \<Rightarrow> c) s"
  by (cases k) simp_all

lemma steady_if: "steady x a s \<Longrightarrow> steady x b s \<Longrightarrow> steady x (\<lambda>s. if P s then a s else b s) s"
  by (cases "P s") (simp_all add: steady_cong [of _ s a] steady_cong [of _ s b])

lemma steady_if_dec: "steady x a s \<Longrightarrow> steady x b s \<Longrightarrow> steady x (if P then a else b) s"
  by simp

lemma steady_case_prod: "(\<And>a b. steady x (f a b) s) \<Longrightarrow> steady x (case_prod f p) s"
  by (cases p) simp

lemma steady_ListEnd: "steady x ListEnd s"
  by (auto simp: steady_iff ListEnd_def split: list.split_asm if_split_asm)

lemma steady_push: "steady x (\<lambda>s. (Inr v, s\<lparr>stack := st s, skind := None, ssize := 0\<rparr>)) s"
  by (simp add: steady_iff)

lemma steady_wrap: "steady x m s \<Longrightarrow> steady x (dmap_err (wrapStreamError typ) m) s"
  by (rule steady_dmap_err) (auto simp: wrapStreamError_fuel)

lemmas steady_intros = steady_dbind steady_dreturn steady_dfail steady_wrap steady_Kind steady_readFull
  steady_readUint steady_rearm steady_error steady_kind steady_kind_dec steady_if steady_if_dec steady_case_prod
  steady_ListEnd steady_push

lemma steady_List: "steady x Stream_List s"
  unfolding Stream_List_def by (intro steady_intros) auto

lemma steady_Bytes: "steady x Stream_Bytes s"
  unfolding Stream_Bytes_def by (intro steady_intros) auto

lemma steady_Raw: "steady x Raw s"
  unfolding Raw_def by (intro steady_intros)

lemma steady_uint: "steady x (Stream_uint n) s"
  unfolding Stream_uint_def by (intro steady_intros steady_dmap_err) (auto split: if_split_asm)

lemma steady_Bool: "steady x Stream_Bool s"
  unfolding Stream_Bool_def by (intro steady_intros steady_uint) auto

lemma steady_uint_byte:
  "steady x (\<lambda>s. case Stream_uint 64 s of
                 (Inl _, s') \<Rightarrow> (Inr (GBytes [0]), s')
               | (Inr bv, s') \<Rightarrow> (Inr (GBytes [ucast bv]), s')) s"
  using steady_uint [of x 64 s] by (auto simp: steady_iff split: prod.split_asm sum.split_asm)

lemmas steady_values = steady_List steady_Bytes steady_Raw steady_uint steady_Bool steady_uint_byte

lemma steady_decoders:
  "steady x decodeRawValue s" "steady x (decodeUint n) s" "steady x decodeBool s" "steady x decodeString s"
  "steady x decodeBigInt s" "steady x (decodeByteSlice typ) s" "steady x (decodeByteArray typ vlen) s"
  unfolding decodeRawValue_def decodeUint_def decodeBool_def decodeString_def decodeBigInt_def
    decodeByteSlice_def decodeByteArray_def
  by ((intro steady_intros steady_values; simp add: wrapStreamError_fuel)+)[7]


lemma settlesD:
  "settles m \<Longrightarrow> m s = (Inr v, s') \<Longrightarrow> kinderr s \<noteq> Some OutOfFuel \<Longrightarrow> skind s' = None \<and> ahead s' < ahead s"
  by (simp add: settles_def)

text \<open>Once \<open>Kind\<close> has succeeded, any operation that clears the cached kind settles.\<close>

lemma settles_Kind:
  assumes "\<And>k sz s v s'. g (k, sz) s = (Inr v, s') \<Longrightarrow> skind s = Some k \<Longrightarrow> skind s' = None \<and> length (input s') \<le> length (input s)"
  shows "settles (dbind Kind g)"
  unfolding settles_def
proof (intro allI impI)
  fix s v s'
  assume "dbind Kind g s = (Inr v, s')" and ok: "kinderr s \<noteq> Some OutOfFuel"
  then obtain k sz s1 where K: "Kind s = (Inr (k, sz), s1)" and g: "g (k, sz) s1 = (Inr v, s')"
    by (auto simp: dbind_eq)
  from Kind_cases [OF K ok] have "skind s1 = Some k" "ahead s1 \<le> ahead s" by auto
  with assms [OF g] show "skind s' = None \<and> ahead s' < ahead s" by (simp add: ahead_def)
qed

lemma settles_map:
  "settles m \<Longrightarrow> (\<And>a s v s'. f a s = (Inr v, s') \<Longrightarrow> s' = s) \<Longrightarrow> settles (dbind m f)"
  unfolding settles_def dbind_eq by blast

lemma settles_dmap_err: "settles m \<Longrightarrow> settles (dmap_err g m)"
  by (auto simp: settles_def dmap_err_eq)

lemma settles_Bytes: "settles Stream_Bytes"
  unfolding Stream_Bytes_def
  by (rule settles_Kind)
    (auto simp: rearm_def dbind_eq dreturn_def dfail_def dest!: readFull_cases
      split: kind.split_asm if_split_asm)

lemma settles_Raw: "settles Raw"
  unfolding Raw_def
  by (rule settles_Kind)
    (auto simp: rearm_def dbind_eq dreturn_def dfail_def dest!: readFull_cases split: if_split_asm)

lemma settles_uint: "settles (Stream_uint n)"
  unfolding Stream_uint_def
  by (rule settles_Kind)
    (auto simp: rearm_def dbind_eq dmap_err_eq dreturn_def dfail_def dest!: readUint_cases
      split: kind.split_asm if_split_asm)

lemma settles_List: "settles Stream_List"
  unfolding Stream_List_def by (rule settles_Kind) (auto split: if_split_asm)

lemma settles_decoders:
  "settles decodeRawValue" "settles (decodeUint n)" "settles decodeBool" "settles decodeString"
  "settles decodeBigInt" "settles (decodeByteSlice typ)"
  unfolding decodeRawValue_def decodeUint_def decodeBool_def decodeString_def decodeBigInt_def
    decodeByteSlice_def Stream_Bool_def
  by (auto intro!: settles_dmap_err settles_map settles_Bytes settles_Raw settles_uint
      simp: dreturn_def dfail_def split: if_split_asm)

lemma settles_byte_array: "vlen \<noteq> 1 \<Longrightarrow> settles (decodeByteArray typ vlen)"
  unfolding decodeByteArray_def
  by (rule settles_Kind)
    (auto simp: rearm_def dbind_eq dreturn_def dfail_def dest!: readFull_cases
      split: kind.split_asm if_split_asm)

lemma settles_optional:
  assumes "settles m"
  shows "settles (decodeOptionalPtr m)"
  unfolding settles_def
proof (intro allI impI)
  fix s v s'
  assume opt: "decodeOptionalPtr m s = (Inr v, s')" and ok: "kinderr s \<noteq> Some OutOfFuel"
  then obtain k sz s1 where K: "Kind s = (Inr (k, sz), s1)"
    by (auto simp: decodeOptionalPtr_def split: prod.split_asm sum.split_asm)
  note kind = Kind_cases [OF K ok]
  then have le: "ahead s1 \<le> ahead s" and k: "skind s1 = Some k" by auto
  show "skind s' = None \<and> ahead s' < ahead s"
  proof (cases "sz = 0 \<and> k \<noteq> KByte")
    case True
    with opt K le k show ?thesis by (auto simp: decodeOptionalPtr_def rearm_def ahead_def)
  next
    case False
    with opt K obtain v' where "m s1 = (Inr v', s')"
      by (auto simp: decodeOptionalPtr_def dbind_eq dreturn_def split: if_split_asm)
    from settlesD [OF assms this] kind le show ?thesis by simp
  qed
qed


lemma steadyI: "(kinderr s \<noteq> Some OutOfFuel \<Longrightarrow> steady x m s) \<Longrightarrow> steady x m s"
  by (auto simp: steady_def)

lemma steady_in_list:
  assumes "\<And>sz s1. kinderr s1 \<noteq> Some OutOfFuel \<Longrightarrow> skind s1 = None \<Longrightarrow> ahead s1 < ahead s \<Longrightarrow> steady x (f sz) s1"
  shows "steady x (dbind (dmap_err (wrapStreamError typ) Stream_List) f) s"
proof (rule steadyI, intro steady_dbind steady_wrap steady_List)
  fix sz s1
  assume ok: "kinderr s \<noteq> Some OutOfFuel" "kinderr s1 \<noteq> Some OutOfFuel"
    and l: "dmap_err (wrapStreamError typ) Stream_List s = (Inr sz, s1)"
  from settlesD [OF settles_dmap_err [OF settles_List] l ok(1)] ok(2)
  show "steady x (f sz) s1" by (intro assms) auto
qed

text \<open>A loop over elements, fields or array slots, with what to do when an element reports \<open>EOL\<close>.\<close>

lemma steady_loop:
  assumes "steady x dec s"
    and "\<And>e. e \<noteq> OutOfFuel \<Longrightarrow> eol e \<noteq> Inl OutOfFuel"
    and "\<And>v s1. dec s = (Inr v, s1) \<Longrightarrow> kinderr s1 \<noteq> Some OutOfFuel \<Longrightarrow> steady x (rest v) s1"
  shows "steady x (\<lambda>s. case dec s of (Inl e, s') \<Rightarrow> (if e = EOL then (eol e, s') else (Inl e, s'))
    | (Inr v, s') \<Rightarrow> rest v s') s"
proof (rule steadyI)
  assume ok: "kinderr s \<noteq> Some OutOfFuel"
  obtain r s' where d: "dec s = (r, s')" by fastforce
  note st = steadyD [OF assms(1) d ok]
  show "steady x (\<lambda>s. case dec s of (Inl e, s') \<Rightarrow> (if e = EOL then (eol e, s') else (Inl e, s'))
    | (Inr v, s') \<Rightarrow> rest v s') s"
  proof (cases r)
    case (Inl e)
    with d st assms(2) [of e] show ?thesis by (auto simp: steady_def)
  next
    case (Inr v)
    with d st have "steady x (rest v) s'" by (intro assms(3)) auto
    with d Inr st show ?thesis by (auto simp: steady_def)
  qed
qed

lemma steady_optional:
  assumes "\<And>s1. kinderr s1 \<noteq> Some OutOfFuel \<Longrightarrow> ahead s1 \<le> ahead s \<Longrightarrow> steady x m s1"
  shows "steady x (decodeOptionalPtr m) s"
proof (rule steadyI)
  assume ok: "kinderr s \<noteq> Some OutOfFuel"
  obtain r s' where K: "Kind s = (r, s')" by fastforce
  note kind = Kind_cases [OF K ok]
  show "steady x (decodeOptionalPtr m) s"
  proof (cases r)
    case (Inl e)
    with K kind show ?thesis by (auto simp: steady_def decodeOptionalPtr_def rearm_def)
  next
    case (Inr p)
    obtain k sz where p: "p = (k, sz)" by fastforce
    have "steady x (dbind m (\<lambda>v. dreturn (GPtr v))) s'"
      using kind Inr p by (intro steady_intros assms) auto
    then show ?thesis
      using K kind Inr p by (auto simp: steady_def decodeOptionalPtr_def rearm_def)
  qed
qed

lemma decoder_steady:
  "steady False (decoder f t ts) s \<and> steady False (decodeSliceElems f t) s \<and>
   steady False (decodeArrayElems f n t) s \<and> steady False (decodeFields f styp fs) s"
proof (induction f arbitrary: t ts n styp fs s)
  case 0
  then show ?case by (auto intro: steady_dfail)
next
  case (Suc f)
  have "steady False (decoder (Suc f) t ts) s"
  proof (cases t)
    case TInterface
    show ?thesis using Suc unfolding TInterface decoder.simps decodeListSlice_def
      by (intro steady_intros steady_values steady_in_list) auto
  next
    case (TSlice et)
    show ?thesis using Suc unfolding TSlice decoder.simps decodeListSlice_def
      by (intro steady_intros steady_decoders steady_in_list) auto
  next
    case (TArray k et)
    show ?thesis using Suc unfolding TArray decoder.simps decodeListArray_def
      by (intro steady_intros steady_decoders steady_in_list) auto
  next
    case (TStruct gs)
    show ?thesis using Suc unfolding TStruct decoder.simps decodeStruct_def
      by (intro steady_intros steady_in_list) auto
  next
    case (TPtr et)
    show ?thesis using Suc unfolding TPtr decoder.simps
      by (intro steady_intros steady_decoders steady_optional) auto
  qed (auto intro: steady_decoders steady_dfail)
  moreover have "steady False (decodeSliceElems (Suc f) t) s"
    using Suc unfolding decodeSliceElems.simps by (intro steady_loop steady_intros) auto
  moreover have "steady False (decodeArrayElems (Suc f) n t) s"
    using Suc by (cases n) (auto intro!: steady_loop steady_intros)
  moreover have "steady False (decodeFields (Suc f) styp fs) s"
    using Suc by (cases "(Suc f, styp, fs)" rule: decodeFields.cases) (auto intro!: steady_loop steady_intros)
  ultimately show ?case by blast
qed


text \<open>
  Decoding moves on to the next value for every type except \<open>[1]byte\<close> and pointers to it: on the
  byte 0 that decoder ignores the error of \<open>Uint\<close>, which has not consumed the value.
\<close>

fun stuck :: "gotype \<Rightarrow> bool" where
  "stuck (TArray n t) \<longleftrightarrow> n = 1 \<and> isByte t"
| "stuck (TPtr t) \<longleftrightarrow> stuck t"
| "stuck _ \<longleftrightarrow> False"

definition closes :: "'a dec \<Rightarrow> bool" where
  "closes m \<longleftrightarrow> (\<forall>s v s'. m s = (Inr v, s') \<longrightarrow> kinderr s \<noteq> Some OutOfFuel \<longrightarrow>
     skind s' = None \<and> length (input s') \<le> length (input s))"

lemma settles_list:
  assumes "\<And>sz. closes (g sz)"
  shows "settles (dbind (dmap_err (wrapStreamError typ) Stream_List) g)"
  unfolding settles_def
proof (intro allI impI)
  fix s v s'
  assume "dbind (dmap_err (wrapStreamError typ) Stream_List) g s = (Inr v, s')"
    and ok: "kinderr s \<noteq> Some OutOfFuel"
  then obtain sz s1 where l: "Stream_List s = (Inr sz, s1)" and g: "g sz s1 = (Inr v, s')"
    by (auto simp: dbind_eq dmap_err_eq)
  have "kinderr s1 \<noteq> Some OutOfFuel" using steadyD [OF steady_List l ok, of True] by simp
  with assms [of sz] g have "skind s' = None \<and> length (input s') \<le> length (input s1)"
    unfolding closes_def by blast
  with settlesD [OF settles_List l ok]
  show "skind s' = None \<and> ahead s' < ahead s" by (auto simp: ahead_def)
qed

lemma closes_ListEnd: "closes ListEnd"
  by (auto simp: closes_def ListEnd_def split: list.split_asm if_split_asm)

lemma closes_dmap_err: "closes m \<Longrightarrow> closes (dmap_err g m)"
  by (auto simp: closes_def dmap_err_eq)

lemma closes_return: "closes m \<Longrightarrow> closes (dbind m (\<lambda>v. dreturn (h v)))"
  by (auto simp: closes_def dbind_eq dreturn_def)

lemma closes_dfail: "closes (dfail e)"
  by (simp add: closes_def dfail_def)

lemma closes_after:
  assumes "\<And>s. steady False m s" "\<And>a. closes (f a)"
  shows "closes (dbind m f)"
  unfolding closes_def
proof (intro allI impI)
  fix s v s'
  assume "dbind m f s = (Inr v, s')" and ok: "kinderr s \<noteq> Some OutOfFuel"
  then obtain a s1 where m: "m s = (Inr a, s1)" and f: "f a s1 = (Inr v, s')" by (auto simp: dbind_eq)
  from steadyD [OF assms(1) m ok] assms(2) [of a] f
  show "skind s' = None \<and> length (input s') \<le> length (input s)" by (fastforce simp: closes_def)
qed

lemmas closes_intros = closes_return closes_dmap_err closes_ListEnd closes_dfail

lemma settles_slice: "(\<And>s. steady False m s) \<Longrightarrow> settles (decodeListSlice typ m)"
  unfolding decodeListSlice_def by (rule settles_list) (auto intro!: closes_intros closes_after)

lemma settles_array: "(\<And>s. steady False m s) \<Longrightarrow> settles (decodeListArray typ n m)"
  unfolding decodeListArray_def by (rule settles_list) (auto intro!: closes_intros closes_after)

lemma settles_struct: "(\<And>s. steady False m s) \<Longrightarrow> settles (decodeStruct typ m)"
  unfolding decodeStruct_def by (rule settles_list) (auto intro!: closes_intros closes_after)

lemma settles_return: "settles m \<Longrightarrow> settles (dbind m (\<lambda>v. dreturn (h v)))"
  by (rule settles_map) (auto simp: dreturn_def)

lemma settles_after_Kind:
  assumes "\<And>x. settles (g x)"
  shows "settles (dbind Kind g)"
  unfolding settles_def
proof (intro allI impI)
  fix s v s'
  assume "dbind Kind g s = (Inr v, s')" and ok: "kinderr s \<noteq> Some OutOfFuel"
  then obtain k sz s1 where K: "Kind s = (Inr (k, sz), s1)" and g: "g (k, sz) s1 = (Inr v, s')"
    by (auto simp: dbind_eq)
  from Kind_cases [OF K ok] settlesD [OF assms g]
  show "skind s' = None \<and> ahead s' < ahead s" by auto
qed

lemma decoder_settles: "\<not> tail ts \<Longrightarrow> \<not> stuck t \<Longrightarrow> settles (decoder f t ts)"
proof (induction f arbitrary: t ts)
  case 0
  then show ?case by (simp add: settles_def dfail_def)
next
  case (Suc f)
  have st: "steady False (decodeSliceElems f t) s" "steady False (decodeArrayElems f n t) s"
    "steady False (decodeFields f styp fs) s" for t s n styp fs
    using decoder_steady by blast+
  show ?case
  proof (cases t)
    case TInterface
    show ?thesis unfolding TInterface decoder.simps
      by (auto intro!: settles_after_Kind settles_return settles_slice settles_Bytes st)
  next
    case (TPtr et)
    have "settles (decoder f et no_tags)" using Suc TPtr by (auto simp: no_tags_def)
    then show ?thesis unfolding TPtr
      by (auto intro!: settles_return settles_optional settles_decoders)
  next
    case TOther
    then show ?thesis by (simp add: settles_def dfail_def)
  qed (use Suc.prems in \<open>auto intro!: settles_decoders settles_return settles_slice settles_array
      settles_struct settles_byte_array st\<close>)
qed


lemma Stream_uint_ahead:
  assumes "Stream_uint n s = (r, s')" "skind s = Some KByte"
  shows "ahead s' \<le> ahead s"
  using assms by (auto simp: Stream_uint_def dbind_eq Kind_def rearm_def ahead_def split: option.split_asm if_split_asm)

lemma decodeByteArray_ahead:
  assumes "decodeByteArray typ n s = (Inr v, s')" "kinderr s \<noteq> Some OutOfFuel"
  shows "ahead s' \<le> ahead s"
proof (cases "n = 1")
  case False
  with settlesD [OF settles_byte_array assms] show ?thesis by simp
next
  case True
  from assms obtain k sz s1 where K: "Kind s = (Inr (k, sz), s1)"
    by (auto simp: decodeByteArray_def dbind_eq)
  from Kind_cases [OF K assms(2)] have k: "skind s1 = Some k" and le: "ahead s1 \<le> ahead s" by auto
  show ?thesis
  proof (cases k)
    case KByte
    with assms True K k le Stream_uint_ahead [of 64 s1] show ?thesis
      by (auto simp: decodeByteArray_def dbind_ok split: prod.split_asm sum.split_asm intro: order_trans)
  next
    case KString
    with assms True K obtain sl where "readFull (of_nat n) s1 = (Inr sl, s')"
      by (auto simp: decodeByteArray_def dbind_eq dfail_def dreturn_def split: if_split_asm)
    from readFull_cases [OF this] le show ?thesis by (auto simp: ahead_def k split: if_split_asm)
  next
    case KList
    with assms K show ?thesis by (simp add: decodeByteArray_def dbind_ok dfail_def)
  qed
qed

lemma decoder_ahead:
  "\<not> tail ts \<Longrightarrow> decoder f t ts s = (Inr v, s') \<Longrightarrow> kinderr s \<noteq> Some OutOfFuel \<Longrightarrow> ahead s' \<le> ahead s"
proof (induction f arbitrary: t ts s v)
  case 0
  then show ?case by (simp add: dfail_def)
next
  case (Suc f)
  show ?case
  proof (cases "stuck t")
    case False
    from settlesD [OF decoder_settles [OF Suc.prems(1) False] Suc.prems(2,3)] show ?thesis by simp
  next
    case True
    then consider (arr) n et where "t = TArray n et" "isByte et" | (ptr) et where "t = TPtr et" "stuck et"
      by (cases t) auto
    then show ?thesis
    proof cases
      case arr
      with Suc.prems show ?thesis by (auto intro: decodeByteArray_ahead)
    next
      case ptr
      have IH: "ahead s' \<le> ahead s1" if "decoder f et no_tags s1 = (Inr v1, s')" "kinderr s1 \<noteq> Some OutOfFuel" for s1 v1
        using Suc.IH [OF _ that] by (simp add: no_tags_def)
      have big: "et \<noteq> TBig" using ptr by auto
      show ?thesis
      proof (cases "nilOK ts")
        case False
        with Suc.prems ptr big show ?thesis by (auto simp: dbind_eq dreturn_def intro: IH)
      next
        case opt: True
        with Suc.prems(2) ptr big obtain k sz s1 where K: "Kind s = (Inr (k, sz), s1)"
          by (auto simp: decodeOptionalPtr_def split: prod.split_asm sum.split_asm)
        from Kind_cases [OF K Suc.prems(3)]
        have k: "skind s1 = Some k" "kinderr s1 = None" and le: "ahead s1 \<le> ahead s" by auto
        have "ahead s' \<le> ahead s1"
          using Suc.prems(2) ptr big opt K k
          by (auto simp: decodeOptionalPtr_def dbind_eq dreturn_def ahead_def rearm_def [symmetric] split: if_split_asm
              dest!: IH) (auto simp: rearm_def)
        with le show ?thesis by simp
      qed
    qed
  qed
qed

text \<open>
  A slice of such elements, \<open>[1]byte\<close> or pointers to it, is the one case in which decoding may not return:
  the element loop ends only when the list is used up. \<open>returning\<close> are the types without such slices.
\<close>

fun returning :: "gotype \<Rightarrow> bool" where
  "returning (TSlice t) \<longleftrightarrow> isByte t \<or> (\<not> stuck t \<and> returning t)"
| "returning (TArray n t) \<longleftrightarrow> isByte t \<or> returning t"
| "returning (TStruct fs) \<longleftrightarrow> list_all (\<lambda>f. returning (snd f)) fs"
| "returning (TPtr t) \<longleftrightarrow> returning t"
| "returning _ \<longleftrightarrow> True"

fun dsize :: "gotype \<Rightarrow> nat" where
  "dsize (TSlice t) = Suc (dsize t)"
| "dsize (TArray n t) = Suc (n + dsize t)"
| "dsize (TStruct fs) = Suc (sum_list (map (\<lambda>f. Suc (dsize (snd f))) fs))"
| "dsize (TPtr t) = Suc (dsize t)"
| "dsize _ = 1"

definition decode_fuel :: "gotype \<Rightarrow> nat \<Rightarrow> nat" where
  "decode_fuel t m = dsize t * (2 * m + 2)"

lemma decode_fuel_mono: "m \<le> n \<Longrightarrow> decode_fuel t m \<le> decode_fuel t n"
  by (simp add: decode_fuel_def)

lemma decode_fuel_simps:
  "decode_fuel (TSlice t) m = 2 * m + 2 + decode_fuel t m"
  "decode_fuel (TArray n t) m = Suc n * (2 * m + 2) + decode_fuel t m"
  "decode_fuel (TPtr t) m = 2 * m + 2 + decode_fuel t m"
  "decode_fuel TInterface m = 2 * m + 2"
  by (simp_all add: decode_fuel_def algebra_simps)

lemma dsize_pos: "0 < dsize t"
  by (cases t) auto

lemma decode_fuel_less: "m < n \<Longrightarrow> decode_fuel t m + 2 \<le> decode_fuel t n"
proof -
  assume "m < n"
  then have "2 * m + 2 + 2 \<le> 2 * n + 2" by simp
  then have "dsize t * (2 * m + 2) + dsize t * 2 \<le> dsize t * (2 * n + 2)"
    by (metis add_mult_distrib2 mult_le_mono2)
  with dsize_pos [of t] show ?thesis unfolding decode_fuel_def by linarith
qed

definition fields_fuel :: "(tags \<times> gotype) list \<Rightarrow> nat \<Rightarrow> nat" where
  "fields_fuel fs m = Suc (sum_list (map (\<lambda>f. Suc (decode_fuel (snd f) m)) fs))"

lemma fields_fuel_mono: "m \<le> n \<Longrightarrow> fields_fuel fs m \<le> fields_fuel fs n"
  by (induction fs) (auto simp: fields_fuel_def intro: add_mono decode_fuel_mono)

lemma decode_fuel_struct: "Suc (fields_fuel fs m) \<le> decode_fuel (TStruct fs) m"
proof -
  have "sum_list (map (\<lambda>f. Suc (decode_fuel (snd f) m)) fs) \<le>
      sum_list (map (\<lambda>f. Suc (dsize (snd f))) fs) * (2 * m + 2)"
    by (induction fs) (auto simp: decode_fuel_def algebra_simps)
  then show ?thesis by (simp add: fields_fuel_def decode_fuel_def)
qed

lemma structFields_ok:
  "structFields styp fs = Inr u \<Longrightarrow>
   case fs of [] \<Rightarrow> True
   | (ts, t) # gs \<Rightarrow> genTypeInfo t = Inr () \<and> structFields styp gs = Inr () \<and> (tail ts \<longrightarrow> gs = [])"
  by (auto simp: parseStructTag_def split: list.splits sum.split_asm if_split_asm)

lemma steady_list_decoders:
  assumes "\<And>s1. kinderr s1 \<noteq> Some OutOfFuel \<Longrightarrow> skind s1 = None \<Longrightarrow> ahead s1 < ahead s \<Longrightarrow> steady x m s1"
  shows "steady x (decodeListSlice typ m) s" "steady x (decodeListArray typ n m) s"
    "steady x (decodeStruct typ m) s"
  unfolding decodeListSlice_def decodeListArray_def decodeStruct_def
  by (rule steady_in_list; intro steady_intros assms; simp)+

lemma elems_fuel:
  assumes IH: "\<And>s. kinderr s \<noteq> Some OutOfFuel \<Longrightarrow> decode_fuel t (ahead s) \<le> f \<Longrightarrow> steady True (decoder f t no_tags) s"
    and IH2: "\<And>s. kinderr s \<noteq> Some OutOfFuel \<Longrightarrow> Suc (decode_fuel t (ahead s)) \<le> f \<Longrightarrow> steady True (decodeSliceElems f t) s"
    and "\<not> stuck t" "Suc (decode_fuel t (ahead s)) \<le> Suc f" "kinderr s \<noteq> Some OutOfFuel"
  shows "steady True (decodeSliceElems (Suc f) t) s"
  unfolding decodeSliceElems.simps
proof (intro steady_loop steady_intros)
  show "steady True (decoder f t no_tags) s" using assms by (intro IH) auto
next
  fix v s1
  assume d: "decoder f t no_tags s = (Inr v, s1)" and ok: "kinderr s1 \<noteq> Some OutOfFuel"
  have "ahead s1 < ahead s"
    using settlesD [OF decoder_settles d] assms(3,5) by (simp add: no_tags_def)
  with decode_fuel_less [of "ahead s1" "ahead s" t] assms(4) ok
  show "steady True (decodeSliceElems f t) s1" by (intro IH2) auto
qed simp


lemma array_fuel:
  assumes IH: "\<And>s. kinderr s \<noteq> Some OutOfFuel \<Longrightarrow> decode_fuel t (ahead s) \<le> f \<Longrightarrow> steady True (decoder f t no_tags) s"
    and IH2: "\<And>s n. kinderr s \<noteq> Some OutOfFuel \<Longrightarrow> Suc (n + decode_fuel t (ahead s)) \<le> f \<Longrightarrow>
      steady True (decodeArrayElems f n t) s"
    and "Suc (n + decode_fuel t (ahead s)) \<le> Suc f" "kinderr s \<noteq> Some OutOfFuel"
  shows "steady True (decodeArrayElems (Suc f) n t) s"
proof (cases n)
  case 0
  then show ?thesis by (simp add: steady_dreturn)
next
  case (Suc k)
  show ?thesis unfolding Suc decodeArrayElems.simps
  proof (intro steady_loop steady_intros)
    show "steady True (decoder f t no_tags) s" using assms by (intro IH) auto
  next
    fix v s1
    assume d: "decoder f t no_tags s = (Inr v, s1)" and ok: "kinderr s1 \<noteq> Some OutOfFuel"
    have "ahead s1 \<le> ahead s" using decoder_ahead [OF _ d] assms(4) by (simp add: no_tags_def)
    with decode_fuel_mono [of "ahead s1" "ahead s" t] assms(3) ok Suc
    show "steady True (decodeArrayElems f k t) s1" by (intro IH2) auto
  qed simp
qed

lemma fields_fuel_enough:
  assumes IH: "\<And>s. kinderr s \<noteq> Some OutOfFuel \<Longrightarrow> decode_fuel t (ahead s) \<le> f \<Longrightarrow> steady True (decoder f t ts) s"
    and IH2: "\<And>s. kinderr s \<noteq> Some OutOfFuel \<Longrightarrow> fields_fuel fs (ahead s) \<le> f \<Longrightarrow>
      steady True (decodeFields f styp fs) s"
    and "fields_fuel ((ts, t) # fs) (ahead s) \<le> Suc f" "kinderr s \<noteq> Some OutOfFuel" "tail ts \<Longrightarrow> fs = []"
  shows "steady True (decodeFields (Suc f) styp ((ts, t) # fs)) s"
  unfolding decodeFields.simps
proof (intro steady_loop steady_intros)
  show "steady True (decoder f t ts) s" using assms by (intro IH) (auto simp: fields_fuel_def)
next
  fix v s1
  assume d: "decoder f t ts s = (Inr v, s1)" and ok: "kinderr s1 \<noteq> Some OutOfFuel"
  have "fields_fuel fs (ahead s1) \<le> fields_fuel fs (ahead s)"
  proof (cases "tail ts")
    case True
    then show ?thesis using assms(5) by (simp add: fields_fuel_def)
  next
    case False
    from decoder_ahead [OF this d assms(4)] show ?thesis by (rule fields_fuel_mono)
  qed
  then show "steady True (decodeFields f styp fs) s1"
    using assms(3) ok by (intro IH2) (auto simp: fields_fuel_def)
qed simp

lemma decoder_fuel:
  "(returning t \<longrightarrow> genTypeInfo t = Inr () \<longrightarrow> kinderr s \<noteq> Some OutOfFuel \<longrightarrow> decode_fuel t (ahead s) \<le> f \<longrightarrow>
      steady True (decoder f t ts) s) \<and>
   (\<not> stuck t \<longrightarrow> returning t \<longrightarrow> genTypeInfo t = Inr () \<longrightarrow> kinderr s \<noteq> Some OutOfFuel \<longrightarrow>
      Suc (decode_fuel t (ahead s)) \<le> f \<longrightarrow> steady True (decodeSliceElems f t) s) \<and>
   (returning t \<longrightarrow> genTypeInfo t = Inr () \<longrightarrow> kinderr s \<noteq> Some OutOfFuel \<longrightarrow>
      Suc (n + decode_fuel t (ahead s)) \<le> f \<longrightarrow> steady True (decodeArrayElems f n t) s) \<and>
   (list_all (\<lambda>f. returning (snd f)) fs \<longrightarrow> structFields styp fs = Inr () \<longrightarrow> kinderr s \<noteq> Some OutOfFuel \<longrightarrow>
      fields_fuel fs (ahead s) \<le> f \<longrightarrow> steady True (decodeFields f styp fs) s)"
  (is "?D f t ts s \<and> ?E f t s \<and> ?A f n t s \<and> ?F f styp fs s")
proof (induction f arbitrary: t ts n styp fs s)
  case 0
  have "\<not> fields_fuel fs m \<le> 0" "\<not> decode_fuel t m \<le> 0" for fs t m
    by (simp_all add: fields_fuel_def decode_fuel_def dsize_pos)
  then show ?case by (metis Suc_n_not_le_n le0 le_trans not_less_eq_eq)
next
  case (Suc f)
  then have D: "?D f t ts s" and E: "?E f t s" and A: "?A f n t s" and F: "?F f styp fs s"
    for t ts n styp fs s by blast+
  have "?D (Suc f) t ts s"
  proof (cases t)
    case TInterface
    show ?thesis unfolding TInterface decoder.simps
    proof (intro impI steady_intros steady_values steady_list_decoders)
      fix p s1 s2
      assume K: "Kind s = (Inr p, s1)" and fuel: "decode_fuel TInterface (ahead s) \<le> Suc f"
        and ok: "kinderr s \<noteq> Some OutOfFuel" "kinderr s2 \<noteq> Some OutOfFuel" and "ahead s2 < ahead s1"
      moreover have "ahead s1 \<le> ahead s" using Kind_cases [OF K ok(1)] by (cases p) simp
      ultimately show "steady True (decodeSliceElems f TInterface) s2"
        by (intro E [rule_format]) (auto simp: decode_fuel_simps)
    qed
  next
    case (TSlice et)
    then show ?thesis unfolding decoder.simps
      by (auto intro!: steady_intros steady_decoders steady_list_decoders E [rule_format] simp: decode_fuel_simps
          dest!: decode_fuel_less [of _ _ et])
  next
    case (TArray k et)
    then show ?thesis unfolding decoder.simps
      by (auto intro!: steady_intros steady_decoders steady_list_decoders A [rule_format] simp: decode_fuel_simps
          dest!: decode_fuel_less [of _ _ et])
  next
    case (TStruct gs)
    show ?thesis unfolding TStruct decoder.simps
    proof (intro impI steady_intros steady_list_decoders)
      fix s2
      assume "returning (TStruct gs)" "genTypeInfo (TStruct gs) = Inr ()" "kinderr s2 \<noteq> Some OutOfFuel"
        "decode_fuel (TStruct gs) (ahead s) \<le> Suc f" "ahead s2 < ahead s"
      with decode_fuel_struct [of gs "ahead s"] fields_fuel_mono [of "ahead s2" "ahead s" gs]
      show "steady True (decodeFields f (TStruct gs) gs) s2"
        by (intro F [rule_format]) auto
    qed
  next
    case (TPtr et)
    show ?thesis unfolding TPtr decoder.simps
    proof (intro impI steady_intros steady_decoders steady_optional)
      fix s1
      assume "returning (TPtr et)" "genTypeInfo (TPtr et) = Inr ()" "kinderr s1 \<noteq> Some OutOfFuel"
        "decode_fuel (TPtr et) (ahead s) \<le> Suc f" "ahead s1 \<le> ahead s"
      with decode_fuel_mono [of "ahead s1" "ahead s" et]
      show "steady True (decoder f et no_tags) s1"
        by (intro D [rule_format]) (auto simp: decode_fuel_simps)
    next
      assume "returning (TPtr et)" "genTypeInfo (TPtr et) = Inr ()" "kinderr s \<noteq> Some OutOfFuel"
        "decode_fuel (TPtr et) (ahead s) \<le> Suc f"
      then show "steady True (decoder f et no_tags) s"
        by (intro D [rule_format]) (auto simp: decode_fuel_simps)
    qed
  qed (auto intro: steady_decoders)
  moreover have "?E (Suc f) t s"
    using D [of t _ no_tags] E [of t] by (intro impI elems_fuel) auto
  moreover have "?A (Suc f) n t s"
    using D [of t _ no_tags] A [of t] by (intro impI array_fuel) auto
  moreover have "?F (Suc f) styp fs s"
  proof (cases fs)
    case Nil
    then show ?thesis by (simp add: steady_dreturn)
  next
    case (Cons g gs)
    obtain gts gt where g: "g = (gts, gt)" by fastforce
    show ?thesis unfolding Cons g
      using D [of gt _ gts] F [of gs styp] structFields_ok [of styp "g # gs" "()"]
      by (intro impI fields_fuel_enough) (auto simp: g)
  qed
  ultimately show ?case by blast
qed


lemma genTypeInfo_no_fuel:
  "genTypeInfo t = Inl e \<Longrightarrow> e \<noteq> OutOfFuel" "structFields styp fs = Inl e \<Longrightarrow> e \<noteq> OutOfFuel"
  by (induction t and styp fs rule: genTypeInfo_structFields.induct)
    (auto simp: parseStructTag_def split: if_split_asm sum.split_asm)

text \<open>
  C20. Decoding terminates on every input, well-formed or hostile: for every type in which no slice, at
  any depth, has elements of type \<open>[1]byte\<close> or of a pointer type that leads to \<open>[1]byte\<close> through one or more
  pointers (the predicate \<open>returning\<close>), \<open>DecodeBytes\<close> returns a value or one of the code's errors within a
  number of decoder calls linear in the length of the input.
\<close>

theorem DecodeBytes_terminates:
  assumes "returning t" "decode_fuel t (length b) \<le> f"
  shows "DecodeBytes f b t \<noteq> Inl OutOfFuel"
proof (cases "genTypeInfo t")
  case (Inl e)
  then show ?thesis
    using genTypeInfo_no_fuel(1) [of t e] by (auto simp: DecodeBytes_def Stream_Decode_def dfail_def)
next
  case (Inr u)
  define s where "s = NewStream b True (of_nat (length b))"
  have s: "kinderr s \<noteq> Some OutOfFuel" "ahead s = length b"
    by (simp_all add: s_def NewStream_def Reset_def ahead_def)
  obtain r s' where d: "decoder f t no_tags s = (r, s')" by fastforce
  have "steady True (decoder f t no_tags) s"
    using decoder_fuel [of t s f no_tags] assms s Inr by simp
  from steadyD [OF this d s(1)] d Inr show ?thesis
    by (auto simp: DecodeBytes_def Stream_Decode_def s_def split: sum.split)
qed

theorem DecodeBytes_terminates_witness:
  "DecodeBytes 24 [0xC2, 0x01, 0x02] (TSlice (TUint 64)) \<noteq> Inl OutOfFuel"
  using DecodeBytes_terminates [of "TSlice (TUint 64)" "[0xC2, 0x01, 0x02]" 24]
  by (simp add: decode_fuel_def isByte_def)

text \<open>On the byte 0, the decoder of such a type succeeds and leaves the byte where it is.\<close>

lemma stuck_decoder:
  assumes "stuck t" "\<And>k. decoder (Suc k) (TArray 1 (TUint 8)) no_tags s = (Inr (GBytes [0]), s')"
  shows "(\<exists>v. decoder f t no_tags s = (Inr v, s')) \<or> fst (decoder f t no_tags s) = Inl OutOfFuel"
  using assms(1)
proof (induction t arbitrary: f rule: stuck.induct)
  case (1 n t)
  then have "TArray n t = TArray 1 (TUint 8)" by (auto simp: isByte_def)
  then show ?case using assms(2) by (cases f) (auto simp: dfail_def)
next
  case (2 t)
  have "t \<noteq> TBig" using 2(2) by auto
  then show ?case using 2(1) [of "f - 1"] 2(2) by (cases f) (auto simp: dfail_def dbind_def dreturn_def no_tags_def split: prod.splits sum.splits)
qed auto

lemma byte_array_stuck:
  assumes "stuck t" "skind s = Some KByte" "kinderr s = None" "byteval s = 0"
  shows "fst (decodeSliceElems f t s) = Inl OutOfFuel"
proof (induction f)
  case (Suc f)
  have "decoder (Suc k) (TArray 1 (TUint 8)) no_tags s = (Inr (GBytes [0]), s)" for k
    using assms by (simp add: isByte_def decodeByteArray_def dbind_def Kind_def Stream_uint_def)
  from stuck_decoder [OF assms(1) this, of f] Suc show ?case
    by (auto simp: dfail_def dbind_def split: prod.splits sum.splits)
qed (simp add: dfail_def)

text \<open>
  C24. The condition on slices is sharp: whatever the element type among \<open>[1]byte\<close>, \<open>*[1]byte\<close>,
  \<open>**[1]byte\<close> and so on, on the two bytes \<open>C1 00\<close>, the canonical encoding of a list with the one element \<open>00\<close>,
  the decoder of the slice never returns. \<open>decodeByteArray\<close> drops the error of \<open>s.Uint\<close> and reports success
  without having consumed the byte, so the element loop appends zero elements for ever.
\<close>

theorem DecodeBytes_byte_arrays_diverges:
  assumes "stuck t"
  shows "DecodeBytes f [0xC1, 0x00] (TSlice t) = Inl OutOfFuel"
proof -
  define s where "s = \<lparr>input = [], remaining = 0, limited = True, skind = Some KByte, ssize = 0,
    byteval = 0, kinderr = None, stack = [\<lparr>pos = 1, lpsize = 1\<rparr>]\<rparr>"
  define s0 where "s0 = \<lparr>input = [0], remaining = 1, limited = True, skind = None, ssize = 0,
    byteval = 0, kinderr = None, stack = [\<lparr>pos = 0, lpsize = 1\<rparr>]\<rparr>"
  have first: "decoder (Suc k) (TArray 1 (TUint 8)) no_tags s0 = (Inr (GBytes [0]), s)" for k
    by (simp add: isByte_def decodeByteArray_def dbind_def Kind_def Stream_uint_def s0_def s_def
        at_end_def readKindS_def readByte_def willRead_def size_check_def)
  have elems: "fst (decodeSliceElems k t s0) = Inl OutOfFuel" for k
  proof (cases k)
    case (Suc j)
    have "fst (decodeSliceElems j t s) = Inl OutOfFuel"
      by (rule byte_array_stuck [OF assms]) (simp_all add: s_def)
    with Suc stuck_decoder [OF assms first, of j] show ?thesis
      by (auto simp: dfail_def dbind_def split: prod.splits sum.splits)
  qed (simp add: dfail_def)
  have list: "Stream_List (NewStream [0xC1, 0] True 2) = (Inr 1, s0)"
    by (simp add: Stream_List_def dbind_def Kind_def s0_def NewStream_def Reset_def
        at_end_def readKindS_def readByte_def willRead_def size_check_def)
  have ty: "\<not> isByte t" "genTypeInfo t = Inr ()" using assms by (induction t rule: stuck.induct) (auto simp: isByte_def)
  show ?thesis
  proof (cases f)
    case (Suc k)
    with list elems [of k] ty show ?thesis
      by (auto simp: DecodeBytes_def Stream_Decode_def decodeListSlice_def dmap_err_def dbind_def no_tags_def
          split: prod.splits sum.splits)
  qed (simp add: DecodeBytes_def Stream_Decode_def dfail_def ty)
qed

theorem DecodeBytes_byte_arrays_diverges_witness:
  "DecodeBytes 60 [0xC1, 0x00] (TSlice (TArray 1 (TUint 8))) = Inl OutOfFuel \<and>
   DecodeBytes 60 [0xC1, 0x00] (TSlice (TPtr (TArray 1 (TUint 8)))) = Inl OutOfFuel"
  using DecodeBytes_byte_arrays_diverges [of "TArray 1 (TUint 8)" 60]
    DecodeBytes_byte_arrays_diverges [of "TPtr (TArray 1 (TUint 8))" 60]
  by (simp add: isByte_def)

end
