(* ===== verification/Rlp_Roundtrip.thy ===== *)
theory Rlp_Roundtrip
  imports Rlp_Decode
begin

text \<open>
  The decoder of \<open>Rlp_Decode\<close> inverts the encoder of \<open>Rlp_Encode\<close>: what the stream operations
  return in front of an encoded value, and the round trip for values of every serializable type.
\<close>

section \<open>Reading in front of an encoded value\<close>

text \<open>
  \<open>room n s\<close>: the next \<open>n\<close> bytes are there and within the input limit and the innermost list.
  \<open>moved n s s'\<close>: \<open>s'\<close> is \<open>n\<close> bytes further on.
\<close>

definition room :: "nat \<Rightarrow> stream \<Rightarrow> bool" where
  "room n s \<longleftrightarrow> n \<le> length (input s) \<and> n < 2 ^ 64 \<and> (limited s \<longrightarrow> n \<le> unat (remaining s)) \<and>
     (case stack s of [] \<Rightarrow> True | p # _ \<Rightarrow> unat (pos p) + n \<le> unat (lpsize p))"

definition adv_stack :: "nat \<Rightarrow> listpos list \<Rightarrow> listpos list" where
  "adv_stack n st = (case st of [] \<Rightarrow> [] | p # ps \<Rightarrow> p\<lparr>pos := pos p + of_nat n\<rparr> # ps)"

definition moved :: "nat \<Rightarrow> stream \<Rightarrow> stream \<Rightarrow> bool" where
  "moved n s s' \<longleftrightarrow> input s' = drop n (input s) \<and> limited s' = limited s \<and>
     (limited s \<longrightarrow> remaining s' = remaining s - of_nat n) \<and> stack s' = adv_stack n (stack s)"

lemma adv_stack_add: "adv_stack n (adv_stack m st) = adv_stack (m + n) st"
  by (simp add: adv_stack_def add.assoc split: list.split)

lemma adv_stack_0 [simp]: "adv_stack 0 st = st"
  by (simp add: adv_stack_def split: list.split)

lemma moved_trans: "moved m s s1 \<Longrightarrow> moved n s1 s2 \<Longrightarrow> moved (m + n) s s2"
  by (auto simp: moved_def adv_stack_add add.commute diff_diff_eq)

lemma moved_0: "moved 0 s s"
  by (simp add: moved_def)

lemma room_le: "room n s \<Longrightarrow> m \<le> n \<Longrightarrow> room m s"
  by (auto simp: room_def split: list.split_asm)

lemma unat_minus_of_nat:
  "n \<le> unat (r :: uint64) \<Longrightarrow> unat (r - of_nat n) = unat r - n"
proof -
  assume le: "n \<le> unat r"
  then have "n < 2 ^ 64" by (rule le_less_trans) simp
  then have "unat (of_nat n :: uint64) = n" by simp
  with le show ?thesis by (simp add: unat_sub word_le_unat)
qed

lemma unat_plus_of_nat:
  "unat (p :: uint64) + n \<le> unat (q :: uint64) \<Longrightarrow> unat (p + of_nat n) = unat p + n"
proof -
  assume le: "unat p + n \<le> unat q"
  then have "unat p + n < 2 ^ 64" by (rule le_less_trans) simp
  then have "unat (of_nat n :: uint64) = n" "(unat p + n) mod 2 ^ 64 = unat p + n" by simp_all
  then show ?thesis by (simp add: unat_word_ariths)
qed

lemma room_moved:
  assumes r: "room (m + n) s" and m: "moved m s s'"
  shows "room n s'"
proof -
  have "case stack s' of [] \<Rightarrow> True | p # _ \<Rightarrow> unat (pos p) + n \<le> unat (lpsize p)"
  proof (cases "stack s")
    case (Cons p ps)
    then have "unat (pos p) + m + n \<le> unat (lpsize p)" using r by (simp add: room_def)
    moreover from this have "unat (pos p + of_nat m) = unat (pos p) + m"
      by (intro unat_plus_of_nat [where q = "lpsize p"]) simp
    ultimately show ?thesis using m Cons by (simp add: moved_def adv_stack_def)
  qed (use m in \<open>simp add: moved_def adv_stack_def\<close>)
  moreover have "n \<le> unat (remaining s')" if "limited s'"
    using that r m by (auto simp: room_def moved_def unat_minus_of_nat)
  ultimately show ?thesis using r m by (auto simp: room_def moved_def)
qed

lemma willRead_room:
  assumes "room n s"
  shows "willRead (of_nat n) s = (Inr (), s\<lparr>skind := None, stack := adv_stack n (stack s),
    remaining := (if limited s then remaining s - of_nat n else remaining s)\<rparr>)"
proof -
  have n: "unat (of_nat n :: uint64) = n" using assms by (simp add: room_def)
  have rem: "\<not> of_nat n > remaining s" if "limited s" using that assms n by (simp add: room_def word_less_unat)
  show ?thesis
  proof (cases "stack s")
    case Nil
    with rem show ?thesis by (simp add: willRead_def adv_stack_def)
  next
    case (Cons p ps)
    then have le: "unat (pos p) + n \<le> unat (lpsize p)" using assms by (simp add: room_def)
    then have "\<not> of_nat n > lpsize p - pos p" using n by (simp add: word_less_unat unat_sub word_le_unat)
    with rem Cons show ?thesis by (simp add: willRead_def adv_stack_def)
  qed
qed

lemma readFull_room:
  assumes "room n s"
  obtains s' where "readFull (of_nat n) s = (Inr (take n (input s)), s')" "moved n s s'" "skind s' = None"
    "byteval s' = byteval s"
proof -
  have "n \<le> length (input s)" "unat (of_nat n :: uint64) = n" using assms by (simp_all add: room_def)
  then show thesis
    using that by (auto simp: readFull_def dbind_def willRead_room [OF assms] moved_def)
qed

lemma readByte_room:
  assumes "room 1 s" "input s = b # bs"
  obtains s' where "readByte s = (Inr b, s')" "moved 1 s s'" "skind s' = None"
    "byteval s' = byteval s"
  using that assms(2) willRead_room [OF assms(1)]
  by (auto simp: readByte_def dbind_def moved_def)

lemma readUint_putint:
  assumes "input s = putint i @ rest" "room (length (putint i)) s" "i \<noteq> 0"
  obtains s' where "readUint (length (putint i)) s = (Inr i, s')" "moved (length (putint i)) s s'"
    "skind s' = None" "byteval s' = byteval s"
proof -
  have hd: "hd (putint i) \<noteq> 0" using assms(3) by (simp add: putint_nat_bytes hd_nat_bytes unat_gt_0)
  have len: "putint i \<noteq> []" "length (putint i) \<le> 8" using length_putint [of i] by auto
  have w: "be_word (putint i) = i"
    by (rule word_unat_eq_iff [THEN iffD2]) (simp add: unat_be_word len be_val_putint)
  show thesis
  proof (cases "length (putint i) = 1")
    case True
    then obtain b where b: "putint i = [b]" by (auto simp: length_Suc_conv)
    then have i: "i = ucast b" using w by (simp add: be_word_def)
    from assms b obtain s' where "readByte s = (Inr b, s')" "moved 1 s s'" "skind s' = None"
      "byteval s' = byteval s"
      using readByte_room [of s b rest] by auto
    then show ?thesis
      using that [of s'] by (simp add: readUint_def dbind_def dreturn_def b i [symmetric])
  next
    case False
    from assms(2) obtain s' where "readFull (of_nat (length (putint i))) s = (Inr (putint i), s')"
      "moved (length (putint i)) s s'" "skind s' = None" "byteval s' = byteval s"
      using assms(1) by (rule_tac readFull_room) auto
    then show ?thesis
      using that [of s'] False w hd len by (auto simp: readUint_def dbind_def dreturn_def hd_conv_nth)
  qed
qed


subsection \<open>The kind ahead\<close>

text \<open>The header of a value and what \<open>Kind\<close> returns for it.\<close>

definition hlen :: "kind \<Rightarrow> bytes \<Rightarrow> nat" where
  "hlen k content = (if k = KByte then 1 else length (reencode k content) - length content)"

definition ksize :: "kind \<Rightarrow> bytes \<Rightarrow> uint64" where
  "ksize k content = (if k = KByte then 0 else of_nat (length content))"

definition at_value :: "kind \<Rightarrow> bytes \<Rightarrow> bytes \<Rightarrow> stream \<Rightarrow> bool" where
  \<comment> \<open>in front of the encoding of a value of kind \<open>k\<close>\<close>
  "at_value k content rest s \<longleftrightarrow> kind_of k content \<and> skind s = None \<and>
     input s = reencode k content @ rest \<and> room (length (reencode k content)) s"

lemma readKindS_small:
  assumes "input s = b # bs" "room 1 s"
    "(k, tag) \<in> {(KString, 128), (KList, 192)}" "unat b = tag + n" "n < 56"
  obtains s' where "readKindS s = ((k, of_nat n, None), s')" "moved 1 s s'"
proof -
  from assms obtain s1 where s1: "readByte s = (Inr b, s1)" "moved 1 s s1" using readByte_room by blast
  have "ucast (b - 0x80) = (of_nat n :: uint64)" if "unat b = 128 + n"
    using that by (intro ucast_byte_eqI unat_sub_tag) simp
  moreover have "ucast (b - 0xC0) = (of_nat n :: uint64)" if "unat b = 192 + n"
    using that by (intro ucast_byte_eqI unat_sub_tag) simp
  ultimately have "readKindS s = ((k, of_nat n, None), s1\<lparr>byteval := 0\<rparr>)"
    using assms(3-5) by (auto simp: readKindS_def s1 word_less_unat)
  with s1(2) show thesis by (intro that [of "s1\<lparr>byteval := 0\<rparr>"]) (simp_all add: moved_def)
qed

lemma readKindS_large:
  assumes "input s = b # putint sz @ bs" "room (Suc (length (putint sz))) s"
    "(k, tag) \<in> {(KString, 183), (KList, 247)}" "unat b = tag + length (putint sz)" "56 \<le> sz"
  obtains s' where "readKindS s = ((k, sz, None), s')" "moved (Suc (length (putint sz))) s s'"
proof -
  have r1: "room 1 s" using assms(2) by (rule room_le) simp
  from readByte_room [OF r1 assms(1)] obtain s1 where s1: "readByte s = (Inr b, s1)" "moved 1 s s1" by metis
  define s2 where "s2 = s1\<lparr>byteval := 0\<rparr>"
  have m2: "moved 1 s s2" using s1(2) by (simp add: s2_def moved_def)
  have "input s2 = putint sz @ bs" using m2 assms(1) by (simp add: moved_def)
  moreover have "room (length (putint sz)) s2" by (rule room_moved [OF _ m2]) (simp add: assms(2))
  moreover have "sz \<noteq> 0" using assms(5) by auto
  ultimately obtain s3 where s3: "readUint (length (putint sz)) s2 = (Inr sz, s3)"
    "moved (length (putint sz)) s2 s3" by (rule readUint_putint)
  have l: "1 \<le> length (putint sz)" "length (putint sz) \<le> 8" using length_putint [of sz] by (simp_all add: Suc_le_eq)
  have sub: "unat (b - 0xB7) = length (putint sz)" if "unat b = 183 + length (putint sz)"
    using that by (intro unat_sub_tag) simp
  have sub2: "unat (b - 0xF7) = length (putint sz)" if "unat b = 247 + length (putint sz)"
    using that by (intro unat_sub_tag) simp
  have "readKindS s = ((k, sz, None), s3)"
  proof (cases "k = KString")
    case True
    then have b: "unat b = 183 + length (putint sz)" using assms(3,4) by auto
    with l have "\<not> b < 0x80" "\<not> b < 0xB8" "b < 0xC0" by (auto simp: word_less_unat)
    then show ?thesis
      using s3(1) assms(5) True unfolding readKindS_def s1 by (simp add: s2_def [symmetric] sub [OF b] not_le)
  next
    case False
    then have b: "unat b = 247 + length (putint sz)" and k: "k = KList" using assms(3,4) by auto
    with l have "\<not> b < 0x80" "\<not> b < 0xB8" "\<not> b < 0xC0" "\<not> b < 0xF8" by (auto simp: word_less_unat)
    then show ?thesis
      using s3(1) assms(5) k unfolding readKindS_def s1 by (simp add: s2_def [symmetric] sub2 [OF b] not_le)
  qed
  with moved_trans [OF m2 s3(2)] show thesis by (intro that) auto
qed


lemma readKindS_byte:
  assumes "input s = b # bs" "room 1 s" "b < 0x80"
  obtains s' where "readKindS s = ((KByte, 0, None), s')" "moved 1 s s'" "byteval s' = b"
proof -
  from readByte_room [OF assms(2,1)] obtain s1 where s1: "readByte s = (Inr b, s1)" "moved 1 s s1" by metis
  with assms(3) show thesis
    by (intro that [of "s1\<lparr>byteval := b\<rparr>"]) (auto simp: readKindS_def moved_def)
qed

lemma readKindS_value:
  assumes "kind_of k content" "input s = reencode k content @ rest" "room (length (reencode k content)) s"
  obtains s' where "readKindS s = ((k, ksize k content, None), s')" "moved (hlen k content) s s'"
    "k = KByte \<longrightarrow> byteval s' = hd content"
proof (cases "k = KByte")
  case True
  then obtain b where b: "content = [b]" "b < 0x80"
    using assms(1) by (auto simp: kind_of_def length_Suc_conv)
  with True assms(2,3) have "input s = b # rest" "room 1 s" by (simp_all add: reencode_def rlp_str_def)
  from readKindS_byte [OF this b(2)] obtain s' where
    "readKindS s = ((KByte, 0, None), s')" "moved 1 s s'" "byteval s' = b" by metis
  with True b show thesis by (intro that) (simp_all add: ksize_def hlen_def)
next
  case False
  define n where "n = length content"
  obtain st lt where tags: "(k, st, lt) \<in> {(KString, 0x80 :: byte, 0xB7 :: byte), (KList, 0xC0, 0xF7)}"
    and enc: "reencode k content = puthead st lt (of_nat n) @ content"
    using False assms(1) by (cases k) (auto simp: reencode_def rlp_str_def rlp_lst_def kind_of_def n_def)
  have hl: "hlen k content = length (puthead st lt (of_nat n))" using False by (simp add: hlen_def enc)
  have n64: "n < 2 ^ 64" using assms(3) by (simp add: room_def enc n_def)
  show thesis
  proof (cases "n < 56")
    case True
    then have "input s = (st + of_nat n) # content @ rest" "room 1 s"
      using assms(2,3) by (auto simp: enc puthead_small intro: room_le)
    moreover have "(k, unat st) \<in> {(KString, 128), (KList, 192)}" "unat (st + of_nat n) = unat st + n"
      using tags True by (auto simp: unat_byte_add)
    ultimately obtain s' where "readKindS s = ((k, of_nat n, None), s')" "moved 1 s s'"
      using True by (rule readKindS_small)
    with False True hl show ?thesis by (intro that) (simp_all add: ksize_def n_def puthead_small)
  next
    case large: False
    then have p: "puthead st lt (of_nat n) = (lt + of_nat (length (putint (of_nat n)))) # putint (of_nat n)"
      using n64 by (simp add: puthead_large)
    have i: "input s = (lt + of_nat (length (putint (of_nat n)))) # putint (of_nat n) @ content @ rest"
      using assms(2) by (simp add: enc p)
    have r: "room (Suc (length (putint (of_nat n)))) s" using assms(3) by (rule room_le) (simp add: enc p)
    have t: "(k, unat lt) \<in> {(KString, 183), (KList, 247)}" using tags by auto
    have b: "unat (lt + of_nat (length (putint (of_nat n)))) = unat lt + length (putint (of_nat n))"
      using tags length_putint(1) [of "of_nat n"] by (auto simp: unat_byte_add)
    have "56 \<le> (of_nat n :: uint64)" using n64 large by (simp add: word_le_unat)
    from readKindS_large [OF i r t b this] obtain s' where "readKindS s = ((k, of_nat n, None), s')"
      "moved (Suc (length (putint (of_nat n)))) s s'" by metis
    with False p hl show ?thesis by (intro that) (simp_all add: ksize_def n_def)
  qed
qed


definition body :: "kind \<Rightarrow> bytes \<Rightarrow> bytes" where
  \<comment> \<open>what follows the header\<close>
  "body k content = (if k = KByte then [] else content)"

lemma reencode_length: "kind_of k content \<Longrightarrow> length (reencode k content) = hlen k content + length (body k content)"
  by (cases k) (auto simp: hlen_def body_def reencode_def rlp_str_def rlp_lst_def kind_of_def)

lemma drop_hlen: "kind_of k content \<Longrightarrow> drop (hlen k content) (reencode k content @ rest) = body k content @ rest"
  by (cases k) (auto simp: hlen_def body_def reencode_def rlp_str_def rlp_lst_def kind_of_def length_Suc_conv)

lemma Kind_value:
  assumes "at_value k content rest s"
  obtains s1 where "Kind s = (Inr (k, ksize k content), s1)" "moved (hlen k content) s s1"
    "k = KByte \<longrightarrow> byteval s1 = hd content" "input s1 = body k content @ rest"
    "room (length (body k content)) s1"
proof -
  define s0 where "s0 = s\<lparr>kinderr := None\<rparr>"
  from assms have kind: "kind_of k content" and inp: "input s0 = reencode k content @ rest"
    and rm: "room (length (reencode k content)) s0" and none: "skind s = None"
    by (simp_all add: at_value_def s0_def room_def)
  from readKindS_value [OF kind inp rm] obtain s' where rk: "readKindS s0 = ((k, ksize k content, None), s')"
    and m: "moved (hlen k content) s0 s'" and bv: "k = KByte \<longrightarrow> byteval s' = hd content" by metis
  have r: "room (length (body k content)) s'"
    using rm by (intro room_moved [OF _ m]) (simp add: reencode_length kind)
  have "0 < hlen k content" using kind
    by (cases k) (auto simp: hlen_def reencode_def rlp_str_def rlp_lst_def kind_of_def puthead_def Let_def)
  then have e: "\<not> at_end s0"
    using rm by (auto simp: at_end_def room_def reencode_length kind split: list.split_asm)
  have "unat (ksize k content) \<le> length (body k content)"
    using r by (cases "k = KByte") (simp_all add: ksize_def body_def room_def)
  with r have c: "size_check (ksize k content) s' = None"
    by (auto simp: size_check_def room_def word_less_unat word_le_unat unat_sub split: list.split_asm list.split)
  define s1 where "s1 = s'\<lparr>skind := Some k, ssize := ksize k content, kinderr := None\<rparr>"
  have "Kind s = (Inr (k, ksize k content), s1)"
    unfolding Kind_def by (simp add: none s0_def [symmetric] e rk c s1_def)
  moreover have "moved (hlen k content) s s1" using m by (simp add: moved_def s0_def s1_def)
  moreover have "input s1 = body k content @ rest"
    using m inp by (simp add: s1_def moved_def drop_hlen kind del: drop_append)
  ultimately show thesis
    using that [of s1] r bv by (simp add: s1_def room_def)
qed

text \<open>Reading a value moves past it.\<close>

definition past :: "kind \<Rightarrow> bytes \<Rightarrow> stream \<Rightarrow> stream \<Rightarrow> bool" where
  "past k content s s' \<longleftrightarrow> moved (length (reencode k content)) s s' \<and> skind s' = None"

lemma pastI:
  "kind_of k content \<Longrightarrow> moved (hlen k content) s s1 \<Longrightarrow> moved (length (body k content)) s1 s2 \<Longrightarrow>
   skind s2 = None \<Longrightarrow> past k content s s2"
  by (simp add: past_def reencode_length moved_trans)

lemma moved_rearm: "moved 0 s (rearm s)"
  by (simp add: moved_def rearm_def)

lemma rearm_None [simp]: "skind (rearm s) = None"
  by (simp add: rearm_def)

lemma not_single:
  assumes "kind_of KString content" "length content < 2 ^ 64"
  shows "\<not> ((of_nat (length content) :: uint64) = 1 \<and> content ! 0 < 128)"
proof
  assume a: "(of_nat (length content) :: uint64) = 1 \<and> content ! 0 < 128"
  then have "length content = 1" using unat_uint64_eq_1 [OF assms(2)] by blast
  with a assms(1) show False by (cases content) (auto simp: kind_of_def)
qed

lemma KByte_content: "kind_of KByte content \<Longrightarrow> content = [hd content] \<and> hd content < 0x80"
  by (auto simp: kind_of_def length_Suc_conv)

lemma Bytes_value:
  assumes "at_value k content rest s" "k \<noteq> KList"
  obtains s' where "Stream_Bytes s = (Inr content, s')" "past k content s s'"
proof -
  have kind: "kind_of k content" using assms(1) by (simp add: at_value_def)
  from Kind_value [OF assms(1)] obtain s1 where K: "Kind s = (Inr (k, ksize k content), s1)"
    and m: "moved (hlen k content) s s1" and bv: "k = KByte \<longrightarrow> byteval s1 = hd content"
    and i: "input s1 = body k content @ rest" and r: "room (length (body k content)) s1" by metis
  show thesis
  proof (cases "k = KByte")
    case True
    then have "Stream_Bytes s = (Inr content, rearm s1)"
      using K bv KByte_content [of content] kind by (simp add: Stream_Bytes_def dbind_def)
    moreover have "past k content s (rearm s1)"
      using True moved_rearm by (intro pastI [OF kind m]) (simp_all add: body_def)
    ultimately show thesis by (rule that)
  next
    case False
    then have k: "k = KString" using assms(2) by (cases k) auto
    with r i have "room (length content) s1" "take (length content) (input s1) = content" by (simp_all add: body_def)
    with readFull_room obtain s2 where f: "readFull (of_nat (length content)) s1 = (Inr content, s2)"
      and m2: "moved (length content) s1 s2" "skind s2 = None" by metis
    have "\<not> ((of_nat (length content) :: uint64) = 1 \<and> content ! 0 < 128)"
      using kind k r by (intro not_single) (simp_all add: body_def room_def)
    then have "Stream_Bytes s = (Inr content, s2)"
      using K k f by (auto simp: Stream_Bytes_def dbind_def ksize_def dreturn_def)
    moreover have "past k content s s2" using m2 k by (intro pastI [OF kind m]) (simp_all add: body_def)
    ultimately show thesis by (rule that)
  qed
qed


lemma uint_value:
  assumes at: "at_value k (nat_bytes (unat v)) rest s" and k: "k \<noteq> KList"
    and bits: "length (nat_bytes (unat v)) \<le> n div 8" "n div 8 < 2 ^ 64"
  obtains s' where "Stream_uint n s = (Inr v, s')" "past k (nat_bytes (unat v)) s s'"
proof -
  let ?c = "nat_bytes (unat v)"
  have kind: "kind_of k ?c" using at by (simp add: at_value_def)
  from Kind_value [OF at] obtain s1 where K: "Kind s = (Inr (k, ksize k ?c), s1)"
    and m: "moved (hlen k ?c) s s1" and bv: "k = KByte \<longrightarrow> byteval s1 = hd ?c"
    and i: "input s1 = body k ?c @ rest" and r: "room (length (body k ?c)) s1" by metis
  consider (byte) "k = KByte" | (zero) "k = KString" "v = 0" | (str) "k = KString" "v \<noteq> 0"
    using k by (cases k) auto
  then show thesis
  proof cases
    case byte
    then have c: "?c = [hd ?c]" using KByte_content kind by blast
    then have "unat v = unat (hd ?c)" using be_val_nat_bytes [of "unat v"] by (metis append_Nil be_val_Nil be_val_snoc mult_0 add_0)
    then have v: "v = ucast (hd ?c)" by (intro word_unat_eq_iff [THEN iffD2]) (simp add: ucast_byte_word)
    have "hd ?c \<noteq> 0" using c by (intro hd_nat_bytes) (metis list.distinct(1) nat_bytes_0 gr0I)
    then have "Stream_uint n s = (Inr v, rearm s1)"
      using K bv byte v by (simp add: Stream_uint_def dbind_def)
    moreover have "past k ?c s (rearm s1)"
      using byte moved_rearm by (intro pastI [OF kind m]) (simp_all add: body_def)
    ultimately show thesis by (rule that)
  next
    case zero
    then have "Stream_uint n s = (Inr v, s1\<lparr>skind := None\<rparr>)"
      using K by (simp add: Stream_uint_def dbind_def dmap_err_def ksize_def readUint_def dreturn_def)
    moreover have "past k ?c s (s1\<lparr>skind := None\<rparr>)"
      using zero moved_rearm [of s1] by (intro pastI [OF kind m]) (simp_all add: body_def rearm_def)
    ultimately show thesis by (rule that)
  next
    case str
    have p: "putint v = ?c" using str(2) by (rule putint_nat_bytes)
    from readUint_putint [of s1 v rest] i r str obtain s2 where f: "readUint (length ?c) s1 = (Inr v, s2)"
      and m2: "moved (length ?c) s1 s2" "skind s2 = None"
      by (auto simp: body_def p)
    have len: "length ?c < 2 ^ 64" using r str by (simp add: body_def room_def)
    have "128 \<le> unat v"
    proof (rule ccontr)
      assume "\<not> 128 \<le> unat v"
      then obtain b where c: "?c = [b]" and lt: "unat v < 128" using str(2) by (simp add: nat_bytes_pos unat_gt_0)
      then have "unat b = unat v" using be_val_nat_bytes [of "unat v"] by (simp add: be_val_Cons)
      with kind str(1) c lt show False by (simp add: kind_of_def word_less_unat)
    qed
    then have "\<not> v < 128" by (simp add: word_less_unat)
    moreover have "\<not> of_nat (n div 8) < (of_nat (length ?c) :: uint64)"
      using bits len by (simp add: word_less_unat)
    ultimately have "Stream_uint n s = (Inr v, s2)"
      using K str(1) f len by (simp add: Stream_uint_def dbind_def dmap_err_def ksize_def dreturn_def)
    moreover have "past k ?c s s2" using m2 str by (intro pastI [OF kind m]) (simp_all add: body_def)
    ultimately show thesis by (rule that)
  qed
qed


lemma Raw_value:
  assumes at: "at_value k content rest s" and short: "k = KString \<Longrightarrow> length content < 56"
  obtains s' where "Raw s = (Inr (reencode k content), s')" "past k content s s'"
proof -
  have kind: "kind_of k content" using at by (simp add: at_value_def)
  from Kind_value [OF at] obtain s1 where K: "Kind s = (Inr (k, ksize k content), s1)"
    and m: "moved (hlen k content) s s1" and bv: "k = KByte \<longrightarrow> byteval s1 = hd content"
    and i: "input s1 = body k content @ rest" and r: "room (length (body k content)) s1" by metis
  show thesis
  proof (cases "k = KByte")
    case True
    then have "Raw s = (Inr (reencode k content), rearm s1)"
      using K bv KByte_content [of content] kind
      by (simp add: Raw_def dbind_def reencode_def rlp_str_def kind_of_def)
    moreover have "past k content s (rearm s1)"
      using True moved_rearm by (intro pastI [OF kind m]) (simp_all add: body_def)
    ultimately show thesis by (rule that)
  next
    case False
    with r i have "room (length content) s1" "take (length content) (input s1) = content" by (simp_all add: body_def)
    with readFull_room obtain s2 where f: "readFull (of_nat (length content)) s1 = (Inr content, s2)"
      and m2: "moved (length content) s1 s2" "skind s2 = None" by metis
    have "reencode k content =
      (if k = KString then puthead 0x80 0xB8 (of_nat (length content)) else puthead 0xC0 0xF7 (of_nat (length content))) @ content"
      using False kind short
      by (cases k) (auto simp: reencode_def rlp_str_def rlp_lst_def kind_of_def puthead_small)
    then have "Raw s = (Inr (reencode k content), s2)"
      using K False f by (simp add: Raw_def dbind_def ksize_def dreturn_def)
    moreover have "past k content s s2" using m2 False by (intro pastI [OF kind m]) (simp_all add: body_def)
    ultimately show thesis by (rule that)
  qed
qed

lemma byte_array_value:
  assumes at: "at_value k content rest s" and k: "k \<noteq> KList" and ok: "content \<noteq> [0]"
  obtains s' where "decodeByteArray typ (length content) s = (Inr (GBytes content), s')" "past k content s s'"
proof -
  have kind: "kind_of k content" using at by (simp add: at_value_def)
  from Kind_value [OF at] obtain s1 where K: "Kind s = (Inr (k, ksize k content), s1)"
    and m: "moved (hlen k content) s s1" and bv: "k = KByte \<longrightarrow> byteval s1 = hd content"
    and i: "input s1 = body k content @ rest" and r: "room (length (body k content)) s1" by metis
  show thesis
  proof (cases "k = KByte")
    case True
    then obtain b where b: "content = [b]" "b \<noteq> 0"
      using KByte_content [of content] kind ok by (cases content) auto
    have "Kind s1 = (Inr (KByte, ksize k content), s1)"
      using K True by (auto simp: Kind_def Let_def split: option.split_asm if_split_asm prod.split_asm)
    then have "Stream_uint 64 s1 = (Inr (ucast b), rearm s1)"
      using True bv b by (simp add: Stream_uint_def dbind_def)
    moreover have "ucast (ucast b :: uint64) = b"
      by (rule word_unat_eq_iff [THEN iffD2]) (simp add: unsigned_ucast_eq ucast_byte_word take_bit_word_eq_self)
    ultimately have "decodeByteArray typ (length content) s = (Inr (GBytes content), rearm s1)"
      using K True b by (simp add: decodeByteArray_def dbind_def)
    moreover have "past k content s (rearm s1)"
      using True moved_rearm by (intro pastI [OF kind m]) (simp_all add: body_def)
    ultimately show thesis by (rule that)
  next
    case False
    then have k: "k = KString" using assms(2) by (cases k) auto
    with r i have "room (length content) s1" "take (length content) (input s1) = content" by (simp_all add: body_def)
    with readFull_room obtain s2 where f: "readFull (of_nat (length content)) s1 = (Inr content, s2)"
      and m2: "moved (length content) s1 s2" "skind s2 = None" by metis
    have "\<not> ((of_nat (length content) :: uint64) = 1 \<and> content ! 0 < 128)"
      using kind k r by (intro not_single) (simp_all add: body_def room_def)
    then have "decodeByteArray typ (length content) s = (Inr (GBytes content), s2)"
      using K k f by (auto simp: decodeByteArray_def dbind_def ksize_def dreturn_def)
    moreover have "past k content s s2" using m2 k by (intro pastI [OF kind m]) (simp_all add: body_def)
    ultimately show thesis by (rule that)
  qed
qed

subsection \<open>Lists\<close>

lemma List_value:
  assumes at: "at_value KList content rest s"
  obtains s1 where "Stream_List s = (Inr (of_nat (length content)), s1)" "input s1 = content @ rest"
    "skind s1 = None" "room (length content) s1"
    "\<And>s2. moved (length content) s1 s2 \<Longrightarrow> at_end s2 \<and>
       (\<exists>s3. ListEnd s2 = (Inr (), s3) \<and> past KList content s s3)"
proof -
  have kind: "kind_of KList content" by (simp add: kind_of_def)
  from Kind_value [OF at] obtain s0 where K: "Kind s = (Inr (KList, of_nat (length content)), s0)"
    and m: "moved (hlen KList content) s s0"
    and i: "input s0 = content @ rest" and r: "room (length content) s0"
    by (auto simp: ksize_def body_def)
  define s1 where "s1 = s0\<lparr>stack := \<lparr>pos = 0, lpsize = of_nat (length content)\<rparr> # stack s0,
    skind := None, ssize := 0\<rparr>"
  have l: "Stream_List s = (Inr (of_nat (length content)), s1)"
    using K by (simp add: Stream_List_def dbind_def s1_def)
  have r1: "room (length content) s1" using r by (simp add: room_def s1_def)
  have "at_end s2 \<and> (\<exists>s3. ListEnd s2 = (Inr (), s3) \<and> past KList content s s3)"
    if m2: "moved (length content) s1 s2" for s2
  proof -
    have st: "stack s2 = \<lparr>pos = of_nat (length content), lpsize = of_nat (length content)\<rparr> # stack s0"
      using m2 by (simp add: moved_def s1_def adv_stack_def)
    define s3 where "s3 = s2\<lparr>stack := adv_stack (length content) (stack s0), skind := None, ssize := 0\<rparr>"
    have "ListEnd s2 = (Inr (), s3)" by (cases "stack s0") (simp_all add: ListEnd_def st s3_def adv_stack_def)
    moreover have "moved (length content) s0 s3" using m2 by (simp add: moved_def s1_def s3_def)
    then have "past KList content s s3" by (intro pastI [OF kind m]) (simp_all add: body_def s3_def)
    ultimately show ?thesis by (simp add: at_end_def st)
  qed
  with l r1 i show thesis by (intro that [of s1]) (simp_all add: s1_def)
qed

subsection \<open>The end of a list, and a kind that is already known\<close>

lemma Kind_again: "Kind s = (Inr r, s1) \<Longrightarrow> Kind s1 = (Inr r, s1)"
  by (auto simp: Kind_def Let_def split: option.split_asm if_split_asm prod.split_asm)

lemma dbind_Kind_again: "Kind s = (Inr r, s1) \<Longrightarrow> dbind Kind g s1 = dbind Kind g s"
  by (simp add: dbind_def Kind_again)

lemma values_again:
  assumes "Kind s = (Inr r, s1)"
  shows "Stream_List s1 = Stream_List s" "Stream_Bytes s1 = Stream_Bytes s" "Raw s1 = Raw s"
    "Stream_uint n s1 = Stream_uint n s" "decodeByteArray typ n s1 = decodeByteArray typ n s"
  unfolding Stream_List_def Stream_Bytes_def Raw_def Stream_uint_def decodeByteArray_def
  by (rule dbind_Kind_again [OF assms])+

lemma dbind_cong: "m s1 = m s \<Longrightarrow> dbind m f s1 = dbind m f s"
  by (simp add: dbind_def)

lemma dmap_err_cong: "m s1 = m s \<Longrightarrow> dmap_err g m s1 = dmap_err g m s"
  by (simp add: dmap_err_def)

lemma decoder_again:
  assumes K: "Kind s = (Inr r, s1)"
  shows "\<not> tail ts \<Longrightarrow> genTypeInfo t = Inr () \<Longrightarrow>
    decoder f t ts s1 = decoder f t ts s \<or> fst (decoder f t ts s1) = Inl OutOfFuel"
proof (induction f arbitrary: t ts)
  case 0
  then show ?case by (simp add: dfail_def)
next
  case (Suc f)
  note again = dbind_cong dmap_err_cong values_again [OF K]
  show ?case
  proof (cases t)
    case (TPtr et)
    have IH: "decoder f et no_tags s1 = decoder f et no_tags s \<or> fst (decoder f et no_tags s1) = Inl OutOfFuel"
      using Suc TPtr by (auto simp: no_tags_def)
    then have "dbind (decoder f et no_tags) g s1 = dbind (decoder f et no_tags) g s \<or>
        fst (dbind (decoder f et no_tags) g s1) = Inl OutOfFuel" for g :: "goval \<Rightarrow> goval dec"
      by (auto simp: dbind_def split: prod.splits sum.splits)
    then show ?thesis unfolding TPtr
      using K Kind_again [OF K]
      by (auto simp: decodeBigInt_def decodeOptionalPtr_def intro!: again)
  next
    case (TSlice et)
    then show ?thesis using Suc.prems
      by (auto simp: decodeByteSlice_def decodeListSlice_def intro!: again)
  next
    case (TArray n et)
    then show ?thesis
      by (auto simp: decodeListArray_def intro!: again)
  next
    case (TStruct fs)
    then show ?thesis
      by (auto simp: decodeStruct_def intro!: again)
  next
    case TInterface
    show ?thesis unfolding TInterface decoder.simps by (intro disjI1 dbind_Kind_again [OF K])
  next
    case TOther
    then show ?thesis using Suc.prems by simp
  qed (auto simp: decodeRawValue_def decodeBigInt_def decodeUint_def decodeBool_def decodeString_def Stream_Bool_def
      intro!: again)
qed


lemma Kind_at_end: "at_end s \<Longrightarrow> skind s = None \<Longrightarrow> Kind s = (Inl EOL, s\<lparr>kinderr := None\<rparr>)"
  by (simp add: Kind_def at_end_def)

lemma wrap_EOL [simp]: "wrapStreamError typ EOL = EOL"
  by (simp add: wrapStreamError_def)

lemma decoder_at_end:
  assumes e: "at_end s" "skind s = None"
  shows "\<not> tail ts \<Longrightarrow> genTypeInfo t = Inr () \<Longrightarrow>
    (\<exists>s'. decoder f t ts s = (Inl EOL, s') \<and> moved 0 s s' \<and> skind s' = None) \<or>
    fst (decoder f t ts s) = Inl OutOfFuel"
proof (induction f arbitrary: t ts)
  case 0
  then show ?case by (simp add: dfail_def)
next
  case (Suc f)
  define s' where "s' = s\<lparr>kinderr := None\<rparr>"
  have K: "Kind s = (Inl EOL, s')" using Kind_at_end [OF e] by (simp add: s'_def)
  have ok: "moved 0 s s'" "skind s' = None" "rearm s' = s'" using e(2) by (simp_all add: s'_def moved_def rearm_def)
  have ops: "Stream_List s = (Inl EOL, s')" "Stream_Bytes s = (Inl EOL, s')" "Raw s = (Inl EOL, s')"
    "Stream_uint n s = (Inl EOL, s')" "decodeByteArray ty n s = (Inl EOL, s')" for n ty
    by (simp_all add: Stream_List_def Stream_Bytes_def Raw_def Stream_uint_def decodeByteArray_def dbind_def K)
  show ?case
  proof (cases t)
    case (TPtr et)
    have IH: "(\<exists>s'. decoder f et no_tags s = (Inl EOL, s') \<and> moved 0 s s' \<and> skind s' = None) \<or>
      fst (decoder f et no_tags s) = Inl OutOfFuel"
      using Suc TPtr by (auto simp: no_tags_def)
    then show ?thesis unfolding TPtr
      using K ok by (auto simp: decodeBigInt_def decodeOptionalPtr_def dbind_def dmap_err_def ops
          split: prod.splits sum.splits)
  next
    case TInterface
    with K ok show ?thesis by (simp add: dbind_def)
  next
    case TOther
    then show ?thesis using Suc.prems by simp
  qed (use Suc.prems ok in \<open>simp_all add: ops decodeByteSlice_def decodeListSlice_def decodeListArray_def decodeStruct_def
      decodeRawValue_def decodeBigInt_def decodeUint_def decodeBool_def decodeString_def Stream_Bool_def
      dbind_def dmap_err_def\<close>)
qed


section \<open>The round trip\<close>

text \<open>
  \<open>canon t ts v\<close>: \<open>v\<close> is a value of type \<open>t\<close> of the form that decoding produces. Excluded are
  values whose encoding stands for another value (a nil pointer without tag \<open>nil\<close> is written like the zero value,
  a pointer with tag \<open>nil\<close> to an empty value like nil), raw values that \<open>Stream.Raw\<close> does not return
  unchanged, and the array \<open>[1]byte{0}\<close>.
\<close>

definition empty_encoding :: "rlp_error + item list \<Rightarrow> bool" where
  "empty_encoding r = (case r of Inl _ \<Rightarrow> False | Inr xs \<Rightarrow> rlps xs = [0x80] \<or> rlps xs = [0xC0])"

definition raw_canon :: "bytes \<Rightarrow> bool" where
  "raw_canon b = (case Split b of
     Inl _ \<Rightarrow> False
   | Inr (k, content, rest) \<Rightarrow> rest = [] \<and> (k = KString \<longrightarrow> length content < 56) \<and> length b < 2 ^ 64)"

function canon :: "gotype \<Rightarrow> tags \<Rightarrow> goval \<Rightarrow> bool"
  and canon_fields :: "(tags \<times> gotype) list \<Rightarrow> goval list \<Rightarrow> bool" where
  "canon TRaw ts v = (case v of GBytes b \<Rightarrow> raw_canon b | _ \<Rightarrow> False)"
| "canon TInterface ts v =
     (case v of
        GIface dt dv \<Rightarrow> (dt = TSlice (TUint 8) \<or> dt = TSlice TInterface) \<and> canon dt no_tags dv
      | _ \<Rightarrow> False)"
| "canon TBig ts v = (case v of GBig i \<Rightarrow> 0 \<le> i | _ \<Rightarrow> False)"
| "canon (TUint n) ts v = (case v of GUint i \<Rightarrow> 8 dvd n \<and> n \<le> 64 \<and> unat i < 2 ^ n | _ \<Rightarrow> False)"
| "canon TBool ts v = (case v of GBool b \<Rightarrow> True | _ \<Rightarrow> False)"
| "canon TString ts v = (case v of GBytes b \<Rightarrow> True | _ \<Rightarrow> False)"
| "canon (TSlice et) ts v =
     (if isByte et then (case v of GBytes b \<Rightarrow> True | _ \<Rightarrow> False)
      else case v of GList vs \<Rightarrow> list_all (canon et no_tags) vs | _ \<Rightarrow> False)"
| "canon (TArray n et) ts v =
     (if isByte et then (case v of GBytes b \<Rightarrow> length b = n \<and> b \<noteq> [0] | _ \<Rightarrow> False)
      else case v of GList vs \<Rightarrow> length vs = n \<and> list_all (canon et no_tags) vs | _ \<Rightarrow> False)"
| "canon (TStruct fs) ts v = (case v of GList vs \<Rightarrow> canon_fields fs vs | _ \<Rightarrow> False)"
| "canon (TPtr et) ts v =
     (case v of
        GNil \<Rightarrow> et \<noteq> TBig \<and> nilOK ts \<and> empty_encoding (items (TPtr et) ts GNil)
      | GPtr pv \<Rightarrow> canon et no_tags pv \<and>
          (et \<noteq> TBig \<and> nilOK ts \<longrightarrow> \<not> empty_encoding (items et no_tags pv))
      | _ \<Rightarrow> False)"
| "canon TOther ts v = False"
| "canon_fields [] vs = (vs = [])"
| "canon_fields ((ts, t) # fs) [] = False"
| "canon_fields ((ts, t) # fs) (v # vs) = (canon t ts v \<and> canon_fields fs vs)"
  by pat_completeness auto
termination
  by (relation "measures
        [case_sum (\<lambda>(t, ts, v). vsize v) (\<lambda>(fs, vs). sum_list (map vsize vs)),
         case_sum (\<lambda>_. 0) (\<lambda>_. 1)]")
    (auto simp: member_le_sum_list intro: le_imp_less_Suc)


definition encodes :: "item list \<Rightarrow> bool" where
  \<comment> \<open>is encoded as one value\<close>
  "encodes xs \<longleftrightarrow> (\<exists>k content. kind_of k content \<and> rlps xs = reencode k content)"

lemma encodesI: "kind_of k content \<Longrightarrow> rlps xs = reencode k content \<Longrightarrow> encodes xs"
  by (auto simp: encodes_def)

lemma encodes_Str [simp]: "encodes [Str b]"
  by (rule encodesI [of "item_kind (Str b)" b]) (auto simp: item_kind_def reencode_def kind_of_def rlps_def)

lemma encodes_Lst [simp]: "encodes [Lst xs]"
  by (rule encodesI [of KList "rlps xs"]) (simp_all add: kind_of_def reencode_def rlps_def)

lemma encodes_nonempty: "encodes xs \<Longrightarrow> rlps xs \<noteq> []"
proof -
  have "reencode k content \<noteq> []" for k content
    by (cases k) (auto simp: reencode_def rlp_str_def rlp_lst_def puthead_def Let_def)
  then show "encodes xs \<Longrightarrow> rlps xs \<noteq> []" by (metis encodes_def)
qed

lemma empty_encoding_kind:
  "empty_encoding (Inr xs) \<longleftrightarrow> rlps xs = reencode KString [] \<or> rlps xs = reencode KList []"
  by (auto simp: empty_encoding_def reencode_def rlp_str_def rlp_lst_def puthead_def)

lemma empty_encoding_encodes: "empty_encoding (Inr xs) \<Longrightarrow> encodes xs"
  unfolding empty_encoding_kind
  using encodesI [of KString "[]" xs] encodesI [of KList "[]" xs] by (auto simp: kind_of_def)

lemma raw_canon_encodes:
  assumes "raw_canon b"
  obtains k content where "kind_of k content" "b = reencode k content" "k = KString \<longrightarrow> length content < 56"
    "Split b = Inr (k, content, [])"
proof -
  from assms obtain k content where s: "Split b = Inr (k, content, [])" "k = KString \<longrightarrow> length content < 56"
    "length b < 2 ^ 64"
    by (auto simp: raw_canon_def split: sum.split_asm)
  with Split_inv [OF s(1,3)] that show thesis by auto
qed


definition in_front :: "item list \<Rightarrow> bytes \<Rightarrow> stream \<Rightarrow> bool" where
  "in_front xs rest s \<longleftrightarrow> skind s = None \<and> input s = rlps xs @ rest \<and> room (length (rlps xs)) s"

definition decodes :: "'a dec \<Rightarrow> 'a \<Rightarrow> item list \<Rightarrow> stream \<Rightarrow> bool" where
  \<comment> \<open>returns \<open>v\<close> and moves past the encoding of \<open>xs\<close>, given the fuel\<close>
  "decodes m v xs s \<longleftrightarrow> fst (m s) = Inl OutOfFuel \<or>
     (\<exists>s'. m s = (Inr v, s') \<and> moved (length (rlps xs)) s s' \<and> skind s' = None)"

lemma in_front_at_value:
  "in_front xs rest s \<Longrightarrow> kind_of k content \<Longrightarrow> rlps xs = reencode k content \<Longrightarrow> at_value k content rest s"
  by (simp add: in_front_def at_value_def)

lemma in_front_Str: "in_front [Str b] rest s \<Longrightarrow> \<exists>k. k \<noteq> KList \<and> at_value k b rest s \<and> rlps [Str b] = reencode k b"
  by (rule exI [of _ "item_kind (Str b)"])
    (auto simp: item_kind_def reencode_def kind_of_def rlps_def intro!: in_front_at_value)

lemma in_front_Lst: "in_front [Lst xs] rest s \<Longrightarrow> at_value KList (rlps xs) rest s"
  by (rule in_front_at_value) (auto simp: reencode_def kind_of_def rlps_def)

lemma in_front_append:
  "in_front (xs @ ys) rest s \<Longrightarrow> in_front xs (rlps ys @ rest) s"
  by (auto simp: in_front_def rlps_def elim: room_le)

lemma in_front_next:
  assumes "in_front (xs @ ys) rest s" "moved (length (rlps xs)) s s'" "skind s' = None"
  shows "in_front ys rest s'"
  using assms room_moved [OF _ assms(2), of "length (rlps ys)"]
  by (simp add: in_front_def moved_def rlps_def)

lemma decodes_past:
  "m s = (Inr v, s') \<Longrightarrow> past k content s s' \<Longrightarrow> rlps xs = reencode k content \<Longrightarrow> decodes m v xs s"
  by (simp add: decodes_def past_def)

lemma decodes_map: "decodes m v xs s \<Longrightarrow> decodes (dbind m (\<lambda>v. dreturn (h v))) (h v) xs s"
  by (auto simp: decodes_def dbind_def dreturn_def split: prod.splits sum.splits)

lemma decodes_wrap: "decodes m v xs s \<Longrightarrow> decodes (dmap_err (wrapStreamError typ) m) v xs s"
  by (auto simp: decodes_def dmap_err_def wrapStreamError_def split: prod.splits sum.splits)

lemma decodes_Bytes: "in_front [Str b] rest s \<Longrightarrow> decodes Stream_Bytes b [Str b] s"
  by (metis in_front_Str Bytes_value decodes_past)

lemma decodes_uint:
  assumes "in_front [Str (nat_bytes (unat v))] rest s" "8 dvd n" "n \<le> 64" "unat v < 2 ^ n"
  shows "decodes (Stream_uint n) v [Str (nat_bytes (unat v))] s"
proof -
  from assms(2) have "(2 :: nat) ^ n = 256 ^ (n div 8)" by (auto simp: power_mult elim!: dvdE)
  with assms(4) have l: "length (nat_bytes (unat v)) \<le> n div 8" by (simp add: length_nat_bytes_le)
  have "n div 8 < 2 ^ 64" using assms(3) by simp
  with in_front_Str [OF assms(1)] l show ?thesis by (metis uint_value decodes_past)
qed

lemma decodes_raw: "raw_canon b \<Longrightarrow> in_front [Enc b] rest s \<Longrightarrow> decodes Raw b [Enc b] s"
proof -
  assume "raw_canon b" and f: "in_front [Enc b] rest s"
  then obtain k content where k: "kind_of k content" "b = reencode k content" "k = KString \<longrightarrow> length content < 56"
    by (metis raw_canon_encodes)
  then have "rlps [Enc b] = reencode k content" by (simp add: rlps_def)
  with in_front_at_value [OF f k(1)] Raw_value [of k content rest s] k show ?thesis
    by (metis decodes_past)
qed

lemma decodes_byte_array:
  "in_front [Str b] rest s \<Longrightarrow> b \<noteq> [0] \<Longrightarrow> decodes (decodeByteArray typ (length b)) (GBytes b) [Str b] s"
  by (metis in_front_Str byte_array_value decodes_past)


text \<open>The elements of a list are decoded inside it, up to its end.\<close>

definition list_end :: "item list \<Rightarrow> stream \<Rightarrow> bool" where
  "list_end xs s \<longleftrightarrow> (\<forall>s2. moved (length (rlps xs)) s s2 \<longrightarrow> at_end s2)"

lemma list_end_next:
  "list_end (xs @ ys) s \<Longrightarrow> moved (length (rlps xs)) s s' \<Longrightarrow> list_end ys s'"
  using moved_trans by (fastforce simp: list_end_def rlps_def)

lemma decodes_in_list:
  assumes f: "in_front [Lst xs] rest s"
    and m: "\<And>s1. in_front xs rest s1 \<Longrightarrow> list_end xs s1 \<Longrightarrow> decodes m vs xs s1"
    and fuel: "\<And>s1. fst (m s1) = Inl OutOfFuel \<Longrightarrow> fst (g (of_nat (length (rlps xs))) s1) = Inl OutOfFuel"
    and fin: "\<And>s1 s2 s3. m s1 = (Inr vs, s2) \<Longrightarrow> ListEnd s2 = (Inr (), s3) \<Longrightarrow>
      g (of_nat (length (rlps xs))) s1 = (Inr vs, s3)"
  shows "decodes (dbind (dmap_err (wrapStreamError typ) Stream_List) g) vs [Lst xs] s"
proof -
  from List_value [OF in_front_Lst [OF f]] obtain s1 where
    l: "Stream_List s = (Inr (of_nat (length (rlps xs))), s1)" and i: "input s1 = rlps xs @ rest"
    and k: "skind s1 = None" and r: "room (length (rlps xs)) s1"
    and e: "\<And>s2. moved (length (rlps xs)) s1 s2 \<Longrightarrow> at_end s2 \<and>
       (\<exists>s3. ListEnd s2 = (Inr (), s3) \<and> past KList (rlps xs) s s3)" by metis
  have "decodes m vs xs s1" using i k r e by (intro m) (auto simp: in_front_def list_end_def)
  then consider "fst (m s1) = Inl OutOfFuel"
    | s2 where "m s1 = (Inr vs, s2)" "moved (length (rlps xs)) s1 s2" by (auto simp: decodes_def)
  then show ?thesis
  proof cases
    case 1
    then show ?thesis using fuel by (simp add: decodes_def dbind_def dmap_err_def l)
  next
    case 2
    with e obtain s3 where s3: "ListEnd s2 = (Inr (), s3)" "past KList (rlps xs) s s3" by metis
    have "rlps [Lst xs] = reencode KList (rlps xs)" by (simp add: reencode_def rlps_def)
    with s3 2 fin show ?thesis
      by (intro decodes_past [OF _ s3(2)]) (auto simp: dbind_def dmap_err_def l)
  qed
qed

lemma decodes_slice:
  assumes f: "in_front [Lst xs] rest s"
    and m: "\<And>s1. in_front xs rest s1 \<Longrightarrow> list_end xs s1 \<Longrightarrow> decodes m vs xs s1"
    and nil: "rlps xs = [] \<Longrightarrow> vs = []"
  shows "decodes (decodeListSlice typ m) vs [Lst xs] s"
proof (cases "rlps xs = []")
  case False
  have len: "length (rlps xs) < 2 ^ 64"
    using f by (simp add: in_front_def room_def rlps_def rlp_lst_def)
  with False have nz: "(of_nat (length (rlps xs)) :: uint64) \<noteq> 0" by (simp add: word_unat_eq_iff)
  then show ?thesis unfolding decodeListSlice_def
    by (intro decodes_in_list [OF f m]) (auto simp: dbind_def dreturn_def split: prod.split)
next
  case True
  then show ?thesis unfolding decodeListSlice_def using nil moved_0
    by (intro decodes_in_list [OF f, where m = "dreturn []"])
      (auto simp: decodes_def dbind_def dreturn_def in_front_def)
qed

lemma decodes_array:
  assumes f: "in_front [Lst xs] rest s"
    and m: "\<And>s1. in_front xs rest s1 \<Longrightarrow> list_end xs s1 \<Longrightarrow> decodes m vs xs s1"
  shows "decodes (decodeListArray typ (length vs) m) vs [Lst xs] s"
  unfolding decodeListArray_def
  by (intro decodes_in_list [OF f m]) (auto simp: dbind_def dmap_err_def dreturn_def split: prod.split)

lemma decodes_struct:
  assumes f: "in_front [Lst xs] rest s"
    and m: "\<And>s1. in_front xs rest s1 \<Longrightarrow> list_end xs s1 \<Longrightarrow> decodes m vs xs s1"
  shows "decodes (decodeStruct typ m) vs [Lst xs] s"
  unfolding decodeStruct_def
  by (intro decodes_in_list [OF f m]) (auto simp: dbind_def dmap_err_def dreturn_def split: prod.split)

text \<open>One round of an element loop.\<close>

lemma decodes_loop:
  assumes d: "decodes dec v xs s" and l: "list_end (xs @ ys) s" and f: "in_front (xs @ ys) rest s"
    and m: "\<And>s1. in_front ys rest s1 \<Longrightarrow> list_end ys s1 \<Longrightarrow> decodes m vs ys s1"
  shows "decodes (\<lambda>s. case dec s of (Inl e, s') \<Rightarrow> if e = EOL then (eol e, s') else (Inl e, s')
     | (Inr v, s') \<Rightarrow> dbind m (\<lambda>vs. dreturn (v # vs)) s') (v # vs) (xs @ ys) s"
proof -
  from d consider "fst (dec s) = Inl OutOfFuel"
    | s1 where "dec s = (Inr v, s1)" "moved (length (rlps xs)) s s1" "skind s1 = None" by (auto simp: decodes_def)
  then show ?thesis
  proof cases
    case 1
    then show ?thesis by (cases "dec s") (simp add: decodes_def)
  next
    case 2
    with l f have "decodes m vs ys s1" by (intro m) (auto intro: in_front_next list_end_next)
    from decodes_map [OF this, of "\<lambda>vs. v # vs"] 2 moved_trans [OF 2(2)] show ?thesis
      by (auto simp: decodes_def rlps_def)
  qed
qed

lemma elems_at_end:
  assumes "genTypeInfo t = Inr ()" "in_front [] rest s" "list_end [] s"
  shows "decodes (decodeSliceElems f t) [] [] s"
proof (cases f)
  case 0
  then show ?thesis by (simp add: decodes_def dfail_def)
next
  case (Suc k)
  have e: "at_end s" "skind s = None" using assms(2,3) moved_0 by (auto simp: list_end_def in_front_def)
  from decoder_at_end [OF e, of no_tags t k] assms(1)
  consider "fst (decoder k t no_tags s) = Inl OutOfFuel"
    | s' where "decoder k t no_tags s = (Inl EOL, s')" "moved 0 s s'" "skind s' = None"
    by (auto simp: no_tags_def)
  then show ?thesis
    by cases (cases "decoder k t no_tags s"; auto simp: decodes_def Suc)+
qed


lemma elem_items_ok:
  "(\<And>v. v \<in> set vs \<Longrightarrow> \<exists>xs. items et no_tags v = Inr xs) \<Longrightarrow> \<exists>xs. elem_items et vs = Inr xs"
  by (induction vs) fastforce+

lemma tail_no_tags [simp]: "\<not> tail no_tags"
  by (simp add: no_tags_def)

lemma canon_items:
  "canon t ts v \<Longrightarrow> genTypeInfo t = Inr () \<Longrightarrow> \<exists>xs. items t ts v = Inr xs \<and> (\<not> tail ts \<longrightarrow> encodes xs)"
  "canon_fields fs vs \<Longrightarrow> structFields styp fs = Inr () \<Longrightarrow> \<exists>xs. field_items fs vs = Inr xs"
proof (induction t ts v and fs vs arbitrary: and styp rule: canon_canon_fields.induct)
  case (1 ts v)
  then show ?case by (auto split: goval.split_asm elim!: raw_canon_encodes intro: encodesI simp: rlps_def)
next
  case (7 et ts v)
  have "\<exists>xs. elem_items et vs = Inr xs" if "v = GList vs" "\<not> isByte et" for vs
    using 7 that by (intro elem_items_ok) (auto simp: list_all_iff; metis)
  with "7.prems" show ?case by (auto split: goval.split_asm if_split_asm)
next
  case (8 n et ts v)
  have "\<exists>xs. elem_items et vs = Inr xs" if "v = GList vs" "\<not> isByte et" for vs
    using 8 that by (intro elem_items_ok) (auto simp: list_all_iff; metis)
  with "8.prems" show ?case by (auto split: goval.split_asm if_split_asm)
next
  case (9 fs ts v)
  then obtain vs xs where "v = GList vs" "field_items fs vs = Inr xs"
    by (fastforce split: goval.split_asm)
  then show ?case by simp
next
  case (10 et ts v)
  show ?case
  proof (cases v)
    case GNil
    with 10 obtain xs where "items (TPtr et) ts GNil = Inr xs" "empty_encoding (Inr xs)"
      by (auto simp del: items.simps simp: empty_encoding_def split: sum.split_asm)
    with GNil empty_encoding_encodes show ?thesis by blast
  next
    case (GPtr pv)
    with 10 show ?thesis by auto
  qed (use 10 in auto)
qed (auto simp: big_item_def isByte_def split: goval.split_asm if_split_asm sum.splits)

lemma canon_elems_nonempty:
  assumes "list_all (canon et no_tags) vs" "genTypeInfo et = Inr ()" "elem_items et vs = Inr xs" "rlps xs = []"
  shows "vs = []"
proof (rule ccontr)
  assume "vs \<noteq> []"
  then obtain v ws where vs: "vs = v # ws" by (cases vs) auto
  with assms(1,2) obtain ys where "items et no_tags v = Inr ys" "encodes ys"
    using canon_items(1) [of et no_tags v] by auto
  with vs assms(3,4) encodes_nonempty [of ys] show False by (auto simp: rlps_def)
qed


lemma decodes_unmap: "inj h \<Longrightarrow> decodes (dbind m (\<lambda>v. dreturn (h v))) (h v) xs s \<Longrightarrow> decodes m v xs s"
  by (auto simp: decodes_def dbind_def dreturn_def dest: injD split: prod.split_asm sum.split_asm)

lemma decodes_eq: "m s = m' s \<Longrightarrow> decodes m' v xs s \<Longrightarrow> decodes m v xs s"
  by (simp add: decodes_def)

text \<open>The two uses of a kind that has been looked at: \<open>interface{}\<close> and optional pointers.\<close>

lemma decodes_interface_list:
  assumes at: "at_value KList content rest s"
    and d: "decodes (decodeListSlice (TSlice TInterface) (decodeSliceElems fu TInterface)) vs xs s"
  shows "decodes (decoder (Suc fu) TInterface ts) (GIface (TSlice TInterface) (GList vs)) xs s"
proof -
  from Kind_value [OF at] obtain s1 where K: "Kind s = (Inr (KList, ksize KList content), s1)" by blast
  have sl: "decodeListSlice (TSlice TInterface) (decodeSliceElems fu TInterface) s1 =
      decodeListSlice (TSlice TInterface) (decodeSliceElems fu TInterface) s"
    unfolding decodeListSlice_def by (intro dbind_cong dmap_err_cong values_again(1) [OF K])
  have "decoder (Suc fu) TInterface ts s =
      dbind (decodeListSlice (TSlice TInterface) (decodeSliceElems fu TInterface))
        (\<lambda>vs. dreturn (GIface (TSlice TInterface) (GList vs))) s"
    unfolding decoder.simps dbind_ok [where m = Kind, OF K] prod.case
    by (simp only: if_True simp_thms dbind_cong [OF sl])
  then show ?thesis using decodes_map [OF d] by (rule decodes_eq)
qed

lemma decodes_interface_bytes:
  assumes at: "at_value k content rest s" "k \<noteq> KList" and d: "decodes Stream_Bytes b xs s"
  shows "decodes (decoder (Suc fu) TInterface ts) (GIface (TSlice (TUint 8)) (GBytes b)) xs s"
proof -
  from Kind_value [OF at(1)] obtain s1 where K: "Kind s = (Inr (k, ksize k content), s1)" by blast
  have "decoder (Suc fu) TInterface ts s =
      dbind Stream_Bytes (\<lambda>b. dreturn (GIface (TSlice (TUint 8)) (GBytes b))) s"
    unfolding decoder.simps dbind_ok [where m = Kind, OF K] prod.case
    by (simp only: at(2) if_False dbind_cong [OF values_again(2) [OF K]])
  then show ?thesis using decodes_map [OF d] by (rule decodes_eq)
qed

lemma decodes_optional_nil:
  assumes f: "in_front xs rest s" and e: "empty_encoding (Inr xs)"
  shows "decodes (decodeOptionalPtr m) GNil xs s"
proof -
  from e obtain k where k: "k = KString \<or> k = KList" "rlps xs = reencode k []"
    by (auto simp: empty_encoding_kind)
  then have kind: "kind_of k []" by (auto simp: kind_of_def)
  from Kind_value [OF in_front_at_value [OF f kind k(2)]] obtain s1
    where K: "Kind s = (Inr (k, ksize k []), s1)" and m: "moved (hlen k []) s s1" by blast
  have "decodeOptionalPtr m s = (Inr GNil, rearm s1)"
    using K k(1) by (auto simp: decodeOptionalPtr_def ksize_def)
  moreover have "past k [] s (rearm s1)"
    using k(1) moved_rearm by (intro pastI [OF kind m]) (auto simp: body_def)
  ultimately show ?thesis using k(2) by (rule decodes_past)
qed

lemma decodes_optional_ptr:
  assumes f: "in_front xs rest s" and e: "encodes xs" "\<not> empty_encoding (Inr xs)"
    and d: "decodes (decoder fu t no_tags) v xs s" and t: "genTypeInfo t = Inr ()"
  shows "decodes (decodeOptionalPtr (decoder fu t no_tags)) (GPtr v) xs s"
proof -
  from e(1) obtain k content where kc: "kind_of k content" "rlps xs = reencode k content" by (auto simp: encodes_def)
  with f have at: "at_value k content rest s" by (intro in_front_at_value)
  from Kind_value [OF at] obtain s1 where K: "Kind s = (Inr (k, ksize k content), s1)" by blast
  have len: "length content < 2 ^ 64"
  proof -
    have "length (reencode k content) < 2 ^ 64" using at by (simp add: at_value_def room_def)
    moreover have "length content \<le> length (reencode k content)"
      by (cases k) (auto simp: reencode_def rlp_str_def rlp_lst_def)
    ultimately show ?thesis by linarith
  qed
  have ne: "\<not> (ksize k content = 0 \<and> k \<noteq> KByte)"
  proof
    assume a: "ksize k content = 0 \<and> k \<noteq> KByte"
    then have "(of_nat (length content) :: uint64) = 0" by (simp add: ksize_def split: if_split_asm)
    then have "unat (of_nat (length content) :: uint64) = 0" by (simp only: unat_0)
    then have "content = []" using len by simp
    with a kc(2) e(2) show False by (cases k) (auto simp: empty_encoding_kind)
  qed
  have dec: "decodes (dbind (decoder fu t no_tags) (\<lambda>v. dreturn (GPtr v))) (GPtr v) xs s"
    using d by (rule decodes_map)
  have opt: "decodeOptionalPtr (decoder fu t no_tags) s = dbind (decoder fu t no_tags) (\<lambda>v. dreturn (GPtr v)) s1"
    using K ne by (auto simp: decodeOptionalPtr_def)
  from decoder_again [OF K, of no_tags t fu] t
  consider "decoder fu t no_tags s1 = decoder fu t no_tags s" | "fst (decoder fu t no_tags s1) = Inl OutOfFuel"
    by auto
  then show ?thesis
  proof cases
    case 1
    from opt dbind_cong [OF 1] have "decodeOptionalPtr (decoder fu t no_tags) s =
        dbind (decoder fu t no_tags) (\<lambda>v. dreturn (GPtr v)) s" by (rule trans)
    then show ?thesis using dec by (rule decodes_eq)
  next
    case 2
    then show ?thesis by (cases "decoder fu t no_tags s1") (simp add: decodes_def opt dbind_def)
  qed
qed

text \<open>
  Decoding what the encoder wrote for a canonical value returns the value: for the decoder of a
  type, for the element loops of slices and arrays, and for the fields of a struct.
\<close>

lemma decodes_big:
  assumes "in_front [Str (nat_bytes (nat i))] rest s" "0 \<le> i"
  shows "decodes decodeBigInt (GBig i) [Str (nat_bytes (nat i))] s"
proof -
  let ?b = "nat_bytes (nat i)"
  have ok: "\<not> (?b \<noteq> [] \<and> ?b ! 0 = 0)"
    using hd_nat_bytes [of "nat i"] by (cases "nat i = 0") (auto simp: hd_conv_nth)
  have "decodes (dbind Stream_Bytes (\<lambda>b. if b \<noteq> [] \<and> b ! 0 = 0 then dfail ErrCanonInt
      else dreturn (GBig (int (be_val b))))) (GBig i) [Str ?b] s"
    using decodes_Bytes [OF assms(1)] ok assms(2) by (auto simp: decodes_def dbind_def dreturn_def split: prod.splits)
  then show ?thesis unfolding decodeBigInt_def by (rule decodes_wrap)
qed

lemma decodes_bool:
  assumes "in_front [Str (if b then [1] else [])] rest s"
  shows "decodes decodeBool (GBool b) [Str (if b then [1] else [])] s"
proof -
  let ?v = "if b then 1 else 0 :: uint64"
  have n: "nat_bytes (unat ?v) = (if b then [1] else [])" by (simp add: nat_bytes_pos)
  then have "decodes (Stream_uint 8) ?v [Str (if b then [1] else [])] s"
    using decodes_uint [of ?v rest s 8] assms by simp
  then have "decodes Stream_Bool b [Str (if b then [1] else [])] s"
    unfolding Stream_Bool_def by (auto simp: decodes_def dbind_def dreturn_def split: prod.splits)
  then show ?thesis unfolding decodeBool_def by (intro decodes_wrap decodes_map)
qed

lemma decodes_out_of_fuel [simp]: "decodes (dfail OutOfFuel) v xs s"
  by (simp add: decodes_def dfail_def)

lemma decodes_return: "in_front [] rest s \<Longrightarrow> decodes (dreturn v) v [] s"
  by (simp add: decodes_def dreturn_def in_front_def moved_0)

lemma decoder_decodes:
  "genTypeInfo t = Inr () \<Longrightarrow> canon t ts v \<Longrightarrow> items t ts v = Inr xs \<Longrightarrow> in_front xs rest s \<Longrightarrow>
   (tail ts \<Longrightarrow> is_slice_kind t \<and> list_end xs s) \<Longrightarrow> decodes (decoder f t ts) v xs s"
  "genTypeInfo et = Inr () \<Longrightarrow> list_all (canon et no_tags) vs \<Longrightarrow> elem_items et vs = Inr xs \<Longrightarrow>
   in_front xs rest s \<Longrightarrow> list_end xs s \<Longrightarrow>
   decodes (decodeSliceElems f et) vs xs s \<and> decodes (decodeArrayElems f (length vs) et) vs xs s"
  "structFields styp fs = Inr () \<Longrightarrow> canon_fields fs vs \<Longrightarrow> field_items fs vs = Inr xs \<Longrightarrow> in_front xs rest s \<Longrightarrow>
   list_end xs s \<Longrightarrow> decodes (decodeFields f styp' fs) vs xs s"
proof (induction t ts v and et vs and fs vs arbitrary: f xs rest s and f xs rest s and f xs rest s styp styp'
    rule: items_elem_items_field_items.induct)
  case (1 ts v)
  then show ?case
    by (cases f) (auto simp: decodeRawValue_def split: goval.split_asm intro!: decodes_map decodes_raw)
next
  case (2 ts v)
  show ?case
  proof (cases f)
    case (Suc k)
    from "2.prems" obtain dt dv where v: "v = GIface dt dv" "canon dt no_tags dv"
      and dt: "dt = TSlice (TUint 8) \<or> dt = TSlice TInterface" by (auto split: goval.split_asm)
    then have ok: "genTypeInfo dt = Inr ()" by auto
    with "2.prems" v have it: "items dt no_tags dv = Inr xs" by simp
    have IH: "decodes (decoder (Suc k) dt no_tags) dv xs s"
      using "2.IH" v ok it "2.prems"(4) by simp
    show ?thesis
    proof (cases "dt = TSlice (TUint 8)")
      case True
      then obtain b where b: "dv = GBytes b" "xs = [Str b]"
        using v it by (auto simp: isByte_def split: goval.split_asm)
      with in_front_Str "2.prems"(4) obtain k' where "k' \<noteq> KList" "at_value k' b rest s" by blast
      with decodes_Bytes "2.prems"(4) b show ?thesis
        unfolding Suc v True b by (intro decodes_interface_bytes) auto
    next
      case False
      then obtain vs ys where vs: "dt = TSlice TInterface" "dv = GList vs" "xs = [Lst ys]"
        using v it dt by (auto simp: isByte_def split: goval.split_asm)
      have "decodes (decodeListSlice (TSlice TInterface) (decodeSliceElems k TInterface)) vs xs s"
        using IH vs by (intro decodes_unmap [of GList]) (simp_all add: isByte_def inj_def)
      with in_front_Lst "2.prems"(4) vs show ?thesis
        unfolding Suc v vs by (intro decodes_interface_list) auto
    qed
  qed simp
next
  case (3 ts v)
  then show ?case
    by (cases f) (auto simp: big_item_def split: goval.split_asm intro!: decodes_big)
next
  case (4 n ts v)
  then show ?case
    by (cases f) (auto simp: decodeUint_def split: goval.split_asm intro!: decodes_wrap decodes_map decodes_uint)
next
  case (5 ts v)
  then show ?case
    by (cases f) (auto split: goval.split_asm intro!: decodes_bool)
next
  case (6 ts v)
  then show ?case
    by (cases f) (auto simp: decodeString_def split: goval.split_asm intro!: decodes_wrap decodes_map decodes_Bytes)
next
  case (7 et ts v)
  show ?case
  proof (cases f)
    case (Suc k)
    consider (bytes) b where "isByte et" "v = GBytes b" | (list) vs where "\<not> isByte et" "v = GList vs"
      using "7.prems"(2) by (auto split: goval.split_asm if_split_asm)
    then show ?thesis
    proof cases
      case bytes
      with "7.prems" Suc show ?thesis
        by (auto simp: decodeByteSlice_def intro!: decodes_wrap decodes_map decodes_Bytes)
    next
      case list
      with "7.prems" have t: "genTypeInfo et = Inr ()" and c: "list_all (canon et no_tags) vs" by simp_all
      show ?thesis
      proof (cases "tail ts")
        case True
        with list "7.prems" "7.IH"(1) [OF list True t c] Suc show ?thesis by (auto intro!: decodes_map)
      next
        case False
        with list "7.prems" obtain ys where ys: "elem_items et vs = Inr ys" "xs = [Lst ys]" by auto
        have "decodes (decodeSliceElems k et) vs ys s1" if "in_front ys rest s1" "list_end ys s1" for s1
          using "7.IH"(2) [OF list False t c ys(1) that] by simp
        then have "decodes (decodeListSlice (TSlice et) (decodeSliceElems k et)) vs xs s"
          using "7.prems"(4) canon_elems_nonempty [OF c t ys(1)] unfolding ys(2) by (intro decodes_slice)
        then show ?thesis using list False Suc by (simp add: decodes_map)
      qed
    qed
  qed simp
next
  case (8 n et ts v)
  then have nt: "\<not> tail ts" by (auto simp: is_slice_kind_def)
  show ?case
  proof (cases f)
    case (Suc k)
    consider (bytes) b where "isByte et" "v = GBytes b" | (list) vs where "\<not> isByte et" "v = GList vs"
      using "8.prems"(2) by (auto split: goval.split_asm if_split_asm)
    then show ?thesis
    proof cases
      case bytes
      with "8.prems" Suc show ?thesis by (auto intro!: decodes_byte_array)
    next
      case list
      with "8.prems" have t: "genTypeInfo et = Inr ()" and c: "list_all (canon et no_tags) vs" and n: "n = length vs"
        by simp_all
      from list nt "8.prems" obtain ys where ys: "elem_items et vs = Inr ys" "xs = [Lst ys]" by auto
      have "decodes (decodeArrayElems k (length vs) et) vs ys s1" if "in_front ys rest s1" "list_end ys s1" for s1
        using "8.IH"(2) [OF list nt t c ys(1) that] by simp
      then have "decodes (decodeListArray (TArray n et) n (decodeArrayElems k n et)) vs xs s"
        using "8.prems"(4) unfolding ys(2) n by (intro decodes_array)
      then show ?thesis using list Suc by (simp add: decodes_map)
    qed
  qed simp
next
  case (9 fs ts v)
  show ?case
  proof (cases f)
    case (Suc k)
    from "9.prems" obtain vs ys where v: "v = GList vs" and c: "canon_fields fs vs"
      and ys: "field_items fs vs = Inr ys" "xs = [Lst ys]" by (auto split: goval.split_asm)
    have "decodes (decodeFields k (TStruct fs) fs) vs ys s1" if "in_front ys rest s1" "list_end ys s1" for s1
      using "9.IH" [OF v _ c ys(1) that] "9.prems"(1) by simp
    then have "decodes (decodeStruct (TStruct fs) (decodeFields k (TStruct fs) fs)) vs xs s"
      using "9.prems"(4) unfolding ys(2) by (intro decodes_struct)
    then show ?thesis using v Suc by (simp add: decodes_map)
  qed simp
next
  case (10 et ts v)
  show ?case
  proof (cases f)
    case (Suc k)
    consider (nil) "v = GNil" "et \<noteq> TBig" "nilOK ts" "empty_encoding (items (TPtr et) ts GNil)"
      | (ptr) pv where "v = GPtr pv" "canon et no_tags pv" "et \<noteq> TBig \<and> nilOK ts \<longrightarrow> \<not> empty_encoding (items et no_tags pv)"
      using "10.prems"(2) by (auto simp del: items.simps split: goval.split_asm)
    then show ?thesis
    proof cases
      case nil
      with "10.prems" Suc show ?thesis by (auto simp del: items.simps intro: decodes_optional_nil)
    next
      case ptr
      from "10.prems"(1) have t: "genTypeInfo et = Inr ()" by simp
      from "10.prems"(3) ptr have it: "items et no_tags pv = Inr xs" by simp
      have IH: "decodes (decoder g et no_tags) pv xs s" for g
        using "10.IH"(2) [OF ptr(1) t ptr(2) it "10.prems"(4)] by simp
      have enc: "encodes xs" using canon_items(1) [OF ptr(2) t] it by simp
      show ?thesis
      proof (cases "et = TBig")
        case True
        with IH [of "Suc 0"] ptr Suc show ?thesis by (simp add: decodes_map)
      next
        case False
        with IH decodes_optional_ptr [OF "10.prems"(4) enc _ IH t] ptr it Suc show ?thesis
          by (auto simp: decodes_map)
      qed
    qed
  qed simp
next
  case (11 ts v)
  then show ?case by simp
next
  case (12 et)
  then show ?case
    using elems_at_end by (cases f) (auto intro: decodes_return simp del: decodeSliceElems.simps)
next
  case (13 et v vs)
  from "13.prems" obtain ys zs where it: "items et no_tags v = Inr ys" "elem_items et vs = Inr zs" "xs = ys @ zs"
    by (auto split: sum.split_asm)
  have d: "decodes (decoder g et no_tags) v ys s" for g
    using "13.IH"(1) [OF "13.prems"(1) _ it(1) in_front_append] "13.prems" it by simp
  have IH: "decodes (decodeSliceElems g et) vs zs s1 \<and> decodes (decodeArrayElems g (length vs) et) vs zs s1"
    if "in_front zs rest s1" "list_end zs s1" for g s1
    using "13.IH"(2) [OF it(1) "13.prems"(1) _ it(2) that] "13.prems"(2) by simp
  have "decodes (decodeSliceElems f et) (v # vs) xs s"
    using d "13.prems"(4,5) IH unfolding it(3) by (cases f) (auto intro!: decodes_loop)
  moreover have "decodes (decodeArrayElems f (length (v # vs)) et) (v # vs) xs s"
    using d "13.prems"(4,5) IH unfolding it(3) by (cases f) (auto intro!: decodes_loop)
  ultimately show ?case by blast
next
  case (14 vs)
  then show ?case by (cases f) (auto intro: decodes_return)
next
  case (15 ts t fs)
  then show ?case by simp
next
  case (16 ts t fs v vs)
  from "16.prems" obtain ys zs where it: "items t ts v = Inr ys" "field_items fs vs = Inr zs" "xs = ys @ zs"
    by (auto split: sum.split_asm)
  note sf = structFields_ok [OF "16.prems"(1)]
  have tail: "is_slice_kind t \<and> zs = []" if "tail ts"
    using that "16.prems"(1) it sf by (auto simp: parseStructTag_def split: sum.split_asm if_split_asm)
  have d: "decodes (decoder g t ts) v ys s" for g
  proof (rule "16.IH"(1) [OF _ _ it(1)])
    show "in_front ys (rlps zs @ rest) s" using "16.prems"(4) unfolding it(3) by (rule in_front_append)
    show "is_slice_kind t \<and> list_end ys s" if "tail ts" using tail [OF that] "16.prems"(5) it(3) by simp
  qed (use sf "16.prems"(2) in simp_all)
  have IH: "decodes (decodeFields g styp' fs) vs zs s1" if "in_front zs rest s1" "list_end zs s1" for g s1
    using "16.IH"(2) [OF it(1) _ _ it(2) that] "16.prems"(2) sf by auto
  show ?case
    using d "16.prems"(4,5) IH unfolding it(3) by (cases f) (auto intro!: decodes_loop)
qed


lemma EncodeToBytes_items:
  assumes "genTypeInfo t = Inr ()" "items t no_tags v = Inr xs" "length (rlps xs) < 2 ^ 64"
  shows "EncodeToBytes t v = Inr (rlps xs)"
  using assms fits_rlps [OF assms(3)] by (simp add: EncodeToBytes_def writer_items(1) toBytes_add_items)

lemma DecodeBytes_roundtrip:
  assumes "canon t no_tags v" "returning t" "genTypeInfo t = Inr ()"
    "items t no_tags v = Inr xs" "length (rlps xs) < 2 ^ 64" "decode_fuel t (length (rlps xs)) \<le> f"
  shows "EncodeToBytes t v = Inr (rlps xs) \<and> DecodeBytes f (rlps xs) t = Inr v"
proof -
  define s where "s = NewStream (rlps xs) True (of_nat (length (rlps xs)))"
  have s: "kinderr s \<noteq> Some OutOfFuel" "ahead s = length (rlps xs)"
    by (simp_all add: s_def NewStream_def Reset_def ahead_def)
  have front: "in_front xs [] s"
    using assms(5) by (simp add: s_def NewStream_def Reset_def in_front_def room_def)
  have d: "decodes (decoder f t no_tags) v xs s"
    using decoder_decodes(1) [OF assms(3,1,4) front] by simp
  have "steady True (decoder f t no_tags) s"
    using decoder_fuel [of t s f no_tags] assms s by simp
  then have "fst (decoder f t no_tags s) \<noteq> Inl OutOfFuel" using s(1) by (simp add: steady_def)
  with d obtain s' where s': "decoder f t no_tags s = (Inr v, s')" "moved (length (rlps xs)) s s'"
    by (auto simp: decodes_def)
  have "input s' = []" using s'(2) front by (simp add: moved_def in_front_def)
  with s'(1) assms(3) have "DecodeBytes f (rlps xs) t = Inr v"
    by (simp add: DecodeBytes_def Stream_Decode_def s_def)
  with EncodeToBytes_items [OF assms(3-5)] show ?thesis by simp
qed

text \<open>
  C11. Decoding inverts encoding: a canonical value of a serializable type is encoded without error, and
  \<open>DecodeBytes\<close> reads the encoding back as the same value, within the stated fuel.
\<close>

theorem DecodeBytes_EncodeToBytes:
  assumes "canon t no_tags v" "returning t" "genTypeInfo t = Inr ()"
    "items t no_tags v = Inr xs" "length (rlps xs) < 2 ^ 64" "decode_fuel t (length (rlps xs)) \<le> f"
  shows "EncodeToBytes t v = Inr (rlps xs) \<and> DecodeBytes f (rlps xs) t = Inr v"
  using assms by (rule DecodeBytes_roundtrip)

theorem DecodeBytes_EncodeToBytes_witness:
  "DecodeBytes 200 [0xC6, 0x82, 4, 0, 0x82, 1, 2]
     (TStruct [(no_tags, TUint 64), (no_tags, TPtr (TSlice (TUint 8)))]) =
   Inr (GList [GUint 1024, GPtr (GBytes [1, 2])])"
proof -
  let ?t = "TStruct [(no_tags, TUint 64), (no_tags, TPtr (TSlice (TUint 8)))]"
  let ?v = "GList [GUint 1024, GPtr (GBytes [1, 2])]"
  have it: "items ?t no_tags ?v = Inr [Lst [Str [4, 0], Str [1, 2]]]"
    by (simp add: isByte_def nat_bytes.simps)
  have enc: "rlps [Lst [Str [4, 0], Str [1, 2]]] = [0xC6, 0x82, 4, 0, 0x82, 1, 2]"
    by (simp add: rlps_def rlp_lst_def rlp_str_def puthead_def)
  have g: "genTypeInfo ?t = Inr ()" by (simp add: parseStructTag_def no_tags_def isByte_def)
  have c: "canon ?t no_tags ?v" by (simp add: isByte_def no_tags_def)
  have r: "returning ?t" by (simp add: isByte_def)
  show ?thesis
    using DecodeBytes_EncodeToBytes [OF c r g it, of 200] by (simp add: enc decode_fuel_def)
qed

text \<open>
  C25. \<open>Stream.Raw\<close> rebuilds the header of a string with the wrong tag base (\<open>0xB8\<close> instead of
  \<open>0xB7\<close>): a raw value of 56 or more bytes of content is returned with a header that does not
  belong to it. For every string of that size the bytes returned differ from the bytes read.
\<close>

theorem Raw_long_string_corrupted:
  assumes "56 \<le> length c" "s = NewStream (rlp_str c @ rest) True 0" "length (rlp_str c @ rest) < 2 ^ 64"
  shows "\<exists>raw s'. Raw s = (Inr raw, s') \<and> raw \<noteq> rlp_str c \<and> length raw = length (rlp_str c)"
proof -
  have enc: "rlp_str c = reencode KString c" by (simp add: reencode_def)
  have kind: "kind_of KString c" using assms(1) by (auto simp: kind_of_def)
  have "at_value KString c rest s"
    using assms(2,3) kind
    by (simp add: at_value_def NewStream_def Reset_def room_def enc flip: of_nat_add)
  from Kind_value [OF this] obtain s1 where K: "Kind s = (Inr (KString, of_nat (length c)), s1)"
    and i: "input s1 = c @ rest" and r: "room (length c) s1"
    by (auto simp: ksize_def body_def)
  from readFull_room [OF r] i obtain s2 where f: "readFull (of_nat (length c)) s1 = (Inr c, s2)" by auto
  have "length c < 2 ^ 64" using r by (simp add: room_def)
  note large = puthead_large [OF assms(1) this]
  have raw: "Raw s = (Inr (puthead 0x80 0xB8 (of_nat (length c)) @ c), s2)"
    using K f by (simp add: Raw_def dbind_def dreturn_def)
  have "rlp_str c = puthead 0x80 0xB7 (of_nat (length c)) @ c" using assms(1) by (auto simp: rlp_str_def)
  with raw show ?thesis by (simp add: large)
qed

theorem Raw_long_string_corrupted_witness:
  "\<exists>raw s'. Raw (NewStream (rlp_str (replicate 60 1)) True 0) = (Inr raw, s') \<and>
     raw \<noteq> rlp_str (replicate 60 1)"
proof -
  have "length (rlp_str (replicate 60 (1 :: byte))) < 2 ^ 64"
    by (simp add: rlp_str_def puthead_def Let_def putint_def)
  with Raw_long_string_corrupted [of "replicate 60 1" "NewStream (rlp_str (replicate 60 1)) True 0" "[]"]
  show ?thesis by auto
qed

end
