(* ===== verification/Trie_Spec.thy ===== *)
theory Trie_Spec
  imports Trie_Encoding
begin

text \<open>
  What a Merkle Patricia trie stands for: a plain trie without hashes and caches, as a finite map
  from keys to values. The well-formed tries are the minimal ones; the lemmas show that insertion and
  deletion keep them minimal and change the map at one key only, and that a
  well-formed trie is determined by its map.
\<close>

section \<open>Plain tries\<close>

datatype ptrie = PNil | PVal bytes | PShort nibbles ptrie | PFull "ptrie list"

lemma size_nth_ptrie: "i < length ps \<Longrightarrow> size (ps ! i) < Suc (size_list size ps)" for ps :: "ptrie list"
  by (rule le_imp_less_Suc, rule size_list_estimation' [OF nth_mem order_refl])

function plookup :: "ptrie \<Rightarrow> nibbles \<Rightarrow> bytes option" where
  "plookup PNil key = None"
| "plookup (PVal v) key = (if key = [] then Some v else None)"
| "plookup (PShort k p) key = (if take (length k) key = k then plookup p (drop (length k) key) else None)"
| "plookup (PFull ps) key =
     (if key \<noteq> [] \<and> unat (hd key) < length ps then plookup (ps ! unat (hd key)) (tl key) else None)"
  by pat_completeness auto
termination
  by (relation "measures [\<lambda>(p, key). size p]") (auto intro: size_nth_ptrie)

fun is_val :: "ptrie \<Rightarrow> bool" where
  "is_val (PVal v) \<longleftrightarrow> v \<noteq> []"
| "is_val _ \<longleftrightarrow> False"

fun is_full :: "ptrie \<Rightarrow> bool" where
  "is_full (PFull ps) \<longleftrightarrow> True"
| "is_full _ \<longleftrightarrow> False"

definition nonnil :: "ptrie list \<Rightarrow> nat list" where
  "nonnil ps = filter (\<lambda>i. ps ! i \<noteq> PNil) [0..<length ps]"

fun wfp :: "ptrie \<Rightarrow> bool" where
  \<comment> \<open>minimal non-empty tries\<close>
  "wfp PNil \<longleftrightarrow> False"
| "wfp (PVal v) \<longleftrightarrow> False"
| "wfp (PShort k p) \<longleftrightarrow> (is_key k \<and> is_val p) \<or> (k \<noteq> [] \<and> is_nibbles k \<and> is_full p \<and> wfp p)"
| "wfp (PFull ps) \<longleftrightarrow> length ps = 17 \<and> (\<forall>p \<in> set ps. p = PNil \<or> is_val p \<or> wfp p) \<and>
     (\<forall>i < 16. \<not> is_val (ps ! i)) \<and> (ps ! 16 = PNil \<or> is_val (ps ! 16)) \<and> 2 \<le> length (nonnil ps)"


text \<open>
  Insertion and deletion, on the shapes the code distinguishes. A deletion also says whether it
  changed anything.
\<close>

definition pshort :: "nibbles \<Rightarrow> ptrie \<Rightarrow> ptrie" where
  "pshort k p = (if k = [] then p else PShort k p)"

definition pbranch :: "nibbles \<Rightarrow> ptrie \<Rightarrow> nibbles \<Rightarrow> ptrie \<Rightarrow> ptrie" where
  \<comment> \<open>a full node with two entries that differ in their first nibble\<close>
  "pbranch k p k' p' = PFull ((replicate 17 PNil)[unat (hd k) := pshort (tl k) p, unat (hd k') := pshort (tl k') p'])"

function pinsert :: "ptrie \<Rightarrow> nibbles \<Rightarrow> ptrie \<Rightarrow> ptrie" where
  "pinsert p key v =
     (if key = [] then v
      else case p of
        PNil \<Rightarrow> PShort key v
      | PVal w \<Rightarrow> PVal w
      | PShort k c \<Rightarrow>
          (let m = prefixLen key k
           in if m = length k then PShort k (pinsert c (drop m key) v)
              else pshort (take m key) (pbranch (drop m k) c (drop m key) v))
      | PFull ps \<Rightarrow>
          if unat (hd key) < length ps
          then PFull (ps[unat (hd key) := pinsert (ps ! unat (hd key)) (tl key) v])
          else p)"
  by pat_completeness auto
termination
  by (relation "measure (\<lambda>(p, key, v). size p)") (auto intro: size_nth_ptrie)

declare pinsert.simps [simp del]

definition pmerge :: "nibbles \<Rightarrow> ptrie \<Rightarrow> ptrie" where
  \<comment> \<open>a short node in front of a trie, merged with a short node there\<close>
  "pmerge k p = (case p of PShort ck cv \<Rightarrow> PShort (k @ ck) cv | _ \<Rightarrow> PShort k p)"

definition pcollapse :: "ptrie list \<Rightarrow> ptrie" where
  \<comment> \<open>a full node, reduced to a short node when only one entry is left\<close>
  "pcollapse ps =
     (case nonnil ps of
        [i] \<Rightarrow> pmerge [of_nat i] (ps ! i)
      | _ \<Rightarrow> PFull ps)"

function pdelete :: "ptrie \<Rightarrow> nibbles \<Rightarrow> bool \<times> ptrie" where
  "pdelete PNil key = (False, PNil)"
| "pdelete (PVal v) key = (True, PNil)"
| "pdelete (PShort k c) key =
     (let m = prefixLen key k
      in if m < length k then (False, PShort k c)
         else if m = length key then (True, PNil)
         else (case pdelete c (drop (length k) key) of
                 (d, c') \<Rightarrow> if d then (True, pmerge k c') else (False, PShort k c)))"
| "pdelete (PFull ps) key =
     (if key \<noteq> [] \<and> unat (hd key) < length ps
      then (case pdelete (ps ! unat (hd key)) (tl key) of
              (d, c') \<Rightarrow> if d then (True, pcollapse (ps[unat (hd key) := c'])) else (False, PFull ps))
      else (False, PFull ps))"
  by pat_completeness auto
termination
  by (relation "measure (\<lambda>(p, key). size p)") (auto intro: size_nth_ptrie)


section \<open>Keys\<close>

lemma is_key_Cons: "is_key (x # xs) \<longleftrightarrow> (x = 16 \<and> xs = []) \<or> (x < 16 \<and> is_key xs)"
  by (auto simp: is_key_def is_nibbles_def)

lemma is_key_nibbles: "is_nibbles a \<Longrightarrow> is_key (a @ b) \<longleftrightarrow> is_key b"
  by (induction a) (auto simp: is_key_Cons is_nibbles_def)

lemma is_key_append: "is_key a \<Longrightarrow> is_key (a @ b) \<longleftrightarrow> b = []"
  by (induction a) (auto simp: is_key_Cons, auto simp: is_key_def)

lemma not_is_key_Nil [simp]: "\<not> is_key []"
  by (simp add: is_key_def)

lemma is_nibbles_simps [simp]: "is_nibbles []" "is_nibbles (x # xs) \<longleftrightarrow> x < 16 \<and> is_nibbles xs"
  "is_nibbles (xs @ ys) \<longleftrightarrow> is_nibbles xs \<and> is_nibbles ys"
  by (simp_all add: is_nibbles_def)

lemma is_key_not_nibbles: "is_key k \<Longrightarrow> \<not> is_nibbles k"
  by (induction k) (auto simp: is_key_Cons)

lemma is_key_split:
  "is_key k \<Longrightarrow> m < length k \<Longrightarrow> is_nibbles (take m k) \<and> is_key (drop m k)"
  by (induction k arbitrary: m) (auto simp: is_key_Cons take_Cons' drop_Cons')

definition fits_key :: "ptrie \<Rightarrow> nibbles \<Rightarrow> bool" where
  \<comment> \<open>the shapes that are met along a whole key\<close>
  "fits_key p key \<longleftrightarrow> (key = [] \<and> (p = PNil \<or> is_val p)) \<or> (is_key key \<and> (p = PNil \<or> wfp p))"

lemma is_val_cases: "is_val p \<Longrightarrow> \<exists>v. p = PVal v \<and> v \<noteq> []"
  by (cases p) auto

lemma is_full_cases: "is_full p \<Longrightarrow> \<exists>ps. p = PFull ps"
  by (cases p) auto

lemma fits_short:
  assumes "wfp (PShort k c)" "is_key (k @ r)"
  shows "fits_key c r \<and> c \<noteq> PNil"
  using assms is_key_append [of k r] is_key_nibbles [of k r] by (auto simp: fits_key_def)

lemma unat_key_le: "x \<le> 16 \<Longrightarrow> unat (x :: byte) \<le> 16"
  by (simp add: word_le_unat)

lemma fits_full:
  assumes "wfp (PFull ps)" "is_key (x # xs)"
  shows "unat x < length ps \<and> fits_key (ps ! unat x) xs"
proof (cases "x = 16")
  case True
  with assms show ?thesis by (auto simp: is_key_Cons fits_key_def)
next
  case False
  then have x: "unat x < 16" "is_key xs" using assms(2) by (auto simp: is_key_Cons word_less_unat)
  with assms(1) have "ps ! unat x \<in> set ps" "\<not> is_val (ps ! unat x)" by simp_all
  with assms(1) x show ?thesis by (auto simp: fits_key_def)
qed

lemma nonnil_set: "set (nonnil ps) = {i. i < length ps \<and> ps ! i \<noteq> PNil}" "distinct (nonnil ps)" "sorted (nonnil ps)"
  by (auto simp: nonnil_def sorted_wrt_filter)

lemma nonnil_two: "2 \<le> length (nonnil ps) \<longleftrightarrow> (\<exists>i j. i < length ps \<and> j < length ps \<and> i \<noteq> j \<and> ps ! i \<noteq> PNil \<and> ps ! j \<noteq> PNil)"
proof -
  have "2 \<le> length (nonnil ps) \<longleftrightarrow> 2 \<le> card (set (nonnil ps))"
    using nonnil_set(2) [of ps] by (simp add: distinct_card)
  also have "\<dots> \<longleftrightarrow> (\<exists>i \<in> set (nonnil ps). \<exists>j \<in> set (nonnil ps). i \<noteq> j)"
    by (metis List.finite_set One_nat_def Suc_1 card_le_Suc0_iff_eq not_less_eq_eq)
  finally show ?thesis by (auto simp: nonnil_set)
qed


section \<open>Insertion\<close>

lemma plookup_pshort: "plookup (pshort k p) key = (if take (length k) key = k then plookup p (drop (length k) key) else None)"
  by (simp add: pshort_def)

lemma wfp_drop: "wfp (PShort k c) \<Longrightarrow> m < length k \<Longrightarrow> wfp (PShort (drop m k) c)"
  using is_key_split [of k m] by (auto simp: is_nibbles_def list_all_iff dest: in_set_dropD)

lemma wfp_take: "wfp (PShort k c) \<Longrightarrow> m < length k \<Longrightarrow> is_nibbles (take m k)"
  using is_key_split [of k m] by (auto simp: is_nibbles_def list_all_iff dest: in_set_takeD)

lemma wfp_entry:
  "wfp (PShort (x # xs) c) \<Longrightarrow>
   (x = 16 \<and> is_val (pshort xs c)) \<or> (x < 16 \<and> wfp (pshort xs c))"
  by (auto simp: is_key_Cons pshort_def)

lemma wfp_not_nil: "wfp p \<Longrightarrow> p \<noteq> PNil" "is_val p \<Longrightarrow> p \<noteq> PNil" "wfp p \<Longrightarrow> \<not> is_val p"
  by (cases p; simp)+

lemma wfp_pbranch:
  assumes "wfp (PShort (a # as) c)" "wfp (PShort (b # bs) d)" "a \<noteq> b"
  shows "wfp (pbranch (a # as) c (b # bs) d)"
proof -
  define e where "e = pshort as c"
  define f where "f = pshort bs d"
  have e: "(a = 16 \<and> is_val e) \<or> (a < 16 \<and> wfp e)" using wfp_entry [OF assms(1)] by (simp add: e_def)
  have f: "(b = 16 \<and> is_val f) \<or> (b < 16 \<and> wfp f)" using wfp_entry [OF assms(2)] by (simp add: f_def)
  have ab: "unat a \<noteq> unat b" using assms(3) by (simp add: word_unat_eq_iff)
  have le: "unat a \<le> 16" "unat b \<le> 16" using e f by (auto intro!: unat_key_le)
  let ?ps = "(replicate 17 PNil)[unat a := e, unat b := f]"
  have nth: "?ps ! i = (if i = unat b then f else if i = unat a then e else PNil)" if "i < 17" for i
    using that le by (auto simp: nth_list_update)
  have "e \<noteq> PNil" "f \<noteq> PNil" using e f wfp_not_nil by auto
  then have two: "2 \<le> length (nonnil ?ps)"
    using ab le nth by (simp add: nonnil_two) (metis le_imp_less_Suc nth numeral_eq_Suc pred_numeral_simps(3) semiring_norm(26,27,28))
  have un: "unat (16 :: byte) = 16" "x < (16 :: byte) \<Longrightarrow> unat x < 16" for x :: byte by (simp_all add: word_less_unat)
  have "(\<forall>p \<in> set ?ps. p = PNil \<or> is_val p \<or> wfp p)"
    using e f by (auto dest!: set_update_subset_insert [THEN subsetD])
  moreover have "\<forall>i < 16. \<not> is_val (?ps ! i)"
    using e f un nth wfp_not_nil(3) by auto
  moreover have "?ps ! 16 = PNil \<or> is_val (?ps ! 16)"
    using e f un(1) un(2) [of a] un(2) [of b] nth [of 16] by auto
  ultimately show ?thesis using two by (simp add: pbranch_def e_def f_def)
qed

lemma plookup_pbranch:
  assumes "a \<noteq> b" "unat a < 17" "unat b < 17"
  shows "plookup (pbranch (a # as) c (b # bs) d) key =
    (case key of [] \<Rightarrow> None
     | x # xs \<Rightarrow> if x = a then plookup (pshort as c) xs else if x = b then plookup (pshort bs d) xs else None)"
proof -
  have "unat a \<noteq> unat b" using assms(1) by (simp add: word_unat_eq_iff)
  then show ?thesis using assms
    by (auto simp: pbranch_def nth_list_update word_unat_eq_iff split: list.split)
qed

lemma prefixLen_fork: "a \<noteq> b \<Longrightarrow> prefixLen (q @ b # bs) (q @ a # as) = length q"
  by (induction q) auto

lemma short_fork:
  assumes "wfp (PShort k c)" "is_key key" "prefixLen key k \<noteq> length k"
  obtains q a as b bs where "k = q @ a # as" "key = q @ b # bs" "a \<noteq> b" "is_nibbles q"
    "wfp (PShort (a # as) c)" "is_key (b # bs)" "unat a < 17" "unat b < 17"
proof -
  define m where "m = prefixLen key k"
  have mk: "m < length k" using assms(3) prefixLen_le(2) [of key k] by (simp add: m_def)
  have eq: "take m key = take m k" using prefixLen_take by (simp add: m_def)
  have nib: "is_nibbles (take m k)" using wfp_take [OF assms(1) mk] .
  have "m \<noteq> length key" using is_key_not_nibbles [OF assms(2)] nib eq by auto
  then have mkey: "m < length key" using prefixLen_le(1) [of key k] by (simp add: m_def)
  have ne: "k ! m \<noteq> key ! m" using prefixLen_nth mk mkey by (metis m_def)
  have k: "k = take m k @ k ! m # drop (Suc m) k" and key: "key = take m k @ key ! m # drop (Suc m) key"
    using mk mkey eq id_take_nth_drop by metis+
  have w: "wfp (PShort (k ! m # drop (Suc m) k) c)"
    using wfp_drop [OF assms(1) mk] mk by (simp add: Cons_nth_drop_Suc)
  have ik: "is_key (key ! m # drop (Suc m) key)"
    using is_key_split [OF assms(2) mkey] mkey by (simp add: Cons_nth_drop_Suc)
  have "unat (k ! m) < 17" "unat (key ! m) < 17"
    using w ik by (auto simp: is_key_Cons word_less_unat)
  with k key ne nib w ik show thesis by (intro that)
qed

lemma pinsert_fork:
  "a \<noteq> b \<Longrightarrow> pinsert (PShort (q @ a # as) c) (q @ b # bs) v = pshort q (pbranch (a # as) c (b # bs) v)"
  by (simp add: pinsert.simps [of "PShort (q @ a # as) c"] prefixLen_fork)

lemma pinsert_short:
  "is_key (k @ r) \<Longrightarrow> k \<noteq> [] \<Longrightarrow> pinsert (PShort k c) (k @ r) v = PShort k (pinsert c r v)"
  using prefixLen_whole [of "k @ r" k] by (simp add: pinsert.simps [of "PShort k c"])

lemma pinsert_full:
  "unat x < length ps \<Longrightarrow> pinsert (PFull ps) (x # xs) v = PFull (ps[unat x := pinsert (ps ! unat x) xs v])"
  by (simp add: pinsert.simps [of "PFull ps"])

lemma pinsert_Nil: "pinsert p [] v = v" "pinsert PNil (x # xs) v = PShort (x # xs) v"
  by (simp_all add: pinsert.simps)

lemma fits_cases:
  assumes "fits_key p key"
  obtains "key = []" | x xs where "p = PNil" "key = x # xs" "is_key key"
    | k c r where "p = PShort k c" "key = k @ r" "wfp p" "is_key key" "k \<noteq> []" "fits_key c r" "c \<noteq> PNil"
    | q a as b bs c where "p = PShort (q @ a # as) c" "key = q @ b # bs" "a \<noteq> b" "is_nibbles q" "wfp p" "is_key key"
        "wfp (PShort (a # as) c)" "is_key (b # bs)" "unat a < 17" "unat b < 17"
    | ps x xs where "p = PFull ps" "key = x # xs" "wfp p" "is_key key" "unat x < length ps" "fits_key (ps ! unat x) xs"
proof (cases "key = []")
  case False
  then obtain x xs where x: "key = x # xs" by (cases key) auto
  have ik: "is_key key" using assms False by (simp add: fits_key_def)
  show thesis
  proof (cases p)
    case (PShort k c)
    then have w: "wfp (PShort k c)" using assms False by (simp add: fits_key_def)
    show thesis
    proof (cases "prefixLen key k = length k")
      case True
      then obtain r where r: "key = k @ r" by (auto simp: prefixLen_whole)
      have "k \<noteq> []" using w by auto
      then show thesis using that(3) [OF PShort r] fits_short [OF w, of r] w ik r PShort by auto
    next
      case False
      from short_fork [OF w ik False] show thesis using that(4) w ik PShort by metis
    qed
  next
    case (PFull ps)
    then show thesis using that(5) [OF PFull x] fits_full [of ps x xs] assms ik x by (auto simp: fits_key_def)
  qed (use that assms False x ik in \<open>auto simp: fits_key_def\<close>)
qed

definition entry_ok :: "nat \<Rightarrow> ptrie \<Rightarrow> bool" where
  "entry_ok i p \<longleftrightarrow> p = PNil \<or> (if i < 16 then wfp p else is_val p)"

lemma entries_ok:
  assumes "length ps = 17"
  shows "(\<forall>p \<in> set ps. p = PNil \<or> is_val p \<or> wfp p) \<and> (\<forall>i < 16. \<not> is_val (ps ! i)) \<and>
    (ps ! 16 = PNil \<or> is_val (ps ! 16)) \<longleftrightarrow> (\<forall>i < 17. entry_ok i (ps ! i))" (is "?l \<longleftrightarrow> ?r")
proof
  assume l: ?l
  show ?r
  proof (intro allI impI)
    fix i :: nat
    assume "i < 17"
    then have "ps ! i \<in> set ps" "i < 16 \<or> i = 16" using assms by auto
    with l show "entry_ok i (ps ! i)" by (auto simp: entry_ok_def simp del: wfp.simps)
  qed
next
  assume r: ?r
  then have "entry_ok 16 (ps ! 16)" "\<forall>i < 16. entry_ok i (ps ! i)" by simp_all
  moreover have "\<forall>p \<in> set ps. p = PNil \<or> is_val p \<or> wfp p"
    using r assms by (metis entry_ok_def in_set_conv_nth)
  ultimately show ?l using wfp_not_nil(3) by (auto simp: entry_ok_def simp del: wfp.simps)
qed

lemma wfp_full: "wfp (PFull ps) \<longleftrightarrow> length ps = 17 \<and> (\<forall>i < 17. entry_ok i (ps ! i)) \<and> 2 \<le> length (nonnil ps)"
  unfolding wfp.simps using entries_ok by blast

declare wfp.simps(4) [simp del]

lemma wfp_full_length: "wfp (PFull ps) \<Longrightarrow> length ps = 17"
  by (simp add: wfp_full)

lemma is_key_entry: "is_key (x # xs) \<Longrightarrow> fits_key p xs \<longleftrightarrow> entry_ok (unat x) p"
  by (auto simp: is_key_Cons fits_key_def entry_ok_def word_less_unat dest: wfp_not_nil)

lemma wfp_full_update:
  assumes "wfp (PFull ps)" "entry_ok i p" "p \<noteq> PNil" "i < 17"
  shows "wfp (PFull (ps[i := p]))"
proof -
  obtain a b where ab: "a < 17" "b < 17" "a \<noteq> b" "ps ! a \<noteq> PNil" "ps ! b \<noteq> PNil"
    using assms(1) by (auto simp: wfp_full nonnil_two)
  then have "ps[i := p] ! a \<noteq> PNil" "ps[i := p] ! b \<noteq> PNil"
    using assms by (auto simp: wfp_full nth_list_update)
  with ab assms show ?thesis
    by (auto simp: wfp_full nonnil_two nth_list_update)
qed

lemma is_full_pbranch [simp]: "is_full (pbranch k c k' c')"
  by (simp add: pbranch_def)

lemma wfp_pshort_full: "is_nibbles q \<Longrightarrow> is_full p \<Longrightarrow> wfp p \<Longrightarrow> wfp (pshort q p)"
  by (simp add: pshort_def)

lemma wfp_pshort_nonnil: "wfp p \<Longrightarrow> pshort q p \<noteq> PNil"
  by (auto simp: pshort_def)

lemma wfp_short_replace:
  assumes "wfp (PShort k c)" "is_key (k @ r)" "fits_key c' r" "c' \<noteq> PNil" "is_full c \<and> r \<noteq> [] \<longrightarrow> is_full c'"
  shows "wfp (PShort k c')"
proof (cases "is_key k")
  case True
  then have "r = []" using is_key_append assms(2) by blast
  then show ?thesis using True assms(3,4) by (simp add: fits_key_def)
next
  case False
  then have k: "k \<noteq> []" "is_nibbles k" "is_full c" using assms(1) by auto
  then have "is_key r" using is_key_nibbles assms(2) by blast
  with k assms(3,4,5) show ?thesis by (auto simp: fits_key_def)
qed

lemma pinsert_wfp:
  assumes "v \<noteq> []"
  shows "fits_key p key \<Longrightarrow> fits_key (pinsert p key (PVal v)) key \<and> pinsert p key (PVal v) \<noteq> PNil \<and>
    (is_full p \<and> key \<noteq> [] \<longrightarrow> is_full (pinsert p key (PVal v)))"
proof (induction p arbitrary: key)
  case PNil
  then show ?case using assms by (auto simp: pinsert.simps fits_key_def)
next
  case (PVal w)
  then show ?case using assms by (auto simp: pinsert.simps fits_key_def)
next
  case (PShort k c)
  from PShort.prems show ?case
  proof (cases rule: fits_cases)
    case (3 k' c' r)
    then have "wfp (PShort k (pinsert c r (PVal v)))"
      using PShort.IH [of r] wfp_short_replace [of k c r "pinsert c r (PVal v)"] by simp
    with 3 show ?thesis by (simp add: pinsert_short fits_key_def [of "PShort _ _"])
  next
    case (4 q a as b bs c')
    then have "wfp (pbranch (a # as) c (b # bs) (PVal v))"
      using wfp_pbranch [of a as c b bs "PVal v"] assms by simp
    with 4 show ?thesis
      using wfp_pshort_full [of q] wfp_pshort_nonnil by (simp add: pinsert_fork fits_key_def)
  qed (use assms in \<open>simp_all add: pinsert_Nil fits_key_def\<close>)
next
  case (PFull ps)
  from PFull.prems show ?case
  proof (cases rule: fits_cases)
    case (5 qs x xs)
    then have len: "length ps = 17" and "fits_key (pinsert (ps ! unat x) xs (PVal v)) xs \<and> pinsert (ps ! unat x) xs (PVal v) \<noteq> PNil"
      using PFull.IH [of "ps ! unat x" xs] wfp_full_length [of ps] by simp_all
    with 5 show ?thesis
      using wfp_full_update [of ps "unat x" "pinsert (ps ! unat x) xs (PVal v)"]
      by (simp add: pinsert_full is_key_entry fits_key_def [of "PFull _"])
  qed (use assms in \<open>simp_all add: pinsert_Nil fits_key_def\<close>)
qed

lemma plookup_pinsert:
  assumes "v \<noteq> []"
  shows "fits_key p key \<Longrightarrow> plookup (pinsert p key (PVal v)) key' = (if key' = key then Some v else plookup p key')"
proof (induction p arbitrary: key key')
  case PNil
  then show ?case using assms
    by (auto simp: pinsert.simps)
next
  case (PVal w)
  then show ?case using assms by (auto simp: pinsert.simps fits_key_def)
next
  case (PShort k c)
  from PShort.prems show ?case
  proof (cases rule: fits_cases)
    case (3 k' c' r)
    have "key' = k @ r \<longleftrightarrow> take (length k) key' = k \<and> drop (length k) key' = r"
      by (metis append_eq_conv_conj)
    with 3 PShort.IH [of r] show ?thesis by (simp add: pinsert_short)
  next
    case (4 q a as b bs c')
    show ?thesis
    proof (cases "take (length q) key' = q")
      case True
      then obtain s where s: "key' = q @ s" by (metis append_take_drop_id)
      have "take (length bs) xs = bs \<and> drop (length bs) xs = [] \<longleftrightarrow> xs = bs" for xs :: bytes
        by (metis append_Nil2 append_eq_conv_conj append_take_drop_id)
      with s 4 show ?thesis
        by (auto simp: pinsert_fork plookup_pshort plookup_pbranch split: list.split)
    next
      case False
      moreover from this have "key' \<noteq> q @ b # bs" "take (length (q @ a # as)) key' \<noteq> q @ a # as"
        by (auto simp: take_add split: if_split_asm) (metis append_eq_conv_conj append_take_drop_id append.assoc length_append)
      ultimately show ?thesis using 4 by (simp add: pinsert_fork plookup_pshort)
    qed
  qed (use assms PShort.prems in \<open>auto simp: pinsert_Nil fits_key_def\<close>)
next
  case (PFull ps)
  from PFull.prems show ?case
  proof (cases rule: fits_cases)
    case (5 qs x xs)
    with PFull.IH [of "ps ! unat x" xs] show ?thesis
      by (cases key') (auto simp: pinsert_full nth_list_update word_unat_eq_iff)
  qed (use assms PFull.prems in \<open>auto simp: pinsert_Nil fits_key_def\<close>)
qed

section \<open>Deletion\<close>

lemma take_append_iff: "take (length a + length b) k = a @ b \<longleftrightarrow> take (length a) k = a \<and> take (length b) (drop (length a) k) = b"
proof (cases "length a \<le> length k")
  case True
  then show ?thesis by (simp add: take_add append_eq_append_conv)
next
  case False
  then show ?thesis by (auto dest: arg_cong [of _ _ length])
qed

lemma plookup_pmerge: "plookup (pmerge k p) key = plookup (PShort k p) key"
proof (cases p)
  case (PShort ck cv)
  then show ?thesis using take_append_iff [of k ck key] by (simp add: pmerge_def add.commute)
qed (simp_all add: pmerge_def)

lemma wfp_pmerge: "is_nibbles k \<Longrightarrow> k \<noteq> [] \<Longrightarrow> wfp p \<Longrightarrow> wfp (pmerge k p)"
  by (cases p) (auto simp: pmerge_def is_key_nibbles)

lemma nonnil_single:
  assumes "nonnil ps = [i]"
  shows "i < length ps" "ps ! i \<noteq> PNil" "j < length ps \<Longrightarrow> j \<noteq> i \<Longrightarrow> ps ! j = PNil"
  using nonnil_set(1) [of ps] assms by auto

lemma plookup_pcollapse:
  assumes "length ps = 17"
  shows "plookup (pcollapse ps) key = plookup (PFull ps) key"
proof (cases "\<exists>i. nonnil ps = [i]")
  case True
  then obtain i where i: "nonnil ps = [i]" by blast
  have u: "unat (of_nat i :: byte) = i" using nonnil_single(1) [OF i] assms by (simp add: unat_of_nat)
  have "pcollapse ps = pmerge [of_nat i] (ps ! i)" by (simp add: pcollapse_def i)
  moreover have "a \<noteq> of_nat i \<Longrightarrow> unat a < 17 \<Longrightarrow> ps ! unat a = PNil" for a :: byte
    using nonnil_single(3) [OF i] assms by (metis of_nat_unat ucast_id)
  ultimately show ?thesis using u assms nonnil_single(1) [OF i]
    by (cases key) (auto simp: plookup_pmerge)
next
  case False
  then have "pcollapse ps = PFull ps" by (auto simp: pcollapse_def split: list.split)
  then show ?thesis by simp
qed

lemma wfp_pcollapse:
  assumes "length ps = 17" "\<forall>i < 17. entry_ok i (ps ! i)" "i < 17" "ps ! i \<noteq> PNil"
  shows "wfp (pcollapse ps)"
proof (cases "\<exists>i. nonnil ps = [i]")
  case True
  then obtain j where j: "nonnil ps = [j]" by blast
  have lt: "j < 17" using nonnil_single(1) [OF j] assms by simp
  have ok: "entry_ok j (ps ! j)" "ps ! j \<noteq> PNil" using lt assms(2) nonnil_single(2) [OF j] by auto
  have eq: "pcollapse ps = pmerge [of_nat j] (ps ! j)" by (simp add: pcollapse_def j)
  show ?thesis
  proof (cases "j < 16")
    case True
    then have "(of_nat j :: byte) < 16" by (simp add: word_less_nat_alt unat_of_nat)
    then show ?thesis using True ok eq wfp_pmerge [of "[of_nat j]" "ps ! j"] by (simp add: entry_ok_def)
  next
    case False
    then have "j = 16" "is_val (ps ! j)" using lt ok by (simp_all add: entry_ok_def)
    moreover from this obtain v where "ps ! j = PVal v" "v \<noteq> []" using is_val_cases by blast
    ultimately show ?thesis using eq by (simp add: pmerge_def is_key_Cons)
  qed
next
  case False
  have "nonnil ps \<noteq> []" using nonnil_set(1) [of ps] assms by auto
  with False have "2 \<le> length (nonnil ps)" by (cases "nonnil ps" rule: remdups_adj.cases) auto
  moreover have "pcollapse ps = PFull ps" using False by (auto simp: pcollapse_def split: list.split)
  ultimately show ?thesis using assms by (simp add: wfp_full)
qed

lemma pdelete_short:
  "k \<noteq> [] \<Longrightarrow>
   pdelete (PShort k c) (k @ r) =
     (if r = [] then (True, PNil)
      else case pdelete c r of (d, c') \<Rightarrow> if d then (True, pmerge k c') else (False, PShort k c))"
  using prefixLen_whole [of "k @ r" k] by (simp add: Let_def)

lemma pdelete_fork: "a \<noteq> b \<Longrightarrow> pdelete (PShort (q @ a # as) c) (q @ b # bs) = (False, PShort (q @ a # as) c)"
  by (simp add: Let_def prefixLen_fork)

lemma pdelete_full:
  "unat x < length ps \<Longrightarrow>
   pdelete (PFull ps) (x # xs) =
     (case pdelete (ps ! unat x) xs of
        (d, c') \<Rightarrow> if d then (True, pcollapse (ps[unat x := c'])) else (False, PFull ps))"
  by (simp split: prod.split)

declare pdelete.simps(3,4) [simp del]

definition deleted :: "ptrie \<Rightarrow> nibbles \<Rightarrow> bool \<Rightarrow> ptrie \<Rightarrow> bool" where
  "deleted p key d p' \<longleftrightarrow>
     (d \<longleftrightarrow> plookup p key \<noteq> None) \<and> (\<not> d \<longrightarrow> p' = p) \<and> fits_key p' key \<and> (is_full p \<longrightarrow> p' \<noteq> PNil) \<and>
     (\<forall>k. plookup p' k = (if k = key then None else plookup p k))"

lemma deleted_short:
  assumes "wfp (PShort k c)" "is_key (k @ r)" "deleted c r d c'" "r \<noteq> []"
  shows "deleted (PShort k c) (k @ r) d (if d then pmerge k c' else PShort k c)"
proof -
  have k: "k \<noteq> []" "is_nibbles k" "is_full c" "wfp c"
    using assms(1,2,4) is_key_append [of k r] by auto
  have c': "c' \<noteq> PNil" "fits_key c' r" using assms(3) k by (auto simp: deleted_def)
  then have w: "wfp c'" using assms(4) by (auto simp: fits_key_def)
  have l: "plookup (PShort k c') key = (if key = k @ r then None else plookup (PShort k c) key)" for key
  proof -
    have "key = k @ r \<longleftrightarrow> take (length k) key = k \<and> drop (length k) key = r" by (metis append_eq_conv_conj)
    then show ?thesis using assms(3) by (auto simp: deleted_def)
  qed
  show ?thesis
  proof (cases d)
    case True
    then have "plookup c r \<noteq> None" using assms(3) by (simp add: deleted_def)
    with True show ?thesis
      using l w wfp_pmerge [OF k(2,1) w] assms(2) by (simp add: deleted_def plookup_pmerge fits_key_def [of "pmerge _ _"])
  next
    case False
    then have "plookup c r = None" using assms(3) by (simp add: deleted_def)
    then show ?thesis using False assms by (auto simp: deleted_def fits_key_def)
  qed
qed

lemma deleted_full:
  assumes "wfp (PFull ps)" "is_key (x # xs)" "unat x < length ps" "deleted (ps ! unat x) xs d c'"
  shows "deleted (PFull ps) (x # xs) d (if d then pcollapse (ps[unat x := c']) else PFull ps)"
proof -
  have len: "length ps = 17" using assms(1) by (rule wfp_full_length)
  have ok: "entry_ok (unat x) c'" using assms(4) is_key_entry [OF assms(2)] by (simp add: deleted_def)
  have ok': "\<forall>i < 17. entry_ok i (ps[unat x := c'] ! i)"
    using assms(1) ok len by (auto simp: wfp_full) (metis nth_list_update_eq nth_list_update_neq)
  obtain i where i: "i < 17" "i \<noteq> unat x" "ps ! i \<noteq> PNil"
    using assms(1) by (auto simp: wfp_full nonnil_two) metis
  have w: "wfp (pcollapse (ps[unat x := c']))"
    using wfp_pcollapse [of "ps[unat x := c']" i] len ok' i by simp
  show ?thesis
  proof (cases d)
    case True
    have "plookup (PFull (ps[unat x := c'])) key = (if key = x # xs then None else plookup (PFull ps) key)" for key
      using assms(3,4) by (cases key) (auto simp: deleted_def nth_list_update word_unat_eq_iff)
    moreover have "plookup (ps ! unat x) xs \<noteq> None" using True assms(4) by (simp add: deleted_def)
    ultimately show ?thesis
      using True w wfp_not_nil(1) [OF w] assms(2,3) plookup_pcollapse [of "ps[unat x := c']"] len
      by (simp add: deleted_def fits_key_def [of "pcollapse _"])
  next
    case False
    then have "plookup (ps ! unat x) xs = None" using assms(4) by (simp add: deleted_def)
    then show ?thesis using False assms by (auto simp: deleted_def fits_key_def)
  qed
qed

lemma pdelete_deleted: "fits_key p key \<Longrightarrow> pdelete p key = (d, p') \<Longrightarrow> deleted p key d p'"
proof (induction p arbitrary: key d p')
  case PNil
  then show ?case by (simp add: deleted_def)
next
  case (PVal w)
  then show ?case by (auto simp: deleted_def fits_key_def)
next
  case (PShort k c)
  from PShort.prems(1) show ?case
  proof (cases rule: fits_cases)
    case (3 k' c' r)
    show ?thesis
    proof (cases "r = []")
      case True
      then have v: "is_val c" using 3 by (auto simp: fits_key_def)
      have "take (length k) l = k \<and> drop (length k) l = [] \<longleftrightarrow> l = k" for l :: bytes
        by (metis append_Nil2 append_eq_conv_conj append_take_drop_id)
      moreover have "key = k" "p' = PNil" "d" "is_key k" 
        using True 3 PShort.prems(2) pdelete_short [of k c "[]"] by auto
      moreover obtain v where "c = PVal v" using is_val_cases [OF v] by blast
      ultimately show ?thesis by (auto simp: deleted_def fits_key_def)
    next
      case False
      obtain e c1 where e: "pdelete c r = (e, c1)" by fastforce
      then have "deleted c r e c1" using PShort.IH 3 by simp
      then show ?thesis using deleted_short [of k c r e c1] False e 3 PShort.prems(2)
        by (simp add: pdelete_short split: if_split_asm)
    qed
  next
    case (4 q a as b bs c')
    then have "d = False" "p' = PShort k c" using PShort.prems(2) by (auto simp: pdelete_fork)
    moreover have "plookup (PShort k c) key = None" using 4 by (simp add: take_append_iff [of q "a # as", simplified])
    ultimately show ?thesis using PShort.prems(1) by (simp add: deleted_def del: plookup.simps)
  qed (use PShort.prems in \<open>auto simp: fits_key_def\<close>)
next
  case (PFull ps)
  from PFull.prems(1) show ?case
  proof (cases rule: fits_cases)
    case (5 qs x xs)
    obtain e c1 where e: "pdelete (ps ! unat x) xs = (e, c1)" by fastforce
    then have "deleted (ps ! unat x) xs e c1" using PFull.IH [of "ps ! unat x"] 5 by simp
    then show ?thesis using deleted_full [of ps x xs e c1] e 5 PFull.prems(2)
      by (simp add: pdelete_full split: if_split_asm)
  qed (use PFull.prems in \<open>auto simp: fits_key_def\<close>)
qed

section \<open>A well-formed trie is determined by its map\<close>

lemma is_key_index:
  assumes "i < 17"
  obtains x xs where "unat (x :: byte) = i" "is_key (x # xs)"
proof (cases "i < 16")
  case True
  then show thesis
    using that [of "of_nat i" "[16]"] by (simp add: is_key_Cons unat_of_nat word_less_nat_alt)
next
  case False
  then have "i = 16" using assms by simp
  then show thesis using that [of 16 "[]"] by (simp add: is_key_Cons)
qed

lemma is_key_extends: "wfp (PShort k c) \<Longrightarrow> \<exists>r. is_key (k @ r)"
proof (cases "is_key k")
  case True
  then show ?thesis using is_key_append [of k "[]"] by blast
next
  case False
  then show "wfp (PShort k c) \<Longrightarrow> ?thesis" using is_key_nibbles [of k "[16]"] by (auto simp: is_key_Cons)
qed

lemma is_key_swap: "is_key (k @ r) \<Longrightarrow> l = [] \<longleftrightarrow> r = [] \<Longrightarrow> r \<noteq> [] \<longrightarrow> is_key l \<Longrightarrow> is_key (k @ l)"
  by (induction k) (auto simp: is_key_Cons)

lemma wfp_has_key:
  "fits_key p k0 \<Longrightarrow> p \<noteq> PNil \<Longrightarrow> \<exists>k v. plookup p k = Some v \<and> (k = [] \<longleftrightarrow> k0 = []) \<and> (k0 \<noteq> [] \<longrightarrow> is_key k)"
proof (induction p arbitrary: k0)
  case (PShort k c)
  have w: "wfp (PShort k c)" and k0: "k0 \<noteq> []" using PShort.prems by (auto simp: fits_key_def)
  obtain r where r: "is_key (k @ r)" using is_key_extends [OF w] by blast
  have "fits_key c r" "c \<noteq> PNil" using fits_short [OF w r] by simp_all
  then obtain l v where l: "plookup c l = Some v" "l = [] \<longleftrightarrow> r = []" "r \<noteq> [] \<longrightarrow> is_key l"
    using PShort.IH by blast
  have "is_key (k @ l)" using is_key_swap [OF r l(2,3)] .
  moreover have "plookup (PShort k c) (k @ l) = Some v" using l by simp
  ultimately show ?case using k0 not_is_key_Nil by metis
next
  case (PFull ps)
  have w: "wfp (PFull ps)" and k0: "k0 \<noteq> []" using PFull.prems by (auto simp: fits_key_def)
  obtain i where i: "i < 17" "ps ! i \<noteq> PNil" "length ps = 17" using w by (auto simp: wfp_full nonnil_two)
  obtain x xs where x: "unat (x :: byte) = i" "is_key (x # xs)" using is_key_index [OF i(1)] .
  then have "fits_key (ps ! i) xs" using fits_full [OF w] by auto
  then obtain l v where l: "plookup (ps ! i) l = Some v" "l = [] \<longleftrightarrow> xs = []" "xs \<noteq> [] \<longrightarrow> is_key l"
    using PFull.IH [of "ps ! i" xs] i by auto
  have "is_key (x # l)" using is_key_swap [of "[x]" xs l] x l by simp
  moreover have "plookup (PFull ps) (x # l) = Some v" using l x i by simp
  ultimately show ?case using k0 by blast
qed (auto simp: fits_key_def)

lemma plookup_fits: "fits_key p k0 \<Longrightarrow> plookup p k = Some v \<Longrightarrow> (k = [] \<longleftrightarrow> k0 = []) \<and> (k0 \<noteq> [] \<longrightarrow> is_key k)"
proof (induction p arbitrary: k k0)
  case (PShort q c)
  have w: "wfp (PShort q c)" and k0: "k0 \<noteq> []" using PShort.prems by (auto simp: fits_key_def)
  obtain r where r: "is_key (q @ r)" using is_key_extends [OF w] by blast
  have k: "take (length q) k = q" "plookup c (drop (length q) k) = Some v" using PShort.prems by (simp_all split: if_split_asm)
  define l where "l = drop (length q) k"
  have ql: "k = q @ l" using k(1) by (metis append_take_drop_id l_def)
  have "(l = [] \<longleftrightarrow> r = []) \<and> (r \<noteq> [] \<longrightarrow> is_key l)"
    using PShort.IH [of r l] fits_short [OF w r] k(2) by (simp add: l_def)
  then have "is_key k" using is_key_swap [OF r, of l] ql by simp
  then show ?case using k0 not_is_key_Nil by metis
next
  case (PFull ps)
  have w: "wfp (PFull ps)" and k0: "k0 \<noteq> []" using PFull.prems by (auto simp: fits_key_def)
  from PFull.prems(2) obtain x ys where k: "k = x # ys" "unat x < 17" "plookup (ps ! unat x) ys = Some v"
    using wfp_full_length [OF w] by (cases k) (auto split: if_split_asm)
  obtain x' xs where x: "unat (x' :: byte) = unat x" "is_key (x' # xs)" using is_key_index [OF k(2)] .
  then have xs: "is_key (x # xs)" by (metis word_unat_eq_iff)
  have "(ys = [] \<longleftrightarrow> xs = []) \<and> (xs \<noteq> [] \<longrightarrow> is_key ys)"
    using PFull.IH [of "ps ! unat x" xs ys] fits_full [OF w xs] k(3) by simp
  then have "is_key (x # ys)" using is_key_swap [of "[x]" xs ys] xs by simp
  then show ?case using k k0 by simp
qed (auto simp: fits_key_def split: if_split_asm)

lemma full_two_heads:
  assumes "wfp (PFull ps)"
  obtains x xs y ys where "x \<noteq> y" "plookup (PFull ps) (x # xs) \<noteq> None" "plookup (PFull ps) (y # ys) \<noteq> None"
proof -
  obtain i j where ij: "i < 17" "j < 17" "i \<noteq> j" "ps ! i \<noteq> PNil" "ps ! j \<noteq> PNil" "length ps = 17"
    using assms by (auto simp: wfp_full nonnil_two)
  have "\<exists>x xs. unat x = i \<and> plookup (PFull ps) (x # xs) \<noteq> None" if i: "i < 17" "ps ! i \<noteq> PNil" for i
  proof -
    obtain x xs where x: "unat (x :: byte) = i" "is_key (x # xs)" using is_key_index [OF i(1)] .
    then have "fits_key (ps ! i) xs" using fits_full [OF assms] by auto
    then obtain l v where "plookup (ps ! i) l = Some v" using wfp_has_key i(2) by blast
    with x i ij(6) have "plookup (PFull ps) (x # l) \<noteq> None" by simp
    with x show ?thesis by blast
  qed
  with ij that show thesis by metis
qed

lemma short_heads: "plookup (PShort k c) l \<noteq> None \<Longrightarrow> \<exists>r. l = k @ r"
  by (metis append_take_drop_id plookup.simps(3))

lemma short_eq_short:
  assumes w: "wfp (PShort k c)" "wfp (PShort k' c')" and eq: "plookup (PShort k c) = plookup (PShort k' c')"
  shows "k' = k @ s \<Longrightarrow> s = []"
proof (rule ccontr)
  assume s: "k' = k @ s" "s \<noteq> []"
  then obtain a as where a: "s = a # as" by (cases s) auto
  have "\<not> is_key k" using is_key_append [of k s] is_key_not_nibbles w(2) s by auto
  then obtain ps where c: "c = PFull ps" "wfp (PFull ps)" using w(1) is_full_cases by auto
  obtain x xs y ys where xy: "x \<noteq> y" "plookup c (x # xs) \<noteq> None" "plookup c (y # ys) \<noteq> None"
    using full_two_heads [OF c(2)] c(1) by metis
  have "z = a" if "plookup c (z # zs) \<noteq> None" for z zs
  proof -
    have "plookup (PShort k' c') (k @ z # zs) \<noteq> None" using that eq [symmetric] by simp
    then obtain r where "k @ z # zs = k' @ r" using short_heads by blast
    then show ?thesis using s a by simp
  qed
  with xy show False by metis
qed

lemma short_neq_full:
  assumes "wfp (PShort k c)" "wfp (PFull ps)"
  shows "plookup (PShort k c) \<noteq> plookup (PFull ps)"
proof
  assume eq: "plookup (PShort k c) = plookup (PFull ps)"
  have "k \<noteq> []" using assms(1) by auto
  have "z = hd k" if "plookup (PFull ps) (z # zs) \<noteq> None" for z zs
  proof -
    have "plookup (PShort k c) (z # zs) \<noteq> None" using that eq by simp
    then obtain r where "z # zs = k @ r" using short_heads by blast
    then show ?thesis using \<open>k \<noteq> []\<close> by (cases k) auto
  qed
  then show False using full_two_heads [OF assms(2)] by metis
qed

lemma short_comparable:
  assumes "wfp (PShort k c)" "plookup (PShort k c) = plookup (PShort k' c')"
  shows "\<exists>s. k' = k @ s \<or> k = k' @ s"
proof -
  obtain r where r: "is_key (k @ r)" using is_key_extends [OF assms(1)] by blast
  then have "fits_key (PShort k c) (k @ r)" using assms(1) by (simp add: fits_key_def del: wfp.simps)
  then obtain l v where l: "plookup (PShort k c) l = Some v" using wfp_has_key by blast
  obtain r1 where "l = k @ r1" using l short_heads by (metis option.distinct(1))
  moreover obtain r2 where "l = k' @ r2" using l assms(2) short_heads by (metis option.distinct(1))
  ultimately show ?thesis using append_eq_append_conv2 [of k r1 k' r2] by auto
qed

lemma plookup_nonnil:
  assumes "fits_key p k0" "p \<noteq> PNil" "plookup p = plookup p'"
  shows "p' \<noteq> PNil"
proof -
  obtain l v where "plookup p l = Some v" using wfp_has_key [OF assms(1,2)] by blast
  then have "plookup p' l = Some v" using assms(3) by simp
  then show ?thesis by auto
qed

lemma short_inj:
  assumes IH: "\<And>c' r. fits_key c r \<Longrightarrow> fits_key c' r \<Longrightarrow> plookup c = plookup c' \<Longrightarrow> c = c'"
    and w: "wfp (PShort k c)" "wfp (PShort k' c')" and eq: "plookup (PShort k c) = plookup (PShort k' c')"
  shows "PShort k c = PShort k' c'"
proof -
  obtain s where s: "k' = k @ s \<or> k = k' @ s" using short_comparable [OF w(1) eq] by blast
  then have "s = []" using short_eq_short [OF w eq] short_eq_short [OF w(2,1) eq [symmetric]] by blast
  then have k: "k' = k" using s by auto
  obtain r where r: "is_key (k @ r)" using is_key_extends [OF w(1)] by blast
  have "plookup c l = plookup c' l" for l using fun_cong [OF eq, of "k @ l"] k by simp
  then have "plookup c = plookup c'" by (rule ext)
  then have "c = c'" using IH [of r c'] fits_short [OF w(1) r] fits_short [OF w(2), of r] r k by simp
  with k show ?thesis by simp
qed

lemma full_inj:
  assumes IH: "\<And>c c' r. c \<in> set ps \<Longrightarrow> fits_key c r \<Longrightarrow> fits_key c' r \<Longrightarrow> plookup c = plookup c' \<Longrightarrow> c = c'"
    and w: "wfp (PFull ps)" "wfp (PFull ps')" and eq: "plookup (PFull ps) = plookup (PFull ps')"
  shows "ps = ps'"
proof (rule nth_equalityI)
  show l: "length ps = length ps'" using w by (simp add: wfp_full)
  fix i
  assume i: "i < length ps"
  then have "i < 17" using w by (simp add: wfp_full)
  then obtain x xs where x: "unat (x :: byte) = i" "is_key (x # xs)" by (rule is_key_index)
  have "plookup (ps ! i) l = plookup (ps' ! i) l" for l
    using fun_cong [OF eq, of "x # l"] x i l by simp
  then have "plookup (ps ! i) = plookup (ps' ! i)" by (rule ext)
  then show "ps ! i = ps' ! i"
    using IH [OF nth_mem [OF i], of xs "ps' ! i"] fits_full [OF w(1) x(2)] fits_full [OF w(2) x(2)] x(1) by simp
qed

lemma wfp_cases: "wfp p \<Longrightarrow> (\<exists>k c. p = PShort k c) \<or> (\<exists>ps. p = PFull ps)"
  by (cases p) auto

lemma plookup_inj:
  "fits_key p k0 \<Longrightarrow> fits_key p' k0 \<Longrightarrow> plookup p = plookup p' \<Longrightarrow> p = p'"
proof (induction p arbitrary: p' k0)
  case PNil
  show ?case using plookup_nonnil [OF PNil.prems(2)] PNil.prems(3) by metis
next
  case (PVal v)
  have "plookup p' [] = Some v" using fun_cong [OF PVal.prems(3), of "[]"] by simp
  then show ?case using PVal.prems(1,2) by (cases p') (auto simp: fits_key_def)
next
  case (PShort k c)
  have "p' \<noteq> PNil" using plookup_nonnil [OF PShort.prems(1) _ PShort.prems(3)] by simp
  then have w: "wfp (PShort k c)" "wfp p'" using PShort.prems(1,2) by (auto simp: fits_key_def simp del: wfp.simps)
  from wfp_cases [OF w(2)] show ?case
  proof (elim disjE exE)
    fix k' c'
    assume p': "p' = PShort k' c'"
    show ?thesis unfolding p'
      by (rule short_inj [OF _ w(1) w(2) [unfolded p'] PShort.prems(3) [unfolded p']]) (rule PShort.IH)
  next
    fix ps
    assume p': "p' = PFull ps"
    then show ?thesis using short_neq_full [OF w(1) w(2) [unfolded p']] PShort.prems(3) by metis
  qed
next
  case (PFull ps)
  have "p' \<noteq> PNil" using plookup_nonnil [OF PFull.prems(1) _ PFull.prems(3)] by simp
  then have w: "wfp (PFull ps)" "wfp p'" using PFull.prems(1,2) by (auto simp: fits_key_def simp del: wfp.simps)
  from wfp_cases [OF w(2)] show ?case
  proof (elim disjE exE)
    fix k' c'
    assume p': "p' = PShort k' c'"
    then show ?thesis using short_neq_full [OF w(2) [unfolded p'] w(1)] PFull.prems(3) by metis
  next
    fix ps'
    assume p': "p' = PFull ps'"
    have "ps = ps'" by (rule full_inj [OF _ w(1) w(2) [unfolded p'] PFull.prems(3) [unfolded p']]) (rule PFull.IH)
    then show ?thesis using p' by simp
  qed
qed

end
