(* ===== verification/Trie_Store.thy ===== *)
theory Trie_Store
  imports Trie_Node Trie_Spec
begin

text \<open>
  How a plain trie is stored: the Merkle encoding of its nodes, in which a child of 32 bytes or more
  is replaced by its hash, and the node that \<open>decodeNode\<close> reads back from such an encoding. The
  hash function enters through a locale that asks for nothing but digests of 32 bytes.
\<close>

section \<open>The stored form\<close>

definition inner :: "ptrie \<Rightarrow> bool" where
  "inner p \<longleftrightarrow> (case p of PShort k c \<Rightarrow> True | PFull ps \<Rightarrow> True | _ \<Rightarrow> False)"

definition child_item :: "(bytes \<Rightarrow> bytes) \<Rightarrow> ptrie \<Rightarrow> item \<Rightarrow> item" where
  "child_item H p i = (if inner p \<and> 32 \<le> length (rlp i) then Str (H (rlp i)) else i)"

fun citem :: "(bytes \<Rightarrow> bytes) \<Rightarrow> ptrie \<Rightarrow> item" where
  "citem H PNil = Str []"
| "citem H (PVal v) = Str v"
| "citem H (PShort k c) = Lst [Str (the (compactEncode k)), child_item H c (citem H c)]"
| "citem H (PFull ps) = Lst (map (\<lambda>c. child_item H c (citem H c)) ps)"

definition penc :: "(bytes \<Rightarrow> bytes) \<Rightarrow> ptrie \<Rightarrow> bytes" where
  "penc H p = rlp (citem H p)"

definition dchild :: "(bytes \<Rightarrow> bytes) \<Rightarrow> ptrie \<Rightarrow> node \<Rightarrow> node" where
  "dchild H p n = (if inner p \<and> 32 \<le> length (penc H p) then HashNode (H (penc H p)) else n)"

fun dnode :: "(bytes \<Rightarrow> bytes) \<Rightarrow> uint16 \<Rightarrow> bytes option \<Rightarrow> ptrie \<Rightarrow> node" where
  "dnode H g h PNil = NilNode"
| "dnode H g h (PVal v) = ValueNode v"
| "dnode H g h (PShort k c) = ShortNode k (dchild H c (dnode H g None c)) \<lparr>hash = h, gen = g, dirty = False\<rparr>"
| "dnode H g h (PFull ps) = FullNode (map (\<lambda>c. dchild H c (dnode H g None c)) ps) \<lparr>hash = h, gen = g, dirty = False\<rparr>"

abbreviation (input) cref :: "(bytes \<Rightarrow> bytes) \<Rightarrow> ptrie \<Rightarrow> item" where
  "cref H p \<equiv> child_item H p (citem H p)"

abbreviation (input) dref :: "(bytes \<Rightarrow> bytes) \<Rightarrow> uint16 \<Rightarrow> ptrie \<Rightarrow> node" where
  "dref H g p \<equiv> dchild H p (dnode H g None p)"

lemma inner_simps [simp]: "\<not> inner PNil" "\<not> inner (PVal v)" "inner (PShort k c)" "inner (PFull ps)"
  by (simp_all add: inner_def)

lemma wfp_inner: "wfp p \<Longrightarrow> inner p"
  by (cases p) auto

lemma plain_citem [simp]: "plain (citem H p)"
  by (induction p) (auto simp: child_item_def list_all_iff)

lemma plain_cref [simp]: "plain (cref H p)"
  by (simp add: child_item_def)

lemma SplitString_rlp:
  "length (rlp (Str b) @ rest) < 2 ^ 64 \<Longrightarrow> SplitString (rlp (Str b) @ rest) = Inr (b, rest)"
  using Split_rlp [of "Str b" rest] by (simp add: SplitString_def item_kind_def item_content_def)

lemma SplitList_rlp:
  "list_all plain xs \<Longrightarrow> length (rlp (Lst xs) @ rest) < 2 ^ 64 \<Longrightarrow> SplitList (rlp (Lst xs) @ rest) = Inr (rlps xs, rest)"
  using Split_rlp [of "Lst xs" rest] by (simp add: SplitList_def item_kind_def item_content_def)

lemma length_rlps_le: "length (rlps xs) \<le> length (rlp (Lst xs))"
  by (simp add: rlp_lst_def rlps_def)

section \<open>Decoding what the hasher stores\<close>

lemma decodeRef_string:
  assumes "length (rlp (Str b) @ rest) < 2 ^ 64" "b = [] \<or> length b = 32"
  shows "decodeRef (rlp (Str b) @ rest) g = Inr (if b = [] then NilNode else HashNode b, rest)"
proof -
  have "item_kind (Str b) = KString" using assms(2) by (auto simp: item_kind_def)
  then show ?thesis using Split_rlp [of "Str b" rest] assms
    by (auto simp: decodeRef.simps item_content_def)
qed

lemma decodeRef_list:
  assumes "list_all plain xs" "length (rlp (Lst xs) @ rest) < 2 ^ 64" "length (rlp (Lst xs)) \<le> 32"
  shows "decodeRef (rlp (Lst xs) @ rest) g = map_ok (\<lambda>n. (n, rest)) (decodeNode None (rlp (Lst xs) @ rest) g)"
  using Split_rlp [of "Lst xs" rest] assms by (simp add: decodeRef.simps item_kind_def)

lemma decodeNode_list:
  assumes "list_all plain xs" "length (rlp (Lst xs) @ rest) < 2 ^ 64"
  shows "decodeNode h (rlp (Lst xs) @ rest) g =
    (if length xs = 2 then decodeShort h (rlps xs) g
     else if length xs = 17 then decodeFull h (rlps xs) g else Inl (InvalidNodeCount (length xs)))"
proof -
  have "length (rlps xs) < 2 ^ 64" using length_rlps_le [of xs] assms(2) by simp
  then have "CountValues (rlps xs) = (length xs, None)"
    using CountValues_from_rlps [OF assms(1)] by (simp add: CountValues_def)
  moreover have "rlp (Lst xs) \<noteq> []" using rlp_nonempty [of "Lst xs"] assms(1) by simp
  ultimately show ?thesis using SplitList_rlp [OF assms] by (simp add: decodeNode.simps del: rlp.simps)
qed

locale hash_fn =
  fixes H :: "bytes \<Rightarrow> bytes"
  assumes length_H: "length (H x) = 32"

context hash_fn
begin

lemma decodeRef_cref:
  assumes IH: "inner p \<Longrightarrow> length (penc H p) < 32 \<Longrightarrow> decodeNode None (penc H p @ rest) g = Inr (dnode H g None p)"
    and p: "p = PNil \<or> wfp p" and len: "length (rlp (cref H p) @ rest) < 2 ^ 64"
  shows "decodeRef (rlp (cref H p) @ rest) g = Inr (dref H g p, rest)"
proof -
  consider "p = PNil" | "wfp p" "32 \<le> length (penc H p)" | "wfp p" "length (penc H p) < 32" using p by linarith
  then show ?thesis
  proof cases
    case 1
    then show ?thesis using decodeRef_string [of "[]" rest g] len by (simp add: child_item_def dchild_def)
  next
    case 2
    have "H (penc H p) \<noteq> []" using length_H [of "penc H p"] by auto
    then show ?thesis using decodeRef_string [of "H (penc H p)" rest g] len 2 wfp_inner [OF 2(1)] length_H
      by (simp add: child_item_def dchild_def penc_def)
  next
    case 3
    obtain xs where xs: "citem H p = Lst xs" "list_all plain xs"
      using wfp_inner [OF 3(1)] plain_citem [of H p] by (cases p) auto
    then show ?thesis using decodeRef_list [of xs rest g] IH len 3 wfp_inner [OF 3(1)]
      by (simp add: child_item_def dchild_def penc_def del: rlp.simps)
  qed
qed

lemma decodeChildren_crefs:
  assumes "\<And>p rest. p \<in> set ps \<Longrightarrow> length (rlp (cref H p) @ rest) < 2 ^ 64 \<Longrightarrow>
      decodeRef (rlp (cref H p) @ rest) g = Inr (dref H g p, rest)"
  shows "length (rlps (map (cref H) ps) @ rest) < 2 ^ 64 \<Longrightarrow>
    decodeChildren (length ps) (rlps (map (cref H) ps) @ rest) g = Inr (map (dref H g) ps, rest)"
  using assms
proof (induction ps)
  case Nil
  then show ?case by (simp add: decodeChildren.simps)
next
  case (Cons p ps)
  then show ?case by (simp add: decodeChildren_step rlps_Cons)
qed

end

lemma last_nibble: "is_nibbles k \<Longrightarrow> k \<noteq> [] \<Longrightarrow> last k \<noteq> 16"
  by (induction k) auto

lemma is_nibbles_path: "is_nibbles k \<Longrightarrow> k \<noteq> [] \<Longrightarrow> is_path k"
  by (induction k rule: rev_induct) (auto simp: is_path_def word_le_less_eq)

lemma wfp_short_path: "wfp (PShort k c) \<Longrightarrow> is_path k \<and> (last k = 16 \<longleftrightarrow> is_val c) \<and> k \<noteq> []"
  using last_nibble [of k] is_nibbles_path [of k] is_key_is_path [of k]
  by (auto simp: is_key_def elim!: is_full.elims)

context hash_fn
begin

lemma decodeShort_enc:
  assumes w: "wfp (PShort k c)" and len: "length (rlps [Str (the (compactEncode k)), cref H c]) < 2 ^ 64"
    and IH: "\<And>rest. wfp c \<Longrightarrow> length (penc H c @ rest) < 2 ^ 64 \<Longrightarrow> decodeNode None (penc H c @ rest) g = Inr (dnode H g None c)"
  shows "decodeShort h (rlps [Str (the (compactEncode k)), cref H c]) g = Inr (dnode H g h (PShort k c))"
proof -
  have path: "is_path k" "last k = 16 \<longleftrightarrow> is_val c" "k \<noteq> []" using wfp_short_path [OF w] by auto
  obtain e where e: "compactEncode k = Some e" "compactDecode e = Some k" using compactEncode_path [OF path(1)] .
  have s: "SplitString (rlps [Str e, cref H c]) = Inr (e, rlp (cref H c))"
    using SplitString_rlp [of e "rlp (cref H c)"] len e by (simp add: rlps_def)
  show ?thesis
  proof (cases "is_val c")
    case True
    then obtain v where c: "c = PVal v" using is_val_cases by blast
    have "SplitString (rlp (Str v) @ []) = Inr (v, [])"
      using SplitString_rlp [of v "[]"] len e c by (simp add: rlps_def child_item_def)
    with s e c True path show ?thesis
      by (simp add: decodeShort.simps child_item_def dchild_def)
  next
    case False
    then have wc: "wfp c" using w by auto
    have "length (rlp (cref H c)) < 2 ^ 64" using len by (simp add: rlps_def)
    then have "decodeRef (rlp (cref H c) @ []) g = Inr (dref H g c, [])"
      using IH [of "[]"] wc by (intro decodeRef_cref) (auto simp: child_item_def penc_def length_H split: if_split_asm)
    with s e False path show ?thesis by (simp add: decodeShort.simps)
  qed
qed

lemma decodeFull_enc:
  assumes w: "wfp (PFull ps)" and len: "length (rlps (map (cref H) ps)) < 2 ^ 64"
    and IH: "\<And>p rest. p \<in> set ps \<Longrightarrow> wfp p \<Longrightarrow> length (penc H p @ rest) < 2 ^ 64 \<Longrightarrow>
      decodeNode None (penc H p @ rest) g = Inr (dnode H g None p)"
  shows "decodeFull h (rlps (map (cref H) ps)) g = Inr (dnode H g h (PFull ps))"
proof -
  have l: "length ps = 17" and ok: "\<forall>i < 17. entry_ok i (ps ! i)" using w by (simp_all add: wfp_full)
  obtain qs v where ps: "ps = qs @ [v]" and qs: "length qs = 16" using l by (cases ps rule: rev_cases) auto
  have v: "v = PNil \<or> is_val v" using ok [rule_format, of 16] ps qs by (simp add: entry_ok_def nth_append)
  have q: "p = PNil \<or> wfp p" if p: "p \<in> set qs" for p
  proof -
    obtain i where "i < 16" "p = ps ! i" using p ps qs by (auto simp: in_set_conv_nth nth_append)
    then show ?thesis using ok [rule_format, of i] by (simp add: entry_ok_def)
  qed
  have ref: "decodeRef (rlp (cref H p) @ rest) g = Inr (dref H g p, rest)"
    if p: "p \<in> set qs" "length (rlp (cref H p) @ rest) < 2 ^ 64" for p rest
    using p IH [of p rest] q [of p] ps
    by (intro decodeRef_cref) (auto simp: child_item_def penc_def dest: wfp_inner)
  have split: "rlps (map (cref H) ps) = rlps (map (cref H) qs) @ rlp (cref H v)" by (simp add: ps rlps_def)
  then have "decodeChildren 16 (rlps (map (cref H) ps)) g = Inr (map (dref H g) qs, rlp (cref H v))"
    using decodeChildren_crefs [of qs g "rlp (cref H v)"] ref len qs by simp
  moreover have "SplitString (rlp (cref H v) @ []) = Inr (case v of PVal b \<Rightarrow> b | _ \<Rightarrow> [], [])"
    using v SplitString_rlp [of "case v of PVal b \<Rightarrow> b | _ \<Rightarrow> []" "[]"] len split
    by (cases v) (auto simp: child_item_def)
  ultimately show ?thesis using v ps
    by (cases v) (auto simp: decodeFull.simps dchild_def)
qed

lemma decodeNode_enc:
  "wfp p \<Longrightarrow> length (penc H p @ rest) < 2 ^ 64 \<Longrightarrow> decodeNode h (penc H p @ rest) g = Inr (dnode H g h p)"
proof (induction p arbitrary: h rest)
  case (PShort k c)
  let ?xs = "[Str (the (compactEncode k)), cref H c]"
  have "length (rlps ?xs) < 2 ^ 64" using PShort.prems(2) length_rlps_le [of ?xs] by (simp add: penc_def)
  then have "decodeShort h (rlps ?xs) g = Inr (dnode H g h (PShort k c))"
    using decodeShort_enc [OF PShort.prems(1)] PShort.IH by blast
  then show ?case using decodeNode_list [of ?xs rest h g] PShort.prems(2) by (simp add: penc_def del: rlp.simps)
next
  case (PFull ps)
  let ?xs = "map (cref H) ps"
  have "length (rlps ?xs) < 2 ^ 64" using PFull.prems(2) length_rlps_le [of ?xs] by (simp add: penc_def)
  then have "decodeFull h (rlps ?xs) g = Inr (dnode H g h (PFull ps))"
    using decodeFull_enc [OF PFull.prems(1)] PFull.IH by blast
  then show ?case using decodeNode_list [of ?xs rest h g] PFull.prems wfp_full_length
    by (simp add: penc_def list_all_iff del: rlp.simps)
qed simp_all

end

end
