(* ===== verification/Trie_Ops.thy ===== *)
theory Trie_Ops
  imports Trie_Store
begin

text \<open>
  The trie operations of \<open>trie/trie.go\<close>: lookup, update and deletion on nodes that may be in
  memory or only in the database. The database is a parameter, the function that reads it.
\<close>

section \<open>Operations\<close>

text \<open>
  The database is the function \<open>db\<close> from keys to values; a missing entry and a failing read are
  both \<open>None\<close>, since the trie treats them alike.
\<close>

type_synonym trie_db = "bytes \<Rightarrow> bytes option"

record trie =
  root :: node
  originalRoot :: bytes
  cachegen :: uint16
  cachelimit :: uint16

definition BytesToHash :: "bytes \<Rightarrow> bytes" where
  "BytesToHash b =
     (let b = (if length b > 32 then drop (length b - 32) b else b)
      in replicate (32 - length b) 0 @ b)"

definition newFlag :: "trie \<Rightarrow> nodeFlag" where
  "newFlag t = \<lparr>hash = None, gen = cachegen t, dirty = True\<rparr>"

definition SetCacheLimit :: "uint16 \<Rightarrow> trie \<Rightarrow> trie" where
  "SetCacheLimit l t = t\<lparr>cachelimit := l\<rparr>"

definition resolveHash :: "trie_db \<Rightarrow> trie \<Rightarrow> bytes \<Rightarrow> nibbles \<Rightarrow> nibbles \<Rightarrow> trie_error + node" where
  "resolveHash db t n prefix suffix =
     (case db n of
        None \<Rightarrow>
          (case compactHexEncode (prefix @ suffix) of
             None \<Rightarrow> Inl TriePanic
           | Some key \<Rightarrow>
               Inl (MissingNodeError (originalRoot t) (BytesToHash n) key (length prefix) (length suffix)))
      | Some enc \<Rightarrow> mustDecodeNode n enc (cachegen t))"

definition resolve :: "trie_db \<Rightarrow> trie \<Rightarrow> node \<Rightarrow> nibbles \<Rightarrow> nibbles \<Rightarrow> trie_error + node" where
  "resolve db t n prefix suffix =
     (case n of HashNode h \<Rightarrow> resolveHash db t h prefix suffix | _ \<Rightarrow> Inr n)"

text \<open>
  The operations recurse on the key and on nodes loaded from the database. A loaded node is a
  short node with a non-empty key or a full node, so the next step consumes a nibble; only short
  nodes with an empty key, which no operation creates, are passed without consuming one.
\<close>

fun slack :: "node \<Rightarrow> nat" where
  "slack (ShortNode k v fl) = (if k = [] then Suc (slack v) else 0)"
| "slack _ = 0"

fun is_hash :: "node \<Rightarrow> nat" where
  "is_hash (HashNode h) = 1"
| "is_hash _ = 0"

lemma decodeNode_form:
  "decodeNode h b g = Inr n \<Longrightarrow> (\<exists>k v fl. n = ShortNode k v fl \<and> k \<noteq> []) \<or> (\<exists>cs fl. n = FullNode cs fl)"
  by (auto simp: decodeNode.simps decodeShort.simps decodeFull.simps
      split: if_split_asm sum.split_asm prod.split_asm option.split_asm)

lemma resolveHash_form:
  "resolveHash db t h p s = Inr n \<Longrightarrow> slack n = 0 \<and> is_hash n = 0"
  by (auto simp: resolveHash_def mustDecodeNode_def dest!: decodeNode_form
      split: option.split_asm sum.split_asm)

lemma consume_less: "\<not> n - p < length k \<Longrightarrow> k \<noteq> [] \<Longrightarrow> n - (p + length k) < (n :: nat) - p"
  by (cases k) auto

function tryGet :: "trie_db \<Rightarrow> trie \<Rightarrow> node \<Rightarrow> nibbles \<Rightarrow> nat \<Rightarrow>
    trie_error + bytes option \<times> node \<times> bool" where
  "tryGet db t origNode key ps =
     (case origNode of
        NilNode \<Rightarrow> Inr (None, NilNode, False)
      | ValueNode v \<Rightarrow> Inr (Some v, ValueNode v, False)
      | ShortNode k v fl \<Rightarrow>
          if length key - ps < length k \<or> k \<noteq> take (length k) (drop ps key)
          then Inr (None, ShortNode k v fl, False)
          else (case tryGet db t v key (ps + length k) of
                  Inl e \<Rightarrow> Inl e
                | Inr (val, newnode, didResolve) \<Rightarrow>
                    Inr (val, if didResolve then ShortNode k newnode (fl\<lparr>gen := cachegen t\<rparr>)
                              else ShortNode k v fl, didResolve))
      | FullNode cs fl \<Rightarrow>
          if ps < length key \<and> unat (key ! ps) < length cs
          then (case tryGet db t (cs ! unat (key ! ps)) key (ps + 1) of
                  Inl e \<Rightarrow> Inl e
                | Inr (val, newnode, didResolve) \<Rightarrow>
                    Inr (val, if didResolve
                              then FullNode (cs[unat (key ! ps) := newnode]) (fl\<lparr>gen := cachegen t\<rparr>)
                              else FullNode cs fl, didResolve))
          else Inl TriePanic
      | HashNode h \<Rightarrow>
          (case resolveHash db t h (take ps key) (drop ps key) of
             Inl e \<Rightarrow> Inl e
           | Inr child \<Rightarrow>
               (case tryGet db t child key ps of
                  Inl e \<Rightarrow> Inl e
                | Inr (val, newnode, _) \<Rightarrow> Inr (val, newnode, True))))"
  by pat_completeness auto
termination
  by (relation "measures [\<lambda>(db, t, n, key, ps). length key - ps, \<lambda>(db, t, n, key, ps). slack n,
        \<lambda>(db, t, n, key, ps). is_hash n]")
    (auto dest!: resolveHash_form intro: consume_less)

declare tryGet.simps [simp del]

definition TryGet :: "trie_db \<Rightarrow> bytes \<Rightarrow> trie \<Rightarrow> (trie_error + bytes option) \<times> trie" where
  "TryGet db key t =
     (case tryGet db t (root t) (compactHexDecode key) 0 of
        Inl e \<Rightarrow> (Inl e, t)
      | Inr (value, newroot, didResolve) \<Rightarrow>
          (Inr value, if didResolve then t\<lparr>root := newroot\<rparr> else t))"

definition unless_panic :: "trie_error \<Rightarrow> trie_error option" where
  \<comment> \<open>errors are logged and dropped, a panic is not an error value\<close>
  "unless_panic e = (if e = TriePanic then Some TriePanic else None)"

definition Get :: "trie_db \<Rightarrow> bytes \<Rightarrow> trie \<Rightarrow> (trie_error + bytes option) \<times> trie" where
  "Get db key t =
     (case TryGet db key t of
        (Inl e, t') \<Rightarrow> (case unless_panic e of Some p \<Rightarrow> Inl p | None \<Rightarrow> Inr None, t')
      | (Inr v, t') \<Rightarrow> (Inr v, t'))"

lemma match_less: "length k = prefixLen key k \<Longrightarrow> k \<noteq> [] \<Longrightarrow> key \<noteq> [] \<Longrightarrow> length key - prefixLen key k < length key"
  by (metis diff_less length_greater_0_conv)

function insert :: "trie_db \<Rightarrow> trie \<Rightarrow> node \<Rightarrow> nibbles \<Rightarrow> nibbles \<Rightarrow> node \<Rightarrow> trie_error + bool \<times> node" where
  "insert db t n prefix key value =
     (if key = [] then
        (case n of
           ValueNode v \<Rightarrow>
             (case value of ValueNode w \<Rightarrow> Inr (v \<noteq> w, value) | _ \<Rightarrow> Inl TriePanic)
         | _ \<Rightarrow> Inr (True, value))
      else
        case n of
          ShortNode k v fl \<Rightarrow>
            (let matchlen = prefixLen key k
             in if matchlen = length k then
                  (case insert db t v (prefix @ take matchlen key) (drop matchlen key) value of
                     Inl e \<Rightarrow> Inl e
                   | Inr (d, nn) \<Rightarrow>
                       Inr (if d then (True, ShortNode k nn (newFlag t)) else (False, n)))
                else if length key \<le> matchlen then Inl TriePanic
                else if unat (k ! matchlen) < 17 \<and> unat (key ! matchlen) < 17 then
                  (case insert db t NilNode (prefix @ take (matchlen + 1) k) (drop (matchlen + 1) k) v of
                     Inl e \<Rightarrow> Inl e
                   | Inr (_, c1) \<Rightarrow>
                       (case insert db t NilNode (prefix @ take (matchlen + 1) key) (drop (matchlen + 1) key) value of
                          Inl e \<Rightarrow> Inl e
                        | Inr (_, c2) \<Rightarrow>
                            let branch = FullNode ((replicate 17 NilNode)
                                  [unat (k ! matchlen) := c1, unat (key ! matchlen) := c2]) (newFlag t)
                            in Inr (True, if matchlen = 0 then branch
                                          else ShortNode (take matchlen key) branch (newFlag t))))
                else Inl TriePanic)
        | FullNode cs fl \<Rightarrow>
            if unat (hd key) < length cs then
              (case insert db t (cs ! unat (hd key)) (prefix @ [hd key]) (tl key) value of
                 Inl e \<Rightarrow> Inl e
               | Inr (d, nn) \<Rightarrow>
                   Inr (if d then (True, FullNode (cs[unat (hd key) := nn]) (newFlag t)) else (False, n)))
            else Inl TriePanic
        | NilNode \<Rightarrow> Inr (True, ShortNode key value (newFlag t))
        | HashNode h \<Rightarrow>
            (case resolveHash db t h prefix key of
               Inl e \<Rightarrow> Inl e
             | Inr rn \<Rightarrow>
                 (case insert db t rn prefix key value of
                    Inl e \<Rightarrow> Inl e
                  | Inr (d, nn) \<Rightarrow> Inr (if d then (True, nn) else (False, rn))))
        | ValueNode v \<Rightarrow> Inl TriePanic)"
  by pat_completeness auto
termination
  by (relation "measures [\<lambda>(db, t, n, prefix, key, value). if n = NilNode then 0 else Suc (length key),
        \<lambda>(db, t, n, prefix, key, value). slack n, \<lambda>(db, t, n, prefix, key, value). is_hash n]")
    (auto dest!: resolveHash_form intro: match_less)

declare insert.simps [simp del]


fun single_child :: "nat \<Rightarrow> node list \<Rightarrow> int \<Rightarrow> int" where
  \<comment> \<open>the loop over \<open>n.Children\<close> of \<open>delete\<close> at index \<open>i\<close>, with its variable \<open>pos\<close>\<close>
  "single_child i [] p = p"
| "single_child i (c # cs) p =
     (if c \<noteq> NilNode then (if p = -1 then single_child (Suc i) cs (int i) else -2)
      else single_child (Suc i) cs p)"

lemma suffix_less: "\<not> prefixLen key k < length k \<Longrightarrow> k \<noteq> [] \<Longrightarrow> length key - length k < length key"
  using prefixLen_le(1) [of key k] by (cases key; cases k) auto

function delete :: "trie_db \<Rightarrow> trie \<Rightarrow> node \<Rightarrow> nibbles \<Rightarrow> nibbles \<Rightarrow> trie_error + bool \<times> node" where
  "delete db t n prefix key =
     (case n of
        ShortNode k v fl \<Rightarrow>
          (let matchlen = prefixLen key k
           in if matchlen < length k then Inr (False, n)
              else if matchlen = length key then Inr (True, NilNode)
              else
                (case delete db t v (prefix @ take (length k) key) (drop (length k) key) of
                   Inl e \<Rightarrow> Inl e
                 | Inr (d, child) \<Rightarrow>
                     if \<not> d then Inr (False, n)
                     else (case child of
                             ShortNode ck cv cfl \<Rightarrow> Inr (True, ShortNode (k @ ck) cv (newFlag t))
                           | _ \<Rightarrow> Inr (True, ShortNode k child (newFlag t)))))
      | FullNode cs fl \<Rightarrow>
          if key \<noteq> [] \<and> unat (hd key) < length cs then
            (case delete db t (cs ! unat (hd key)) (prefix @ [hd key]) (tl key) of
               Inl e \<Rightarrow> Inl e
             | Inr (d, nn) \<Rightarrow>
                 if \<not> d then Inr (False, n)
                 else
                   let cs' = cs[unat (hd key) := nn]; p = single_child 0 cs' (-1)
                   in if p \<ge> 0 then
                        (if p \<noteq> 16 then
                           (case resolve db t (cs' ! nat p) prefix [of_int p] of
                              Inl e \<Rightarrow> Inl e
                            | Inr cnode \<Rightarrow>
                                (case cnode of
                                   ShortNode ck cv cfl \<Rightarrow> Inr (True, ShortNode (of_int p # ck) cv (newFlag t))
                                 | _ \<Rightarrow> Inr (True, ShortNode [of_int p] (cs' ! nat p) (newFlag t))))
                         else Inr (True, ShortNode [of_int p] (cs' ! nat p) (newFlag t)))
                      else Inr (True, FullNode cs' (newFlag t)))
          else Inl TriePanic
      | ValueNode v \<Rightarrow> Inr (True, NilNode)
      | NilNode \<Rightarrow> Inr (False, NilNode)
      | HashNode h \<Rightarrow>
          (case resolveHash db t h prefix key of
             Inl e \<Rightarrow> Inl e
           | Inr rn \<Rightarrow>
               (case delete db t rn prefix key of
                  Inl e \<Rightarrow> Inl e
                | Inr (d, nn) \<Rightarrow> Inr (if d then (True, nn) else (False, rn)))))"
  by pat_completeness auto
termination
  by (relation "measures [\<lambda>(db, t, n, prefix, key). length key, \<lambda>(db, t, n, prefix, key). slack n,
        \<lambda>(db, t, n, prefix, key). is_hash n]")
    (auto dest!: resolveHash_form intro: suffix_less)

declare delete.simps [simp del]

definition TryUpdate :: "trie_db \<Rightarrow> bytes \<Rightarrow> bytes \<Rightarrow> trie \<Rightarrow> trie_error option \<times> trie" where
  "TryUpdate db key value t =
     (let k = compactHexDecode key;
          r = (if value \<noteq> [] then insert db t (root t) [] k (ValueNode value) else delete db t (root t) [] k)
      in case r of Inl e \<Rightarrow> (Some e, t) | Inr (_, n) \<Rightarrow> (None, t\<lparr>root := n\<rparr>))"

definition TryDelete :: "trie_db \<Rightarrow> bytes \<Rightarrow> trie \<Rightarrow> trie_error option \<times> trie" where
  "TryDelete db key t =
     (case delete db t (root t) [] (compactHexDecode key) of
        Inl e \<Rightarrow> (Some e, t)
      | Inr (_, n) \<Rightarrow> (None, t\<lparr>root := n\<rparr>))"

definition Update :: "trie_db \<Rightarrow> bytes \<Rightarrow> bytes \<Rightarrow> trie \<Rightarrow> trie_error option \<times> trie" where
  "Update db key value t =
     (case TryUpdate db key value t of (err, t') \<Rightarrow> (Option.bind err unless_panic, t'))"

definition Delete :: "trie_db \<Rightarrow> bytes \<Rightarrow> trie \<Rightarrow> trie_error option \<times> trie" where
  "Delete db key t = (case TryDelete db key t of (err, t') \<Rightarrow> (Option.bind err unless_panic, t'))"

definition emptyRoot :: bytes where
  "emptyRoot =
     [0x56, 0xe8, 0x1f, 0x17, 0x1b, 0xcc, 0x55, 0xa6, 0xff, 0x83, 0x45, 0xe6, 0x92, 0xc0, 0xf8, 0x6e,
      0x5b, 0x48, 0xe0, 0x1b, 0x99, 0x6c, 0xad, 0xc0, 0x01, 0x62, 0x2f, 0xb5, 0xe3, 0x63, 0xb4, 0x21]"

definition New :: "bytes \<Rightarrow> trie_db option \<Rightarrow> trie_error + trie" where
  "New rt db =
     (let t = \<lparr>root = NilNode, originalRoot = rt, cachegen = 0, cachelimit = 0\<rparr>
      in if rt \<noteq> replicate 32 0 \<and> rt \<noteq> emptyRoot then
           (case db of
              None \<Rightarrow> Inl TriePanic
            | Some d \<Rightarrow>
                (case resolveHash d t rt [] [] of
                   Inl e \<Rightarrow> Inl e
                 | Inr rootnode \<Rightarrow> Inr (t\<lparr>root := rootnode\<rparr>)))
         else Inr t)"

lemmas tryGet_shape =
  tryGet.simps [of db t NilNode, unfolded node.case]
  tryGet.simps [of db t "ValueNode v", unfolded node.case]
  tryGet.simps [of db t "ShortNode k v fl", unfolded node.case]
  tryGet.simps [of db t "FullNode cs fl", unfolded node.case]
  tryGet.simps [of db t "HashNode h", unfolded node.case] for db t k v fl cs h

lemmas insert_shape =
  insert.simps [of db t NilNode, unfolded node.case]
  insert.simps [of db t "ValueNode v", unfolded node.case]
  insert.simps [of db t "ShortNode k v fl", unfolded node.case]
  insert.simps [of db t "FullNode cs fl", unfolded node.case]
  insert.simps [of db t "HashNode h", unfolded node.case] for db t k v fl cs h

lemmas delete_shape =
  delete.simps [of db t NilNode, unfolded node.case]
  delete.simps [of db t "ValueNode v", unfolded node.case]
  delete.simps [of db t "ShortNode k v fl", unfolded node.case]
  delete.simps [of db t "FullNode cs fl", unfolded node.case]
  delete.simps [of db t "HashNode h", unfolded node.case] for db t k v fl cs h

end
