(* ===== verification/Trie_Refine.thy ===== *)
theory Trie_Refine
  imports Trie_Ops
begin

text \<open>
  The trie operations refine the plain trie: a node, with whatever parts of it are hashed,
  cached or only in the database, represents a plain trie; lookup, insertion and deletion return
  without error and are the operations of \<open>Trie_Spec\<close> on it.
\<close>

section \<open>What a node in memory stands for\<close>

definition saved :: "(bytes \<Rightarrow> bytes) \<Rightarrow> trie_db \<Rightarrow> ptrie \<Rightarrow> bool" where
  "saved H db p \<longleftrightarrow> db (H (penc H p)) = Some (penc H p) \<and> length (penc H p) < 2 ^ 64"

fun stored :: "(bytes \<Rightarrow> bytes) \<Rightarrow> trie_db \<Rightarrow> ptrie \<Rightarrow> bool" where
  \<comment> \<open>every node below that is not embedded in its parent is in the database\<close>
  "stored H db PNil \<longleftrightarrow> True"
| "stored H db (PVal v) \<longleftrightarrow> True"
| "stored H db (PShort k c) \<longleftrightarrow> (32 \<le> length (penc H (PShort k c)) \<longrightarrow> saved H db (PShort k c)) \<and> stored H db c"
| "stored H db (PFull ps) \<longleftrightarrow>
     (32 \<le> length (penc H (PFull ps)) \<longrightarrow> saved H db (PFull ps)) \<and> list_all (stored H db) ps"

definition flag_ok :: "(bytes \<Rightarrow> bytes) \<Rightarrow> trie_db \<Rightarrow> bool \<Rightarrow> nodeFlag \<Rightarrow> ptrie \<Rightarrow> bool" where
  \<comment> \<open>a cached hash is right, and a clean node is in the database; only the root has a hash when it is small\<close>
  "flag_ok H db tp fl p \<longleftrightarrow>
     (\<not> dirty fl \<longrightarrow> stored H db p \<and> (tp \<longrightarrow> saved H db p)) \<and>
     (hash fl \<noteq> None \<longrightarrow> hash fl = Some (H (penc H p)) \<and> (tp \<or> 32 \<le> length (penc H p)))"

inductive repr :: "(bytes \<Rightarrow> bytes) \<Rightarrow> trie_db \<Rightarrow> bool \<Rightarrow> node \<Rightarrow> ptrie \<Rightarrow> bool" for H db where
  repr_nil: "repr H db tp NilNode PNil"
| repr_val: "repr H db tp (ValueNode v) (PVal v)"
| repr_short: "repr H db False v c \<Longrightarrow> flag_ok H db tp fl (PShort k c) \<Longrightarrow>
    repr H db tp (ShortNode k v fl) (PShort k c)"
| repr_full: "list_all2 (repr H db False) cs ps \<Longrightarrow> flag_ok H db tp fl (PFull ps) \<Longrightarrow>
    repr H db tp (FullNode cs fl) (PFull ps)"
| repr_hash: "wfp p \<Longrightarrow> saved H db p \<Longrightarrow> stored H db p \<Longrightarrow> tp \<or> 32 \<le> length (penc H p) \<Longrightarrow>
    repr H db tp (HashNode (H (penc H p))) p"
monos list_all2_mono

inductive_cases repr_NilNodeE: "repr H db tp NilNode p"
inductive_cases repr_ValueNodeE: "repr H db tp (ValueNode v) p"
inductive_cases repr_ShortNodeE: "repr H db tp (ShortNode k v fl) p"
inductive_cases repr_FullNodeE: "repr H db tp (FullNode cs fl) p"
inductive_cases repr_HashNodeE: "repr H db tp (HashNode h) p"
inductive_cases repr_PNilE: "repr H db tp n PNil"
inductive_cases repr_PShortE: "repr H db tp n (PShort k c)"
inductive_cases repr_PFullE: "repr H db tp n (PFull ps)"

lemmas repr_cases = repr_NilNodeE repr_ValueNodeE repr_ShortNodeE repr_FullNodeE repr_HashNodeE

lemma repr_Nil: "repr H db tp n PNil \<longleftrightarrow> n = NilNode" "repr H db tp NilNode p \<longleftrightarrow> p = PNil"
  by (auto elim!: repr_PNilE repr_NilNodeE intro: repr_nil)

lemma flag_ok_newFlag [simp]: "flag_ok H db tp (newFlag t) p"
  by (simp add: flag_ok_def newFlag_def)

lemma flag_ok_gen [simp]: "flag_ok H db tp (fl\<lparr>gen := g\<rparr>) p \<longleftrightarrow> flag_ok H db tp fl p"
  by (simp add: flag_ok_def)

lemma stored_saved: "stored H db p \<Longrightarrow> inner p \<Longrightarrow> 32 \<le> length (penc H p) \<Longrightarrow> saved H db p"
  by (cases p) auto

definition insert_ok :: "(bytes \<Rightarrow> bytes) \<Rightarrow> trie_db \<Rightarrow> bool \<Rightarrow> bytes \<Rightarrow> nibbles \<Rightarrow> ptrie \<Rightarrow> trie_error + bool \<times> node \<Rightarrow> bool" where
  "insert_ok H db tp w key p r \<longleftrightarrow>
     (case r of Inl e \<Rightarrow> False
      | Inr (d, n') \<Rightarrow> repr H db tp n' (pinsert p key (PVal w)) \<and> (\<not> d \<longrightarrow> pinsert p key (PVal w) = p))"

context hash_fn
begin

lemma repr_dchild:
  "(p = PNil \<or> is_val p \<or> wfp p) \<Longrightarrow> stored H db p \<Longrightarrow> repr H db False n p \<Longrightarrow> repr H db False (dchild H p n) p"
  by (auto simp: dchild_def intro!: repr_hash stored_saved dest: is_val_cases)

lemma flag_ok_clean:
  assumes "stored H db p" "h \<noteq> None \<or> tp \<Longrightarrow> h = Some (H (penc H p)) \<and> saved H db p \<and> (tp \<or> 32 \<le> length (penc H p))"
  shows "flag_ok H db tp \<lparr>hash = h, gen = g, dirty = False\<rparr> p"
  using assms by (auto simp: flag_ok_def)

lemma wfp_entries: "wfp (PFull ps) \<Longrightarrow> p \<in> set ps \<Longrightarrow> p = PNil \<or> is_val p \<or> wfp p"
  by (auto simp: wfp_full in_set_conv_nth entry_ok_def) metis

lemma repr_dnode:
  "p = PNil \<or> is_val p \<or> wfp p \<Longrightarrow> stored H db p \<Longrightarrow>
   (h \<noteq> None \<or> tp \<Longrightarrow> h = Some (H (penc H p)) \<and> saved H db p \<and> (tp \<or> 32 \<le> length (penc H p))) \<Longrightarrow>
   repr H db tp (dnode H g h p) p"
proof (induction p arbitrary: h tp)
  case (PShort k c)
  then have c: "c = PNil \<or> is_val c \<or> wfp c" "stored H db c" by auto
  then have "repr H db False (dnode H g None c) c" by (intro PShort.IH) auto
  then have "repr H db False (dref H g c) c" using repr_dchild c by blast
  moreover have "flag_ok H db tp \<lparr>hash = h, gen = g, dirty = False\<rparr> (PShort k c)"
    using PShort.prems(2,3) by (rule flag_ok_clean)
  ultimately show ?case by (simp add: repr_short)
next
  case (PFull ps)
  have "repr H db False (dref H g c) c" if "c \<in> set ps" for c
  proof -
    have c: "c = PNil \<or> is_val c \<or> wfp c" "stored H db c"
      using wfp_entries [OF _ that] PFull.prems(1,2) that by (auto simp: list_all_iff)
    then have "repr H db False (dnode H g None c) c" by (intro PFull.IH [OF that]) auto
    then show ?thesis using repr_dchild c by blast
  qed
  then have "list_all2 (repr H db False) (map (dref H g) ps) ps" by (simp add: list_all2_map1 list.rel_refl_strong)
  moreover have "flag_ok H db tp \<lparr>hash = h, gen = g, dirty = False\<rparr> (PFull ps)"
    using PFull.prems(2,3) by (rule flag_ok_clean)
  ultimately show ?case by (simp add: repr_full)
qed (auto intro: repr_nil repr_val)

lemma resolveHash_repr:
  assumes "repr H db tp (HashNode h) p"
  obtains n where "resolveHash db t h pre suf = Inr n" "repr H db tp n p" "\<And>h'. n \<noteq> HashNode h'" "wfp p"
proof -
  from assms have p: "wfp p" "saved H db p" "stored H db p" "tp \<or> 32 \<le> length (penc H p)" "h = H (penc H p)"
    by (auto elim: repr_HashNodeE)
  have "decodeNode (Some h) (penc H p @ []) (cachegen t) = Inr (dnode H (cachegen t) (Some h) p)"
    using p by (intro decodeNode_enc) (auto simp: saved_def)
  then have "resolveHash db t h pre suf = Inr (dnode H (cachegen t) (Some h) p)"
    using p by (simp add: resolveHash_def saved_def mustDecodeNode_def)
  moreover have "repr H db tp (dnode H (cachegen t) (Some h) p) p"
    using p by (intro repr_dnode) auto
  moreover have "dnode H (cachegen t) (Some h) p \<noteq> HashNode h'" for h' by (cases p) auto
  ultimately show thesis using that p(1) by blast
qed

lemma list_all2_update: "list_all2 P xs ys \<Longrightarrow> P x y \<Longrightarrow> list_all2 P (xs[i := x]) (ys[i := y])"
  by (rule list_all2_update_cong)

lemma tryGet_repr:
  "repr H db tp n p \<Longrightarrow> fits_key p (drop ps key) \<Longrightarrow> ps \<le> length key \<Longrightarrow>
   \<exists>n' d. tryGet db t n key ps = Inr (plookup p (drop ps key), n', d) \<and> repr H db tp n' p"
proof (induction db t n key ps arbitrary: p tp rule: tryGet.induct)
  case (1 db t n key ps)
  note tryGet_shape [simp]
  show ?case
  proof (cases n)
    case NilNode
    then show ?thesis using "1.prems" by (simp add: repr_Nil) blast
  next
    case (ValueNode v)
    then show ?thesis using "1.prems" by (auto simp: fits_key_def elim!: repr_cases intro: repr_val)
  next
    case (HashNode h)
    obtain n' where n': "resolveHash db t h (take ps key) (drop ps key) = Inr n'" "repr H db tp n' p"
      using resolveHash_repr "1.prems"(1) [unfolded HashNode] by blast
    obtain m d where "tryGet db t n' key ps = Inr (plookup p (drop ps key), m, d)" "repr H db tp m p"
      using "1.IH"(3) [OF HashNode n' "1.prems"(2,3)] by blast
    then show ?thesis using n'(1) by (simp add: HashNode) blast
  next
    case (ShortNode k v fl)
    then obtain c where p: "p = PShort k c" and c: "repr H db False v c" "flag_ok H db tp fl p"
      using "1.prems"(1) by (auto elim: repr_cases)
    show ?thesis
    proof (cases "length key - ps < length k \<or> k \<noteq> take (length k) (drop ps key)")
      case True
      then have "take (length k) (drop ps key) \<noteq> k" by auto
      then show ?thesis using True "1.prems"(1) p by (simp add: ShortNode) blast
    next
      case False
      then have m: "drop ps key = k @ drop (ps + length k) key"
        by (metis append_take_drop_id drop_drop add.commute)
      have "wfp (PShort k c)" "is_key (k @ drop (ps + length k) key)" using "1.prems"(2) p m by (auto simp: fits_key_def)
      then have "fits_key c (drop (ps + length k) key)" using fits_short by blast
      then obtain n' d where "tryGet db t v key (ps + length k) = Inr (plookup c (drop (ps + length k) key), n', d)" "repr H db False n' c"
        using "1.IH"(2) [OF ShortNode False c(1)] False "1.prems"(3) by force
      then show ?thesis using False p m c by (cases d) (auto simp: ShortNode repr_short)
    qed
  next
    case (FullNode cs fl)
    then obtain qs where p: "p = PFull qs" and c: "list_all2 (repr H db False) cs qs" "flag_ok H db tp fl p"
      using "1.prems"(1) by (auto elim: repr_cases)
    have w: "wfp (PFull qs)" "is_key (drop ps key)" using "1.prems"(2) p by (auto simp: fits_key_def)
    then have lt: "ps < length key" by (metis drop_all leI not_is_key_Nil)
    then have m: "drop ps key = key ! ps # drop (ps + 1) key" by (simp add: Cons_nth_drop_Suc)
    let ?i = "unat (key ! ps)"
    have i: "?i < length qs" "fits_key (qs ! ?i) (drop (ps + 1) key)"
      using fits_full [OF w(1) w(2) [unfolded m]] by auto
    have l: "length cs = length qs" and r0: "repr H db False (cs ! ?i) (qs ! ?i)"
      using c(1) i(1) by (auto simp: list_all2_conv_all_nth)
    obtain n' d where r: "tryGet db t (cs ! ?i) key (ps + 1) = Inr (plookup (qs ! ?i) (drop (ps + 1) key), n', d)" "repr H db False n' (qs ! ?i)"
      using "1.IH"(1) [OF FullNode _ r0 i(2)] lt i(1) l by auto
    have "list_all2 (repr H db False) (cs[?i := n']) qs"
      using list_all2_update [OF c(1) r(2), of ?i] by simp
    then show ?thesis using p m c r lt i(1) l
      by (cases d) (auto simp: FullNode repr_full)
  qed
qed

lemma repr_leaf:
  assumes "repr H db tp n p" "p = PNil \<or> is_val p"
  shows "n = NilNode \<and> p = PNil \<or> (\<exists>v. n = ValueNode v \<and> p = PVal v \<and> v \<noteq> [])"
  using assms(1)
proof cases
  case repr_hash
  then show ?thesis using assms(2) wfp_not_nil by metis
qed (use assms(2) in auto)

lemma insert_fork:
  assumes "a \<noteq> b" "unat a < 17" "unat b < 17"
  shows "insert db t (ShortNode (q @ a # as) v fl) pre (q @ b # bs) value =
    Inr (True, (if q = [] then (\<lambda>n. n) else (\<lambda>n. ShortNode q n (newFlag t)))
      (FullNode ((replicate 17 NilNode)
         [unat a := (if as = [] then v else ShortNode as v (newFlag t)),
          unat b := (if bs = [] then value else ShortNode bs value (newFlag t))]) (newFlag t)))"
  using assms prefixLen_fork [of a b q bs as]
  by (simp add: insert_shape(3) insert_shape(1) Let_def nth_append)

lemma insert_step_short:
  "k \<noteq> [] \<Longrightarrow> insert db t (ShortNode k v fl) pre (k @ r) value =
     map_ok (\<lambda>(d, nn). if d then (True, ShortNode k nn (newFlag t)) else (False, ShortNode k v fl))
       (insert db t v (pre @ k) r value)"
  using prefixLen_whole [of "k @ r" k] by (simp add: insert_shape(3) Let_def map_ok_def split: sum.split)

lemma insert_step_full:
  "unat x < length cs \<Longrightarrow> insert db t (FullNode cs fl) pre (x # xs) value =
     map_ok (\<lambda>(d, nn). if d then (True, FullNode (cs[unat x := nn]) (newFlag t)) else (False, FullNode cs fl))
       (insert db t (cs ! unat x) (pre @ [x]) xs value)"
  by (simp add: insert_shape(4) map_ok_def split: sum.split)

lemma insert_step_hash:
  "key \<noteq> [] \<Longrightarrow> resolveHash db t h pre key = Inr rn \<Longrightarrow> insert db t (HashNode h) pre key value =
     map_ok (\<lambda>(d, nn). if d then (True, nn) else (False, rn)) (insert db t rn pre key value)"
  by (simp add: insert_shape(5) map_ok_def split: sum.split)

lemma insert_resolved:
  assumes "\<And>n. repr H db tp n p \<Longrightarrow> \<forall>h. n \<noteq> HashNode h \<Longrightarrow> insert_ok H db tp w key p (insert db t n pre key (ValueNode w))"
    and "repr H db tp n p" "key \<noteq> []"
  shows "insert_ok H db tp w key p (insert db t n pre key (ValueNode w))"
proof (cases "\<exists>h. n = HashNode h")
  case True
  then obtain h where h: "n = HashNode h" by blast
  obtain n' where n': "resolveHash db t h pre key = Inr n'" "repr H db tp n' p" "\<forall>h'. n' \<noteq> HashNode h'"
    using resolveHash_repr assms(2) [unfolded h] by blast
  obtain d m where "insert db t n' pre key (ValueNode w) = Inr (d, m)" "repr H db tp m (pinsert p key (PVal w))"
    "\<not> d \<longrightarrow> pinsert p key (PVal w) = p"
    using assms(1) [OF n'(2,3)] by (auto simp: insert_ok_def split: sum.split_asm)
  then show ?thesis using n' assms(3) by (cases d) (simp_all add: h insert_step_hash insert_ok_def)
next
  case False
  then show ?thesis using assms by blast
qed

lemma insert_repr_short:
  assumes n: "repr H db tp n (PShort k c)" "\<forall>h. n \<noteq> HashNode h" and w: "w \<noteq> []" "k \<noteq> []" "is_key (k @ r)"
    and IH: "\<And>v pre. repr H db False v c \<Longrightarrow> insert_ok H db False w r c (insert db t v pre r (ValueNode w))"
  shows "insert_ok H db tp w (k @ r) (PShort k c) (insert db t n pre (k @ r) (ValueNode w))"
proof -
  from n obtain v fl where v: "n = ShortNode k v fl" "repr H db False v c" by (auto elim: repr_PShortE)
  obtain d m where "insert db t v (pre @ k) r (ValueNode w) = Inr (d, m)" "repr H db False m (pinsert c r (PVal w))"
    "\<not> d \<longrightarrow> pinsert c r (PVal w) = c"
    using IH [OF v(2), of "pre @ k"] by (auto simp: insert_ok_def split: sum.split_asm)
  then show ?thesis using v n(1) w
    by (cases d) (simp_all add: insert_step_short insert_ok_def pinsert_short repr_short)
qed

lemma insert_repr_full:
  assumes n: "repr H db tp n (PFull ps)" "\<forall>h. n \<noteq> HashNode h" and x: "unat x < length ps"
    and IH: "\<And>v pre. repr H db False v (ps ! unat x) \<Longrightarrow>
      insert_ok H db False w xs (ps ! unat x) (insert db t v pre xs (ValueNode w))"
  shows "insert_ok H db tp w (x # xs) (PFull ps) (insert db t n pre (x # xs) (ValueNode w))"
proof -
  from n obtain cs fl where v: "n = FullNode cs fl" "list_all2 (repr H db False) cs ps" by (auto elim: repr_PFullE)
  then have l: "length cs = length ps" "repr H db False (cs ! unat x) (ps ! unat x)"
    using x by (auto simp: list_all2_conv_all_nth)
  obtain d m where m: "insert db t (cs ! unat x) (pre @ [x]) xs (ValueNode w) = Inr (d, m)"
    "repr H db False m (pinsert (ps ! unat x) xs (PVal w))" "\<not> d \<longrightarrow> pinsert (ps ! unat x) xs (PVal w) = ps ! unat x"
    using IH [OF l(2), of "pre @ [x]"] by (auto simp: insert_ok_def split: sum.split_asm)
  have "list_all2 (repr H db False) (cs[unat x := m]) (ps[unat x := pinsert (ps ! unat x) xs (PVal w)])"
    using list_all2_update v(2) m(2) .
  then show ?thesis using v n(1) m x l
    by (cases d) (simp_all add: insert_step_full insert_ok_def pinsert_full repr_full)
qed

lemma insert_repr_fork:
  assumes n: "repr H db tp n (PShort (q @ a # as) c)" "\<forall>h. n \<noteq> HashNode h" and ab: "a \<noteq> b" "unat a < 17" "unat b < 17"
  shows "insert_ok H db tp w (q @ b # bs) (PShort (q @ a # as) c) (insert db t n pre (q @ b # bs) (ValueNode w))"
proof -
  from n obtain v fl where v: "n = ShortNode (q @ a # as) v fl" "repr H db False v c" by (auto elim: repr_PShortE)
  have leaf: "repr H db False (if ks = [] then m else ShortNode ks m (newFlag t)) (pshort ks p)"
    if "repr H db False m p" for ks m p
    using that by (auto simp: pshort_def repr_short)
  have "list_all2 (repr H db False) (replicate 17 NilNode) (replicate 17 PNil)"
    by (simp add: list_all2_conv_all_nth repr_nil)
  then have "list_all2 (repr H db False)
      ((replicate 17 NilNode)[unat a := (if as = [] then v else ShortNode as v (newFlag t)),
         unat b := (if bs = [] then ValueNode w else ShortNode bs (ValueNode w) (newFlag t))])
      ((replicate 17 PNil)[unat a := pshort as c, unat b := pshort bs (PVal w)])"
    by (intro list_all2_update leaf v(2) repr_val)
  then show ?thesis using ab v(1)
    by (simp add: insert_fork insert_ok_def pinsert_fork pshort_def [of q] pbranch_def repr_short repr_full)
qed

lemma insert_repr:
  "w \<noteq> [] \<Longrightarrow> fits_key p key \<Longrightarrow> repr H db tp n p \<Longrightarrow>
   insert_ok H db tp w key p (insert db t n pre key (ValueNode w))"
proof (induction p arbitrary: key n tp pre)
  case PNil
  then show ?case by (auto simp: repr_Nil insert_ok_def insert_shape(1) pinsert.simps repr_val intro!: repr_short)
next
  case (PVal v)
  then have "n = ValueNode v" "key = []" using repr_leaf [OF PVal.prems(3)] by (auto simp: fits_key_def)
  then show ?case by (simp add: insert_ok_def insert_shape(2) pinsert_Nil repr_val)
next
  case (PShort k c)
  have key: "key \<noteq> []" using PShort.prems(2) by (auto simp: fits_key_def)
  from PShort.prems(2) show ?case
  proof (cases rule: fits_cases)
    case (3 k' c' r)
    then have "insert_ok H db False w r c (insert db t v pre r (ValueNode w))" if "repr H db False v c" for v pre
      using PShort.IH [OF PShort.prems(1) _ that] by simp
    then have "insert_ok H db tp w key (PShort k c) (insert db t m pre key (ValueNode w))"
      if "repr H db tp m (PShort k c)" "\<forall>h. m \<noteq> HashNode h" for m
      using insert_repr_short [OF that PShort.prems(1)] 3 by simp
    then show ?thesis using PShort.prems(3) key by (rule insert_resolved)
  next
    case (4 q a as b bs c')
    then have "insert_ok H db tp w key (PShort k c) (insert db t m pre key (ValueNode w))"
      if "repr H db tp m (PShort k c)" "\<forall>h. m \<noteq> HashNode h" for m
      using insert_repr_fork that by simp
    then show ?thesis using PShort.prems(3) key by (rule insert_resolved)
  qed (use PShort.prems(2) in \<open>auto simp: fits_key_def\<close>)
next
  case (PFull ps)
  have key: "key \<noteq> []" using PFull.prems(2) by (auto simp: fits_key_def)
  from PFull.prems(2) show ?case
  proof (cases rule: fits_cases)
    case (5 qs x xs)
    then have "insert_ok H db False w xs (ps ! unat x) (insert db t v pre xs (ValueNode w))"
      if "repr H db False v (ps ! unat x)" for v pre
      using PFull.IH [of "ps ! unat x" xs False v, OF _ PFull.prems(1) _ that] by simp
    then have "insert_ok H db tp w key (PFull ps) (insert db t m pre key (ValueNode w))"
      if "repr H db tp m (PFull ps)" "\<forall>h. m \<noteq> HashNode h" for m
      using insert_repr_full [OF that] 5 by simp
    then show ?thesis using PFull.prems(3) key by (rule insert_resolved)
  qed (use PFull.prems(2) in \<open>auto simp: fits_key_def\<close>)
qed

end

section \<open>Deletion of nodes\<close>

lemma single_child_found: "0 \<le> p \<Longrightarrow> single_child i cs p = (if \<forall>c \<in> set cs. c = NilNode then p else -2)"
  by (induction cs arbitrary: i) auto

lemma single_child_filter:
  "single_child i cs (-1) =
     (case filter (\<lambda>j. cs ! (j - i) \<noteq> NilNode) [i..<i + length cs] of [] \<Rightarrow> -1 | [j] \<Rightarrow> int j | _ \<Rightarrow> -2)"
proof (induction cs arbitrary: i)
  case (Cons c cs)
  have f: "filter (\<lambda>j. (c # cs) ! (j - i) \<noteq> NilNode) [Suc i..<i + length (c # cs)] =
      filter (\<lambda>j. cs ! (j - Suc i) \<noteq> NilNode) [Suc i..<Suc i + length cs]"
    by (rule filter_cong) (auto simp: nth_Cons' not_le)
  have u: "[i..<i + length (c # cs)] = i # [Suc i..<i + length (c # cs)]" by (rule upt_conv_Cons) simp
  have e: "(\<forall>c \<in> set cs. c = NilNode) \<longleftrightarrow> filter (\<lambda>j. cs ! (j - Suc i) \<noteq> NilNode) [Suc i..<Suc i + length cs] = []"
    (is "_ \<longleftrightarrow> ?r")
  proof
    assume r: ?r
    have "cs ! k = NilNode" if "k < length cs" for k
    proof -
      have "Suc i + k \<in> set [Suc i..<Suc i + length cs]" using that by (simp only: set_upt atLeastLessThan_iff) simp
      with r have "cs ! (Suc i + k - Suc i) = NilNode" by (simp only: filter_empty_conv) blast
      then show ?thesis by simp
    qed
    then show "\<forall>c \<in> set cs. c = NilNode" by (auto simp: in_set_conv_nth)
  qed (auto simp: filter_empty_conv)
  show ?case unfolding u filter.simps f
    by (cases "c = NilNode") (auto simp: Cons.IH single_child_found e split: list.split)
qed simp

definition delete_ok :: "(bytes \<Rightarrow> bytes) \<Rightarrow> trie_db \<Rightarrow> bool \<Rightarrow> bool \<times> ptrie \<Rightarrow> trie_error + bool \<times> node \<Rightarrow> bool" where
  "delete_ok H db tp dp r \<longleftrightarrow>
     (case r of Inl e \<Rightarrow> False
      | Inr (d, n') \<Rightarrow> d = fst dp \<and> repr H db tp n' (snd dp) \<and> (d \<longrightarrow> (\<forall>h. n' \<noteq> HashNode h)))"

definition merge_child :: "trie \<Rightarrow> nibbles \<Rightarrow> node \<Rightarrow> node \<Rightarrow> node" where
  \<comment> \<open>a short node in front of a child whose loaded form is \<open>m\<close>\<close>
  "merge_child t k n m =
     (case m of ShortNode ck cv cfl \<Rightarrow> ShortNode (k @ ck) cv (newFlag t) | _ \<Rightarrow> ShortNode k n (newFlag t))"

definition reduce_full :: "trie_db \<Rightarrow> trie \<Rightarrow> nibbles \<Rightarrow> node list \<Rightarrow> trie_error + node" where
  \<comment> \<open>the end of \<open>delete\<close> on a full node\<close>
  "reduce_full db t pre cs =
     (let p = single_child 0 cs (-1)
      in if p < 0 then Inr (FullNode cs (newFlag t))
         else if p = 16 then Inr (ShortNode [of_int p] (cs ! nat p) (newFlag t))
         else map_ok (merge_child t [of_int p] (cs ! nat p)) (resolve db t (cs ! nat p) pre [of_int p]))"

lemma delete_step_short:
  "k \<noteq> [] \<Longrightarrow> delete db t (ShortNode k v fl) pre (k @ r) =
     (if r = [] then Inr (True, NilNode)
      else map_ok (\<lambda>(d, m). if d then (True, merge_child t k m m) else (False, ShortNode k v fl))
        (delete db t v (pre @ k) r))"
  using prefixLen_whole [of "k @ r" k]
  by (auto simp: delete_shape(3) Let_def map_ok_def merge_child_def split: sum.split node.split)

lemma delete_fork:
  "a \<noteq> b \<Longrightarrow> delete db t (ShortNode (q @ a # as) v fl) pre (q @ b # bs) = Inr (False, ShortNode (q @ a # as) v fl)"
  by (simp add: delete_shape(3) prefixLen_fork)

lemma delete_step_full:
  "unat x < length cs \<Longrightarrow> delete db t (FullNode cs fl) pre (x # xs) =
     (case delete db t (cs ! unat x) (pre @ [x]) xs of
        Inl e \<Rightarrow> Inl e
      | Inr (d, m) \<Rightarrow> if d then map_ok (Pair True) (reduce_full db t pre (cs[unat x := m])) else Inr (False, FullNode cs fl))"
  by (simp add: delete_shape(4) reduce_full_def Let_def map_ok_def merge_child_def split: sum.split node.split)

lemma delete_step_hash:
  "resolveHash db t h pre key = Inr rn \<Longrightarrow> delete db t (HashNode h) pre key =
     map_ok (\<lambda>(d, nn). if d then (True, nn) else (False, rn)) (delete db t rn pre key)"
  by (simp add: delete_shape(5) map_ok_def split: sum.split)

lemma single_child_nonnil:
  assumes "list_all2 (repr H db False) cs ps"
  shows "single_child 0 cs (-1) = (case nonnil ps of [] \<Rightarrow> -1 | [j] \<Rightarrow> int j | _ \<Rightarrow> -2)"
proof -
  have l: "length cs = length ps" using assms by (rule list_all2_lengthD)
  have "filter (\<lambda>j. cs ! (j - 0) \<noteq> NilNode) [0..<0 + length cs] = nonnil ps"
    unfolding nonnil_def l add_0
    by (rule filter_cong) (use assms repr_Nil in \<open>auto simp: list_all2_conv_all_nth\<close>)
  then show ?thesis using single_child_filter [of 0 cs] by simp
qed

context hash_fn
begin

lemma merge_child_repr:
  assumes "repr H db False n p" "repr H db False m p" "\<forall>h. m \<noteq> HashNode h"
  shows "repr H db tp (merge_child t k n m) (pmerge k p)"
  using assms(2)
proof cases
  case (repr_short v c fl k')
  then show ?thesis by (simp add: merge_child_def pmerge_def repr.repr_short)
next
  case repr_hash
  then show ?thesis using assms(3) by blast
qed (use assms in \<open>simp_all add: merge_child_def pmerge_def repr.repr_short\<close>)

lemma resolve_repr:
  assumes "repr H db False n p"
  shows "\<exists>m. resolve db t n pre s = Inr m \<and> repr H db False m p \<and> (\<forall>h. m \<noteq> HashNode h)"
proof (cases "\<exists>h. n = HashNode h")
  case True
  then obtain h where h: "n = HashNode h" by blast
  obtain n' where "resolveHash db t h pre s = Inr n'" "repr H db False n' p" "\<And>h'. n' \<noteq> HashNode h'"
    using resolveHash_repr assms [unfolded h] by blast
  then show ?thesis by (simp add: resolve_def h)
next
  case False
  then show ?thesis using assms by (cases n) (simp_all add: resolve_def)
qed

lemma reduce_full_repr:
  assumes cs: "list_all2 (repr H db False) cs ps" and ps: "length ps = 17" "\<forall>i < 17. entry_ok i (ps ! i)"
  shows "\<exists>m. reduce_full db t pre cs = Inr m \<and> repr H db tp m (pcollapse ps) \<and> (\<forall>h. m \<noteq> HashNode h)"
proof (cases "\<exists>j. nonnil ps = [j]")
  case True
  then obtain j where j: "nonnil ps = [j]" by blast
  have s: "single_child 0 cs (-1) = int j" using single_child_nonnil [OF cs] j by simp
  have lt: "j < 17" using nonnil_single(1) [OF j] ps by simp
  have eq: "pcollapse ps = pmerge [of_nat j] (ps ! j)" by (simp add: pcollapse_def j)
  have n: "repr H db False (cs ! j) (ps ! j)" using cs lt ps by (simp add: list_all2_conv_all_nth)
  obtain m where m: "resolve db t (cs ! j) pre [of_nat j] = Inr m" "repr H db False m (ps ! j)" "\<forall>h. m \<noteq> HashNode h"
    using resolve_repr [OF n] by blast
  show ?thesis
  proof (cases "j = 16")
    case True
    have "entry_ok j (ps ! j)" using ps(2) lt by blast
    then have "is_val (ps ! j)" using True nonnil_single(2) [OF j] by (simp add: entry_ok_def)
    then obtain v where v: "ps ! j = PVal v" using is_val_cases by blast
    then have "pcollapse ps = PShort [16] (ps ! j)" using eq True by (simp add: pmerge_def)
    then show ?thesis using True s n by (simp add: reduce_full_def repr_short)
  next
    case False
    have "repr H db tp (merge_child t [of_nat j] (cs ! j) m) (pcollapse ps)"
      using merge_child_repr [OF n m(2,3)] eq by simp
    moreover have "\<forall>h. merge_child t [of_nat j] (cs ! j) m \<noteq> HashNode h" by (simp add: merge_child_def split: node.split)
    ultimately show ?thesis using False s m(1) by (simp add: reduce_full_def)
  qed
next
  case False
  then have "pcollapse ps = PFull ps" "single_child 0 cs (-1) < 0"
    using single_child_nonnil [OF cs] by (auto simp: pcollapse_def split: list.split)
  then show ?thesis using cs by (simp add: reduce_full_def repr_full)
qed

lemma delete_resolved:
  assumes "\<And>n. repr H db tp n p \<Longrightarrow> \<forall>h. n \<noteq> HashNode h \<Longrightarrow> delete_ok H db tp (pdelete p key) (delete db t n pre key)"
    and "\<not> fst (pdelete p key) \<Longrightarrow> snd (pdelete p key) = p" "repr H db tp n p"
  shows "delete_ok H db tp (pdelete p key) (delete db t n pre key)"
proof (cases "\<exists>h. n = HashNode h")
  case True
  then obtain h where h: "n = HashNode h" by blast
  obtain n' where n': "resolveHash db t h pre key = Inr n'" "repr H db tp n' p" "\<forall>h'. n' \<noteq> HashNode h'"
    using resolveHash_repr assms(3) [unfolded h] by blast
  obtain d m where "delete db t n' pre key = Inr (d, m)" "d = fst (pdelete p key)" "repr H db tp m (snd (pdelete p key))"
    "d \<longrightarrow> (\<forall>h. m \<noteq> HashNode h)"
    using assms(1) [OF n'(2,3)] by (auto simp: delete_ok_def split: sum.split_asm)
  then show ?thesis using n' assms(2) by (cases d) (simp_all add: h delete_step_hash delete_ok_def)
next
  case False
  then show ?thesis using assms by blast
qed

lemma delete_repr_short:
  assumes n: "repr H db tp n (PShort k c)" "\<forall>h. n \<noteq> HashNode h" and k: "k \<noteq> []"
    and IH: "\<And>v pre. r \<noteq> [] \<Longrightarrow> repr H db False v c \<Longrightarrow> delete_ok H db False (pdelete c r) (delete db t v pre r)"
  shows "delete_ok H db tp (pdelete (PShort k c) (k @ r)) (delete db t n pre (k @ r))"
proof (cases "r = []")
  case False
  from n obtain v fl where v: "n = ShortNode k v fl" "repr H db False v c" by (auto elim: repr_PShortE)
  obtain d c' where d: "pdelete c r = (d, c')" by fastforce
  obtain m where m: "delete db t v (pre @ k) r = Inr (d, m)" "repr H db False m c'" "d \<longrightarrow> (\<forall>h. m \<noteq> HashNode h)"
    using IH [OF False v(2), of "pre @ k"] d by (auto simp: delete_ok_def split: sum.split_asm)
  have "\<forall>h. merge_child t k m m \<noteq> HashNode h" by (simp add: merge_child_def split: node.split)
  then show ?thesis using v n(1) k d m merge_child_repr [OF m(2,2)] False
    by (cases d) (simp_all add: delete_step_short pdelete_short delete_ok_def)
next
  case True
  from n obtain v fl where v: "n = ShortNode k v fl" by (auto elim: repr_PShortE)
  then show ?thesis using True k delete_step_short [of k db t v fl pre "[]"] pdelete_short [of k c "[]"]
    by (simp add: delete_ok_def repr_nil)
qed

lemma delete_repr_full:
  assumes n: "repr H db tp n (PFull ps)" "\<forall>h. n \<noteq> HashNode h" and x: "unat x < length ps"
    and IH: "\<And>v pre. repr H db False v (ps ! unat x) \<Longrightarrow>
      delete_ok H db False (pdelete (ps ! unat x) xs) (delete db t v pre xs)"
    and w: "wfp (PFull ps)" "entry_ok (unat x) (snd (pdelete (ps ! unat x) xs))"
  shows "delete_ok H db tp (pdelete (PFull ps) (x # xs)) (delete db t n pre (x # xs))"
proof -
  from n obtain cs fl where v: "n = FullNode cs fl" "list_all2 (repr H db False) cs ps" by (auto elim: repr_PFullE)
  then have l: "length cs = length ps" "repr H db False (cs ! unat x) (ps ! unat x)"
    using x by (auto simp: list_all2_conv_all_nth)
  obtain d c' where d: "pdelete (ps ! unat x) xs = (d, c')" by fastforce
  obtain m where m: "delete db t (cs ! unat x) (pre @ [x]) xs = Inr (d, m)" "repr H db False m c'"
    using IH [OF l(2), of "pre @ [x]"] d by (auto simp: delete_ok_def split: sum.split_asm)
  have cs': "list_all2 (repr H db False) (cs[unat x := m]) (ps[unat x := c'])"
    using list_all2_update v(2) m(2) .
  have ok: "\<forall>i < 17. entry_ok i (ps[unat x := c'] ! i)" "length (ps[unat x := c']) = 17"
    using w d x by (auto simp: wfp_full nth_list_update)
  obtain m' where "reduce_full db t pre (cs[unat x := m]) = Inr m'" "repr H db tp m' (pcollapse (ps[unat x := c']))" "\<forall>h. m' \<noteq> HashNode h"
    using reduce_full_repr [OF cs' ok(2,1)] by blast
  then show ?thesis using v n(1) m x l d
    by (cases d) (simp_all add: delete_step_full delete_ok_def pdelete_full)
qed

lemma delete_repr:
  "fits_key p key \<Longrightarrow> repr H db tp n p \<Longrightarrow> delete_ok H db tp (pdelete p key) (delete db t n pre key)"
proof (induction p arbitrary: key n tp pre)
  case PNil
  then show ?case by (simp add: repr_Nil delete_ok_def delete_shape(1))
next
  case (PVal v)
  then have "n = ValueNode v" using repr_leaf [OF PVal.prems(2)] by (auto simp: fits_key_def)
  then show ?case by (simp add: delete_ok_def delete_shape(2) repr_nil)
next
  case (PShort k c)
  have same: "\<not> fst (pdelete (PShort k c) key) \<Longrightarrow> snd (pdelete (PShort k c) key) = PShort k c"
    using pdelete_deleted [OF PShort.prems(1)] by (metis deleted_def prod.collapse)
  from PShort.prems(1) show ?case
  proof (cases rule: fits_cases)
    case (3 k' c' r)
    then have "delete_ok H db False (pdelete c r) (delete db t v pre r)" if "repr H db False v c" for v pre
      using PShort.IH [OF _ that] by simp
    then have "delete_ok H db tp (pdelete (PShort k c) key) (delete db t m pre key)"
      if "repr H db tp m (PShort k c)" "\<forall>h. m \<noteq> HashNode h" for m
      using delete_repr_short [OF that, of r] 3 by simp
    then show ?thesis using same PShort.prems(2) by (rule delete_resolved)
  next
    case (4 q a as b bs c')
    have "delete_ok H db tp (pdelete (PShort k c) key) (delete db t m pre key)"
      if m: "repr H db tp m (PShort k c)" "\<forall>h. m \<noteq> HashNode h" for m
    proof -
      obtain v fl where "m = ShortNode k v fl" using m by (auto elim: repr_PShortE)
      then show ?thesis using 4(1,2,3) m(1) by (simp add: delete_fork pdelete_fork delete_ok_def)
    qed
    then show ?thesis using same PShort.prems(2) by (rule delete_resolved)
  qed (use PShort.prems(1) in \<open>auto simp: fits_key_def\<close>)
next
  case (PFull ps)
  have same: "\<not> fst (pdelete (PFull ps) key) \<Longrightarrow> snd (pdelete (PFull ps) key) = PFull ps"
    using pdelete_deleted [OF PFull.prems(1)] by (metis deleted_def prod.collapse)
  from PFull.prems(1) show ?case
  proof (cases rule: fits_cases)
    case (5 qs x xs)
    then have IH: "delete_ok H db False (pdelete (ps ! unat x) xs) (delete db t v pre xs)"
      if "repr H db False v (ps ! unat x)" for v pre
      using PFull.IH [of "ps ! unat x" xs False v, OF _ _ that] by simp
    obtain d c where d: "pdelete (ps ! unat x) xs = (d, c)" by fastforce
    have "deleted (ps ! unat x) xs d c" using pdelete_deleted [OF _ d] 5(1,6) by simp
    then have "entry_ok (unat x) c" using 5(2,4) is_key_entry by (simp add: deleted_def)
    then have "delete_ok H db tp (pdelete (PFull ps) key) (delete db t m pre key)"
      if "repr H db tp m (PFull ps)" "\<forall>h. m \<noteq> HashNode h" for m
      using delete_repr_full [OF that, of x xs] IH d 5 by simp
    then show ?thesis using same PFull.prems(2) by (rule delete_resolved)
  qed (use PFull.prems(1) in \<open>auto simp: fits_key_def\<close>)
qed

end

section \<open>The trie as a map\<close>

definition ptrie_of :: "ptrie \<Rightarrow> (bytes \<Rightarrow> bytes option) \<Rightarrow> bool" where
  "ptrie_of p m \<longleftrightarrow> (p = PNil \<or> wfp p) \<and> (\<forall>b. plookup p (compactHexDecode b) = m b) \<and>
     (\<forall>k. plookup p k \<noteq> None \<longrightarrow> (\<exists>b. k = compactHexDecode b))"

definition holds :: "(bytes \<Rightarrow> bytes) \<Rightarrow> trie_db \<Rightarrow> trie \<Rightarrow> (bytes \<Rightarrow> bytes option) \<Rightarrow> bool" where
  "holds H db t m \<longleftrightarrow> (\<exists>p. ptrie_of p m \<and> repr H db True (root t) p)"

definition assign :: "bytes \<Rightarrow> bytes \<Rightarrow> (bytes \<Rightarrow> bytes option) \<Rightarrow> bytes \<Rightarrow> bytes option" where
  \<comment> \<open>an empty value removes the key\<close>
  "assign k v m = (if v = [] then m(k := None) else m(k \<mapsto> v))"

lemma ptrie_of_fits: "ptrie_of p m \<Longrightarrow> fits_key p (compactHexDecode b)"
  using is_key_compactHexDecode [of b] by (auto simp: ptrie_of_def fits_key_def)

lemma ptrie_of_unique:
  assumes "ptrie_of p m" "ptrie_of p' m"
  shows "p = p'"
proof (rule plookup_inj)
  show "plookup p = plookup p'"
  proof
    fix k
    show "plookup p k = plookup p' k"
    proof (cases "\<exists>b. k = compactHexDecode b")
      case True
      then show ?thesis using assms by (auto simp: ptrie_of_def)
    next
      case False
      then show ?thesis using assms by (metis ptrie_of_def)
    qed
  qed
qed (use assms ptrie_of_fits in blast)+

lemma ptrie_of_insert:
  assumes "ptrie_of p m" "v \<noteq> []"
  shows "ptrie_of (pinsert p (compactHexDecode k) (PVal v)) (assign k v m)"
  using plookup_pinsert [OF assms(2) ptrie_of_fits [OF assms(1)], of k]
    pinsert_wfp [OF assms(2) ptrie_of_fits [OF assms(1)], of k] assms is_key_compactHexDecode [of k]
  by (auto simp: ptrie_of_def assign_def compactHexDecode_inj fits_key_def split: if_split_asm)

lemma ptrie_of_delete:
  assumes "ptrie_of p m"
  shows "ptrie_of (snd (pdelete p (compactHexDecode k))) (assign k [] m)"
proof -
  obtain d p' where d: "pdelete p (compactHexDecode k) = (d, p')" by fastforce
  from pdelete_deleted [OF ptrie_of_fits [OF assms] d] assms is_key_compactHexDecode [of k] show ?thesis
    by (auto simp: d ptrie_of_def assign_def deleted_def compactHexDecode_inj fits_key_def split: if_split_asm)
qed

lemma holds_new: "holds H db (t\<lparr>root := NilNode\<rparr>) (\<lambda>k. None)"
  using repr_nil by (auto simp: holds_def ptrie_of_def)

context hash_fn
begin

lemma TryGet_holds:
  assumes "holds H db t m"
  obtains t' where "TryGet db k t = (Inr (m k), t')" "holds H db t' m"
proof -
  obtain p where p: "ptrie_of p m" "repr H db True (root t) p" using assms by (auto simp: holds_def)
  obtain n d where "tryGet db t (root t) (compactHexDecode k) 0 = Inr (m k, n, d)" "repr H db True n p"
    using tryGet_repr [OF p(2), of 0 "compactHexDecode k" t] ptrie_of_fits [OF p(1), of k] p(1) by (auto simp: ptrie_of_def)
  then show thesis using p assms by (intro that [of "if d then t\<lparr>root := n\<rparr> else t"]) (auto simp: TryGet_def holds_def)
qed

lemma TryUpdate_holds:
  assumes "holds H db t m"
  obtains t' where "TryUpdate db k v t = (None, t')" "holds H db t' (assign k v m)"
proof -
  obtain p where p: "ptrie_of p m" "repr H db True (root t) p" using assms by (auto simp: holds_def)
  note fits = ptrie_of_fits [OF p(1), of k]
  show thesis
  proof (cases "v = []")
    case True
    obtain d n where "delete db t (root t) [] (compactHexDecode k) = Inr (d, n)"
      "repr H db True n (snd (pdelete p (compactHexDecode k)))"
      using delete_repr [OF fits p(2), of t "[]"] by (auto simp: delete_ok_def split: sum.split_asm)
    then show thesis using True ptrie_of_delete [OF p(1), of k]
      by (intro that [of "t\<lparr>root := n\<rparr>"]) (auto simp: TryUpdate_def holds_def)
  next
    case False
    obtain d n where "insert db t (root t) [] (compactHexDecode k) (ValueNode v) = Inr (d, n)"
      "repr H db True n (pinsert p (compactHexDecode k) (PVal v))"
      using insert_repr [OF False fits p(2), of t "[]"] by (auto simp: insert_ok_def split: sum.split_asm)
    then show thesis using False ptrie_of_insert [OF p(1) False, of k]
      by (intro that [of "t\<lparr>root := n\<rparr>"]) (auto simp: TryUpdate_def holds_def)
  qed
qed

lemma TryDelete_TryUpdate: "TryDelete db k t = TryUpdate db k [] t"
  by (simp add: TryDelete_def TryUpdate_def)

end

end
