(* ===== verification/Trie_Hash.thy ===== *)
theory Trie_Hash
  imports Trie_Refine
begin

text \<open>
  The hasher of the trie (\<open>trie/hasher.go\<close>) and the operations of \<open>trie/trie.go\<close> that use it:
  \<open>Hash\<close>, \<open>CommitTo\<close> and \<open>Commit\<close>. Collapsing a node computes its Merkle encoding; committing
  writes the encodings to the database, from which \<open>New\<close> loads the same map.
\<close>

section \<open>Hashing\<close>

text \<open>
  The digest \<open>H\<close> of the hasher's \<open>sha\<close> and the method \<open>put\<close> of the database writer are
  parameters. A nil writer is \<open>None\<close>. The global counters and the pool of hashers are left out: a
  hasher is its pair of cache parameters.
\<close>

type_synonym 'd writer = "bytes \<Rightarrow> bytes \<Rightarrow> 'd \<Rightarrow> trie_error option \<times> 'd"

definition is_valueNode :: "node \<Rightarrow> bool" where
  "is_valueNode n \<longleftrightarrow> (case n of ValueNode v \<Rightarrow> True | _ \<Rightarrow> False)"

definition nil_value :: "node \<Rightarrow> node" where
  \<comment> \<open>nil children are encoded as empty strings\<close>
  "nil_value n = (if n = NilNode then ValueNode [] else n)"

definition set_cached :: "node \<Rightarrow> node \<Rightarrow> bool \<Rightarrow> node" where
  \<comment> \<open>the assignments to the flags of \<open>cached\<close> at the end of \<open>hash\<close>\<close>
  "set_cached cached hashed commit =
     (let cachedHash = (case hashed of HashNode h \<Rightarrow> Some h | _ \<Rightarrow> None);
          upd = (\<lambda>fl. fl\<lparr>hash := cachedHash, dirty := (if commit then False else dirty fl)\<rparr>)
      in case cached of
           ShortNode k v fl \<Rightarrow> ShortNode k v (upd fl)
         | FullNode cs fl \<Rightarrow> FullNode cs (upd fl)
         | _ \<Rightarrow> cached)"

definition store :: "(bytes \<Rightarrow> bytes) \<Rightarrow> 'd writer \<Rightarrow> node \<Rightarrow> 'd option \<Rightarrow> bool \<Rightarrow>
    (trie_error + node) \<times> 'd option" where
  "store H put n db force =
     (case n of
        NilNode \<Rightarrow> (Inr n, db)
      | HashNode h \<Rightarrow> (Inr n, db)
      | _ \<Rightarrow>
          (case encodeNode n of
             Inl e \<Rightarrow> (Inl TriePanic, db)
           | Inr tmp \<Rightarrow>
               if length tmp < 32 \<and> \<not> force then (Inr n, db)
               else
                 let h = (case fst (cache n) of None \<Rightarrow> H tmp | Some h \<Rightarrow> h)
                 in case db of
                      None \<Rightarrow> (Inr (HashNode h), None)
                    | Some d \<Rightarrow>
                        (case put h tmp d of
                           (Some e, d') \<Rightarrow> (Inl e, Some d')
                         | (None, d') \<Rightarrow> (Inr (HashNode h), Some d'))))"

lemma size_list_take: "size_list f (take n xs) \<le> size_list f xs"
  by (induction xs arbitrary: n) (auto simp: take_Cons')

function hash_node :: "(bytes \<Rightarrow> bytes) \<Rightarrow> 'd writer \<Rightarrow> uint16 \<Rightarrow> uint16 \<Rightarrow> node \<Rightarrow> 'd option \<Rightarrow> bool \<Rightarrow>
    (trie_error + node \<times> node) \<times> 'd option"
  and hashChildren :: "(bytes \<Rightarrow> bytes) \<Rightarrow> 'd writer \<Rightarrow> uint16 \<Rightarrow> uint16 \<Rightarrow> node \<Rightarrow> 'd option \<Rightarrow>
    (trie_error + node \<times> node) \<times> 'd option"
  and hash_each :: "(bytes \<Rightarrow> bytes) \<Rightarrow> 'd writer \<Rightarrow> uint16 \<Rightarrow> uint16 \<Rightarrow> node list \<Rightarrow> 'd option \<Rightarrow>
    (trie_error + (node \<times> node) list) \<times> 'd option" where
  "hash_node H put cg cl n db force =
     (let walk =
        (case hashChildren H put cg cl n db of
           (Inl e, db') \<Rightarrow> (Inl e, db')
         | (Inr (collapsed, cached), db') \<Rightarrow>
             (case store H put collapsed db' force of
                (Inl e, db'') \<Rightarrow> (Inl e, db'')
              | (Inr hashed, db'') \<Rightarrow> (Inr (hashed, set_cached cached hashed (db \<noteq> None)), db'')))
      in if n = NilNode then (Inl TriePanic, db)
         else case cache n of
           (Some h, d) \<Rightarrow>
             if db = None then (Inr (HashNode h, n), db)
             else if canUnload n cg cl then (Inr (HashNode h, HashNode h), db)
             else if \<not> d then (Inr (HashNode h, n), db)
             else walk
         | (None, d) \<Rightarrow> walk)"
| "hashChildren H put cg cl n db =
     (case n of
        ShortNode k v fl \<Rightarrow>
          (case compactEncode k of
             None \<Rightarrow> (Inl TriePanic, db)
           | Some ck \<Rightarrow>
               if is_valueNode v then (Inr (ShortNode ck v fl, ShortNode k v fl), db)
               else (case hash_node H put cg cl v db False of
                       (Inl e, db') \<Rightarrow> (Inl e, db')
                     | (Inr (cv, v'), db') \<Rightarrow> (Inr (ShortNode ck (nil_value cv) fl, ShortNode k v' fl), db')))
      | FullNode cs fl \<Rightarrow>
          (case hash_each H put cg cl (take 16 cs) db of
             (Inl e, db') \<Rightarrow> (Inl e, db')
           | (Inr rs, db') \<Rightarrow>
               (Inr (FullNode (map fst rs @ map nil_value (drop 16 cs)) fl, FullNode (map snd rs @ drop 16 cs) fl), db'))
      | _ \<Rightarrow> (Inr (n, n), db))"
| "hash_each H put cg cl ns db =
     (case ns of
        [] \<Rightarrow> (Inr [], db)
      | c # cs \<Rightarrow>
          (case (if c \<noteq> NilNode then hash_node H put cg cl c db False else (Inr (ValueNode [], NilNode), db)) of
             (Inl e, db') \<Rightarrow> (Inl e, db')
           | (Inr r, db') \<Rightarrow>
               (case hash_each H put cg cl cs db' of
                  (Inl e, db'') \<Rightarrow> (Inl e, db'')
                | (Inr rs, db'') \<Rightarrow> (Inr (r # rs), db''))))"
  by pat_completeness auto
termination
  by (relation "measures
       [case_sum (\<lambda>(H, put, cg, cl, n, db, f). size n)
         (case_sum (\<lambda>(H, put, cg, cl, n, db). size n) (\<lambda>(H, put, cg, cl, ns, db). size_list size ns)),
        case_sum (\<lambda>_. 1) (\<lambda>_. 0)]") (auto simp: le_imp_less_Suc size_list_take)

declare hash_node.simps [simp del] hashChildren.simps [simp del] hash_each.simps [simp del]

definition hashRoot :: "(bytes \<Rightarrow> bytes) \<Rightarrow> 'd writer \<Rightarrow> trie \<Rightarrow> 'd option \<Rightarrow>
    (trie_error + node \<times> node) \<times> 'd option" where
  "hashRoot H put t db =
     (if root t = NilNode then (Inr (HashNode emptyRoot, NilNode), db)
      else hash_node H put (cachegen t) (cachelimit t) (root t) db True)"

definition as_hash :: "node \<Rightarrow> trie_error + bytes" where
  \<comment> \<open>\<open>BytesToHash(hash.(hashNode))\<close>\<close>
  "as_hash n = (case n of HashNode h \<Rightarrow> Inr (BytesToHash h) | _ \<Rightarrow> Inl TriePanic)"

definition map_put :: "trie_db writer" where
  "map_put k v d = (None, d(k \<mapsto> v))"

definition Hash :: "(bytes \<Rightarrow> bytes) \<Rightarrow> trie \<Rightarrow> (trie_error + bytes) \<times> trie" where
  \<comment> \<open>the writer is nil, so the choice of its type and method does not matter\<close>
  "Hash H t =
     (case fst (hashRoot H map_put t None) of
        Inl e \<Rightarrow> (Inl TriePanic, t)
      | Inr (h, cached) \<Rightarrow> (as_hash h, t\<lparr>root := cached\<rparr>))"

definition Root :: "(bytes \<Rightarrow> bytes) \<Rightarrow> trie \<Rightarrow> (trie_error + bytes) \<times> trie" where
  "Root H t = Hash H t"

definition CommitTo :: "(bytes \<Rightarrow> bytes) \<Rightarrow> 'd writer \<Rightarrow> trie \<Rightarrow> 'd \<Rightarrow> (trie_error + bytes) \<times> trie \<times> 'd option" where
  "CommitTo H put t db =
     (case hashRoot H put t (Some db) of
        (Inl e, db') \<Rightarrow> (Inl e, t, db')
      | (Inr (h, cached), db') \<Rightarrow> (as_hash h, t\<lparr>root := cached, cachegen := cachegen t + 1\<rparr>, db'))"

definition Commit :: "(bytes \<Rightarrow> bytes) \<Rightarrow> 'd writer \<Rightarrow> trie \<Rightarrow> 'd option \<Rightarrow> (trie_error + bytes) \<times> trie \<times> 'd option" where
  "Commit H put t db = (case db of None \<Rightarrow> (Inl TriePanic, t, None) | Some d \<Rightarrow> CommitTo H put t d)"

section \<open>The database interface\<close>

locale database = fixes get :: "'d \<Rightarrow> trie_db" and put :: "'d writer"
  assumes put_ok: "fst (put k v d) = None"
    and get_put: "get (snd (put k v d)) = (get d)(k \<mapsto> v)"

locale node_store = hash_fn H + database get put for H and get :: "'d \<Rightarrow> trie_db" and put

sublocale hash_fn \<subseteq> mapdb: node_store H "\<lambda>d. d" map_put
  by unfold_locales (simp_all add: map_put_def)

fun encs :: "(bytes \<Rightarrow> bytes) \<Rightarrow> ptrie \<Rightarrow> bytes list" where
  \<comment> \<open>the encodings of all nodes of a trie\<close>
  "encs H PNil = []"
| "encs H (PVal v) = []"
| "encs H (PShort k c) = penc H (PShort k c) # encs H c"
| "encs H (PFull ps) = penc H (PFull ps) # concat (map (encs H) ps)"

definition extends :: "trie_db \<Rightarrow> trie_db \<Rightarrow> bool" where
  "extends g g' \<longleftrightarrow> (\<forall>k v. g k = Some v \<longrightarrow> g' k = Some v)"

lemma saved_mono: "saved H g p \<Longrightarrow> extends g g' \<Longrightarrow> saved H g' p"
  by (simp add: saved_def extends_def)

lemma stored_mono: "stored H g p \<Longrightarrow> extends g g' \<Longrightarrow> stored H g' p"
  by (induction p) (auto simp: list_all_iff dest: saved_mono)

lemma flag_ok_mono: "flag_ok H g tp fl p \<Longrightarrow> extends g g' \<Longrightarrow> flag_ok H g' tp fl p"
  using saved_mono stored_mono by (auto simp: flag_ok_def)

lemma repr_mono: "repr H g tp n p \<Longrightarrow> extends g g' \<Longrightarrow> repr H g' tp n p"
proof (induction rule: repr.induct)
  case (repr_full cs ps tp fl)
  then have "list_all2 (repr H g' False) cs ps" by (auto elim: list_all2_mono)
  then show ?case using repr_full flag_ok_mono repr.repr_full by blast
qed (auto intro: repr.intros dest: flag_ok_mono saved_mono stored_mono)

section \<open>What hashing computes\<close>

definition view :: "('d \<Rightarrow> trie_db) \<Rightarrow> trie_db \<Rightarrow> 'd option \<Rightarrow> trie_db" where
  "view get g db = (case db of None \<Rightarrow> g | Some d \<Rightarrow> get d)"

definition compat :: "(bytes \<Rightarrow> bytes) \<Rightarrow> ('d \<Rightarrow> trie_db) \<Rightarrow> bytes set \<Rightarrow> 'd option \<Rightarrow> bool" where
  \<comment> \<open>the digests of \<open>S\<close> are distinct and not taken by other entries\<close>
  "compat H get S db \<longleftrightarrow>
     (\<forall>d. db = Some d \<longrightarrow> inj_on H S \<and> (\<forall>x \<in> S. get d (H x) = None \<or> get d (H x) = Some x))"

definition written :: "(bytes \<Rightarrow> bytes) \<Rightarrow> ('d \<Rightarrow> trie_db) \<Rightarrow> trie_db \<Rightarrow> bytes set \<Rightarrow> 'd option \<Rightarrow> 'd option \<Rightarrow> bool" where
  "written H get g S db db' \<longleftrightarrow>
     (db' = None \<longleftrightarrow> db = None) \<and> extends (view get g db) (view get g db') \<and> compat H get S db'"

definition collapsed_as :: "(bytes \<Rightarrow> bytes) \<Rightarrow> bool \<Rightarrow> ptrie \<Rightarrow> node \<Rightarrow> bool" where
  "collapsed_as H force p n \<longleftrightarrow>
     (if force \<or> 32 \<le> length (penc H p) then n = HashNode (H (penc H p)) else node_item n = citem H p \<and> n \<noteq> NilNode \<and> (\<forall>h. n \<noteq> HashNode h))"

definition hash_ok :: "(bytes \<Rightarrow> bytes) \<Rightarrow> ('d \<Rightarrow> trie_db) \<Rightarrow> trie_db \<Rightarrow> bytes set \<Rightarrow> bool \<Rightarrow> ptrie \<Rightarrow> 'd option \<Rightarrow>
    (trie_error + node \<times> node) \<times> 'd option \<Rightarrow> bool" where
  "hash_ok H get g S tp p db r \<longleftrightarrow>
     (case r of
        (Inl e, db') \<Rightarrow> False
      | (Inr (hashed, n'), db') \<Rightarrow>
          collapsed_as H tp p hashed \<and> written H get g S db db' \<and> repr H (view get g db') tp n' p \<and>
          (db \<noteq> None \<longrightarrow> stored H (view get g db') p \<and> (tp \<longrightarrow> saved H (view get g db') p)))"

lemma written_refl: "compat H get S db \<Longrightarrow> written H get g S db db"
  by (simp add: written_def extends_def)

lemma written_trans: "written H get g S a b \<Longrightarrow> written H get g S b c \<Longrightarrow> written H get g S a c"
  by (simp add: written_def extends_def)

fun flags_of :: "node \<Rightarrow> nodeFlag option" where
  "flags_of (ShortNode k v fl) = Some fl"
| "flags_of (FullNode cs fl) = Some fl"
| "flags_of n = None"

lemma cache_flags: "flags_of n = Some fl \<Longrightarrow> cache n = (hash fl, dirty fl)"
  by (cases n) auto

definition body :: "(bytes \<Rightarrow> bytes) \<Rightarrow> trie_db \<Rightarrow> node \<Rightarrow> ptrie \<Rightarrow> bool" where
  \<comment> \<open>a node stands for a trie, its own flags apart\<close>
  "body H g n p \<longleftrightarrow>
     (case n of
        ShortNode k v fl \<Rightarrow> (\<exists>c. p = PShort k c \<and> repr H g False v c)
      | FullNode cs fl \<Rightarrow> (\<exists>ps. p = PFull ps \<and> list_all2 (repr H g False) cs ps)
      | _ \<Rightarrow> False)"

fun below :: "(bytes \<Rightarrow> bytes) \<Rightarrow> trie_db \<Rightarrow> ptrie \<Rightarrow> bool" where
  "below H g (PShort k c) \<longleftrightarrow> stored H g c"
| "below H g (PFull ps) \<longleftrightarrow> list_all (stored H g) ps"
| "below H g _ \<longleftrightarrow> True"

lemma body_repr: "body H g n p \<Longrightarrow> flags_of n = Some fl \<Longrightarrow> flag_ok H g tp fl p \<Longrightarrow> repr H g tp n p"
  by (cases n) (auto simp: body_def intro: repr_short repr_full)

lemma body_mono: "body H g n p \<Longrightarrow> extends g g' \<Longrightarrow> body H g' n p"
  by (cases n) (auto simp: body_def intro: repr_mono elim!: list_all2_mono)

lemma below_mono: "below H g p \<Longrightarrow> extends g g' \<Longrightarrow> below H g' p"
  by (cases p) (auto simp: list_all_iff intro: stored_mono)

lemma below_stored: "below H g p \<Longrightarrow> (32 \<le> length (penc H p) \<longrightarrow> saved H g p) \<Longrightarrow> stored H g p"
  by (cases p) auto

lemma set_cached_flags:
  assumes "flags_of cached = Some fl"
  shows "flags_of (set_cached cached hashed commit) =
      Some (fl\<lparr>hash := (case hashed of HashNode h \<Rightarrow> Some h | _ \<Rightarrow> None), dirty := (if commit then False else dirty fl)\<rparr>)"
    "body H g (set_cached cached hashed commit) p = body H g cached p"
  using assms by (cases cached; simp add: set_cached_def body_def)+

definition children_ok :: "(bytes \<Rightarrow> bytes) \<Rightarrow> ('d \<Rightarrow> trie_db) \<Rightarrow> trie_db \<Rightarrow> bytes set \<Rightarrow> nodeFlag \<Rightarrow> ptrie \<Rightarrow> 'd option \<Rightarrow>
    (trie_error + node \<times> node) \<times> 'd option \<Rightarrow> bool" where
  "children_ok H get g S fl p db r \<longleftrightarrow>
     (case r of
        (Inl e, db') \<Rightarrow> False
      | (Inr (collapsed, cached), db') \<Rightarrow>
          node_item collapsed = citem H p \<and> flags_of collapsed = Some fl \<and> flags_of cached = Some fl \<and>
          body H (view get g db') cached p \<and> written H get g S db db' \<and> (db \<noteq> None \<longrightarrow> below H (view get g db') p))"

fun kids :: "ptrie \<Rightarrow> ptrie list" where
  "kids (PShort k c) = [c]"
| "kids (PFull ps) = ps"
| "kids p = []"

context node_store
begin

lemma written_put:
  assumes "compat H get S (Some d)" "x \<in> S"
  shows "\<exists>d'. put (H x) x d = (None, d') \<and> written H get g S (Some d) (Some d') \<and> get d' (H x) = Some x"
proof -
  obtain e d' where p: "put (H x) x d = (e, d')" by fastforce
  then have "e = None" and g: "get d' = (get d)(H x \<mapsto> x)" using put_ok [of "H x" x d] get_put [of "H x" x d] by auto
  have old: "get d (H x) = None \<or> get d (H x) = Some x" using assms by (auto simp: compat_def)
  then have "extends (get d) (get d')" by (auto simp: g extends_def)
  moreover have "compat H get S (Some d')"
    using assms by (auto simp: compat_def g dest: inj_onD)
  ultimately show ?thesis using p \<open>e = None\<close> g by (auto simp: written_def view_def)
qed

lemma store_ok:
  assumes n: "node_item n = citem H p" "flags_of n = Some fl" "hash fl = None \<or> hash fl = Some (H (penc H p))"
    and S: "penc H p \<in> S" "compat H get S db" "length (penc H p) < 2 ^ 64"
  obtains hashed db' where "store H put n db force = (Inr hashed, db')" "collapsed_as H force p hashed"
    "written H get g S db db'" "db \<noteq> None \<Longrightarrow> force \<or> 32 \<le> length (penc H p) \<Longrightarrow> saved H (view get g db') p"
    "case hashed of HashNode h \<Rightarrow> h = H (penc H p) \<and> (force \<or> 32 \<le> length (penc H p)) | _ \<Rightarrow> True"
proof -
  have e: "encodeNode n = Inr (penc H p)" using encodeNode_rlp [of n] n(1) S(3) by (simp add: penc_def)
  have h: "(case fst (cache n) of None \<Rightarrow> H (penc H p) | Some h \<Rightarrow> h) = H (penc H p)"
    using n(2,3) by (auto simp: cache_flags)
  have st: "store H put n db force =
      (if length (penc H p) < 32 \<and> \<not> force then (Inr n, db)
       else case db of None \<Rightarrow> (Inr (HashNode (H (penc H p))), None)
         | Some d \<Rightarrow> (case put (H (penc H p)) (penc H p) d of
             (Some e, d') \<Rightarrow> (Inl e, Some d') | (None, d') \<Rightarrow> (Inr (HashNode (H (penc H p))), Some d')))"
    using n(2) e h by (cases n) (simp_all add: store_def Let_def)
  show thesis
  proof (cases "length (penc H p) < 32 \<and> \<not> force")
    case True
    then show thesis using st n S(2) by (intro that [of n db]) (auto simp: collapsed_as_def written_refl split: node.split)
  next
    case False
    show thesis
    proof (cases db)
      case None
      then show thesis using st False S(2) by (intro that) (auto simp: collapsed_as_def written_refl)
    next
      case (Some d)
      obtain d' where d': "put (H (penc H p)) (penc H p) d = (None, d')" "written H get g S (Some d) (Some d')"
        "get d' (H (penc H p)) = Some (penc H p)"
        using written_put [OF S(2) [unfolded Some] S(1)] by blast
      then show thesis using st False S(3) Some
        by (intro that [of "HashNode (H (penc H p))" "Some d'"]) (auto simp: collapsed_as_def saved_def view_def)
    qed
  qed
qed

lemma hash_cached:
  assumes n: "flags_of n = Some fl" "hash fl \<noteq> None" "flag_ok H (view get g db) tp fl p" "repr H (view get g db) tp n p" "wfp p"
    and S: "compat H get S db" and clean: "db \<noteq> None \<Longrightarrow> \<not> dirty fl"
  shows "hash_ok H get g S tp p db (Inr (HashNode (H (penc H p)), n), db)"
    "\<not> dirty fl \<Longrightarrow> hash_ok H get g S tp p db (Inr (HashNode (H (penc H p)), HashNode (H (penc H p))), db)"
proof -
  have t: "tp \<or> 32 \<le> length (penc H p)" using n(2,3) by (simp add: flag_ok_def)
  have c: "stored H (view get g db) p \<and> (tp \<longrightarrow> saved H (view get g db) p)" if "\<not> dirty fl" using n(3) that by (simp add: flag_ok_def)
  show "hash_ok H get g S tp p db (Inr (HashNode (H (penc H p)), n), db)"
    using t c clean n(4) written_refl [OF S] by (simp add: hash_ok_def collapsed_as_def)
  assume d: "\<not> dirty fl"
  have "saved H (view get g db) p" using c [OF d] t stored_saved wfp_inner [OF n(5)] by blast
  then have "repr H (view get g db) tp (HashNode (H (penc H p))) p" using repr_hash [OF n(5)] c [OF d] t by blast
  then show "hash_ok H get g S tp p db (Inr (HashNode (H (penc H p)), HashNode (H (penc H p))), db)"
    using t c [OF d] written_refl [OF S] by (simp add: hash_ok_def collapsed_as_def)
qed

lemma hash_walk:
  assumes children: "children_ok H get g S fl p db (hashChildren H put cg cl n db)"
    and n: "n \<noteq> NilNode" "flags_of n = Some fl" "flag_ok H (view get g db) tp fl p" "repr H (view get g db) tp n p" "wfp p"
    and S: "penc H p \<in> S" "compat H get S db" "length (penc H p) < 2 ^ 64"
  shows "hash_ok H get g S tp p db (hash_node H put cg cl n db tp)"
proof -
  obtain collapsed cached db1 where hc: "hashChildren H put cg cl n db = (Inr (collapsed, cached), db1)" "node_item collapsed = citem H p"
    "flags_of collapsed = Some fl" "flags_of cached = Some fl" "body H (view get g db1) cached p"
    "written H get g S db db1" "db \<noteq> None \<Longrightarrow> below H (view get g db1) p"
    using children by (auto simp: children_ok_def split: prod.split_asm sum.split_asm)
  have hf: "hash fl = None \<or> hash fl = Some (H (penc H p))" using n(3) by (auto simp: flag_ok_def)
  have c1: "compat H get S db1" using hc(6) by (simp add: written_def)
  obtain hashed db2 where st: "store H put collapsed db1 tp = (Inr hashed, db2)" "collapsed_as H tp p hashed"
    "written H get g S db1 db2" "db1 \<noteq> None \<Longrightarrow> tp \<or> 32 \<le> length (penc H p) \<Longrightarrow> saved H (view get g db2) p"
    "case hashed of HashNode h \<Rightarrow> h = H (penc H p) \<and> (tp \<or> 32 \<le> length (penc H p)) | _ \<Rightarrow> True"
    using store_ok [OF hc(2,3) hf S(1) c1 S(3), of tp g] by blast
  define n' where "n' = set_cached cached hashed (db \<noteq> None)"
  have w: "written H get g S db db2" using hc(6) st(3) by (rule written_trans)
  have ext: "extends (view get g db1) (view get g db2)" "extends (view get g db) (view get g db2)" "db1 = None \<longleftrightarrow> db = None"
    using st(3) w hc(6) by (simp_all add: written_def)
  have stored: "stored H (view get g db2) p \<and> (tp \<longrightarrow> saved H (view get g db2) p)" if "db \<noteq> None"
  proof -
    have "below H (view get g db2) p" using hc(7) [OF that] ext(1) by (rule below_mono)
    then show ?thesis using below_stored st(4) that ext(3) by blast
  qed
  have "flag_ok H (view get g db2) tp (fl\<lparr>hash := (case hashed of HashNode h \<Rightarrow> Some h | _ \<Rightarrow> None),
      dirty := (if db \<noteq> None then False else dirty fl)\<rparr>) p"
    using st(5) stored flag_ok_mono [OF n(3) ext(2)] by (auto simp: flag_ok_def split: node.split_asm if_split_asm)
  then have r: "repr H (view get g db2) tp n' p"
    using body_repr body_mono [OF hc(5) ext(1)] set_cached_flags [OF hc(4)] by (simp add: n'_def)
  have walk: "hash_ok H get g S tp p db (Inr (hashed, n'), db2)"
    using st(2) w r stored by (simp add: hash_ok_def)
  show ?thesis
  proof (cases "hash fl")
    case None
    then show ?thesis using walk n(1) hc(1) st(1)
      by (simp add: hash_node.simps Let_def cache_flags [OF n(2)] n'_def)
  next
    case (Some h)
    then have h: "h = H (penc H p)" and s: "hash fl \<noteq> None" using hf by auto
    have u: "canUnload n cg cl \<Longrightarrow> \<not> dirty fl" using n(2) by (cases n) (auto simp: flag_canUnload_def)
    show ?thesis
    proof (cases "db = None \<or> \<not> dirty fl")
      case True
      then show ?thesis using hash_cached [OF n(2) s n(3,4,5) S(2)] Some h n(1) u
        by (auto simp: hash_node.simps Let_def cache_flags [OF n(2)])
    next
      case False
      then show ?thesis using walk Some n(1) hc(1) st(1) u
        by (auto simp: hash_node.simps Let_def cache_flags [OF n(2)] n'_def)
    qed
  qed
qed

lemma hash_hashnode:
  assumes "repr H (view get g db) tp (HashNode h) p" "compat H get S db"
  shows "hash_ok H get g S tp p db (hash_node H put cg cl (HashNode h) db tp)"
proof -
  have p: "wfp p" "saved H (view get g db) p" "stored H (view get g db) p" "tp \<or> 32 \<le> length (penc H p)" "h = H (penc H p)"
    using assms(1) by (auto elim: repr_HashNodeE)
  have "hash_node H put cg cl (HashNode h) db tp = (Inr (HashNode h, HashNode h), db)"
    by (simp add: hash_node.simps hashChildren.simps store_def set_cached_def Let_def)
  then show ?thesis using p assms written_refl [OF assms(2)] by (simp add: hash_ok_def collapsed_as_def)
qed

lemma collapsed_item: "inner p \<Longrightarrow> collapsed_as H False p n \<Longrightarrow> node_item n = cref H p \<and> n \<noteq> NilNode"
  by (auto simp: collapsed_as_def child_item_def penc_def split: if_split_asm)

lemma hash_each_ok:
  assumes IH: "\<And>p n db. p \<in> set ps \<Longrightarrow> wfp p \<Longrightarrow> repr H (view get g db) False n p \<Longrightarrow> compat H get S db \<Longrightarrow>
      hash_ok H get g S False p db (hash_node H put cg cl n db False)"
  shows "list_all2 (repr H (view get g db) False) cs ps \<Longrightarrow> \<forall>p \<in> set ps. p = PNil \<or> wfp p \<Longrightarrow> compat H get S db \<Longrightarrow>
    \<exists>rs db'. hash_each H put cg cl cs db = (Inr rs, db') \<and> map (\<lambda>r. node_item (fst r)) rs = map (\<lambda>p. cref H p) ps \<and>
      list_all2 (repr H (view get g db') False) (map snd rs) ps \<and> written H get g S db db' \<and>
      (db \<noteq> None \<longrightarrow> list_all (stored H (view get g db')) ps)"
  using IH
proof (induction ps arbitrary: cs db)
  case Nil
  then show ?case by (simp add: hash_each.simps written_refl)
next
  case (Cons p ps)
  from Cons.prems(1) obtain c cs' where cs: "cs = c # cs'" and c: "repr H (view get g db) False c p"
    and cs': "list_all2 (repr H (view get g db) False) cs' ps" by (cases cs) auto
  obtain r db1 where r: "(if c \<noteq> NilNode then hash_node H put cg cl c db False else (Inr (ValueNode [], NilNode), db)) = (Inr r, db1)"
    "node_item (fst r) = cref H p" "repr H (view get g db1) False (snd r) p" "written H get g S db db1"
    "db \<noteq> None \<longrightarrow> stored H (view get g db1) p"
  proof (cases "p = PNil")
    case True
    then have "c = NilNode" using c by (simp add: repr_Nil)
    then show thesis using that [of "(ValueNode [], NilNode)" db] True c Cons.prems(3)
      by (simp add: child_item_def written_refl)
  next
    case False
    then have w: "wfp p" using Cons.prems(2) by simp
    have "c \<noteq> NilNode" using c False by (auto simp: repr_Nil)
    moreover have "hash_ok H get g S False p db (hash_node H put cg cl c db False)"
      using Cons.prems(4) [OF _ w c Cons.prems(3)] by simp
    ultimately show thesis using that collapsed_item [OF wfp_inner [OF w]]
      by (auto simp: hash_ok_def split: prod.split_asm sum.split_asm)
  qed
  have ext: "extends (view get g db) (view get g db1)" "compat H get S db1" using r(4) by (simp_all add: written_def)
  then have "list_all2 (repr H (view get g db1) False) cs' ps" using cs' repr_mono by (auto elim!: list_all2_mono)
  then obtain rs db' where rs: "hash_each H put cg cl cs' db1 = (Inr rs, db')" "map (\<lambda>r. node_item (fst r)) rs = map (\<lambda>p. cref H p) ps"
    "list_all2 (repr H (view get g db') False) (map snd rs) ps" "written H get g S db1 db'"
    "db1 \<noteq> None \<longrightarrow> list_all (stored H (view get g db')) ps"
    using Cons.IH [of db1 cs'] Cons.prems(2,4) ext(2) by auto
  have ext': "extends (view get g db1) (view get g db')" using rs(4) by (simp add: written_def)
  have "hash_each H put cg cl cs db = (Inr (r # rs), db')" using r(1) rs(1) by (simp add: cs hash_each.simps)
  moreover have "written H get g S db db'" using r(4) rs(4) by (rule written_trans)
  moreover have "repr H (view get g db') False (snd r) p" using r(3) ext' by (rule repr_mono)
  moreover have "db \<noteq> None \<longrightarrow> list_all (stored H (view get g db')) (p # ps)"
    using r(4,5) rs(5) ext' stored_mono by (auto simp: written_def)
  ultimately show ?case using r(2) rs(2,3) by fastforce
qed

lemma children_short_ok:
  assumes IH: "\<And>n db. wfp c \<Longrightarrow> repr H (view get g db) False n c \<Longrightarrow> compat H get S db \<Longrightarrow>
      hash_ok H get g S False c db (hash_node H put cg cl n db False)"
    and w: "wfp (PShort k c)" and n: "repr H (view get g db) tp (ShortNode k v fl) (PShort k c)"
    and S: "compat H get S db"
  shows "children_ok H get g S fl (PShort k c) db (hashChildren H put cg cl (ShortNode k v fl) db)"
proof -
  obtain ck where ck: "compactEncode k = Some ck" using wfp_short_path [OF w] compactEncode_path by metis
  have v: "repr H (view get g db) False v c" "flag_ok H (view get g db) tp fl (PShort k c)"
    using n by (auto elim: repr_ShortNodeE)
  obtain cv v' db' where hc: "hashChildren H put cg cl (ShortNode k v fl) db = (Inr (ShortNode ck cv fl, ShortNode k v' fl), db')"
    "node_item cv = cref H c" "repr H (view get g db') False v' c" "written H get g S db db'"
    "db \<noteq> None \<longrightarrow> stored H (view get g db') c"
  proof (cases "is_val c")
    case True
    then obtain b where b: "c = PVal b" "v = ValueNode b" using repr_leaf [OF v(1)] by auto
    then show thesis using that [of v v db] v(1) ck written_refl [OF S]
      by (simp add: hashChildren.simps is_valueNode_def child_item_def)
  next
    case False
    then have wc: "wfp c" using w by auto
    have nv: "\<not> is_valueNode v" using v(1) wc by (auto simp: is_valueNode_def elim!: repr_ValueNodeE split: node.split_asm)
    have "hash_ok H get g S False c db (hash_node H put cg cl v db False)" using IH [OF wc v(1) S] .
    then obtain cv v' db' where h: "hash_node H put cg cl v db False = (Inr (cv, v'), db')" "collapsed_as H False c cv"
      "repr H (view get g db') False v' c" "written H get g S db db'" "db \<noteq> None \<longrightarrow> stored H (view get g db') c"
      by (auto simp: hash_ok_def split: prod.split_asm sum.split_asm)
    then show thesis using that [of cv v' db'] ck nv collapsed_item [OF wfp_inner [OF wc] h(2)]
      by (simp add: hashChildren.simps nil_value_def)
  qed
  show ?thesis using hc ck by (auto simp: children_ok_def body_def)
qed

lemma children_full_ok:
  assumes IH: "\<And>p n db. p \<in> set ps \<Longrightarrow> wfp p \<Longrightarrow> repr H (view get g db) False n p \<Longrightarrow> compat H get S db \<Longrightarrow>
      hash_ok H get g S False p db (hash_node H put cg cl n db False)"
    and w: "wfp (PFull ps)" and n: "repr H (view get g db) tp (FullNode cs fl) (PFull ps)"
    and S: "compat H get S db"
  shows "children_ok H get g S fl (PFull ps) db (hashChildren H put cg cl (FullNode cs fl) db)"
proof -
  have v: "list_all2 (repr H (view get g db) False) cs ps" "flag_ok H (view get g db) tp fl (PFull ps)"
    using n by (auto elim: repr_FullNodeE)
  have l: "length ps = 17" "\<forall>i < 17. entry_ok i (ps ! i)" using w by (simp_all add: wfp_full)
  obtain qs e where ps: "ps = qs @ [e]" "length qs = 16" using l(1) by (cases ps rule: rev_cases) auto
  obtain ds f where cs: "cs = ds @ [f]" "list_all2 (repr H (view get g db) False) ds qs" "repr H (view get g db) False f e"
    using v(1) ps(1) by (auto simp: list_all2_append2 list_all2_Cons2)
  have ds: "length ds = 16" using cs(2) ps(2) by (auto dest: list_all2_lengthD)
  have q: "\<forall>p \<in> set qs. p = PNil \<or> wfp p"
  proof
    fix p
    assume "p \<in> set qs"
    then obtain i where "i < 16" "p = ps ! i" using ps by (auto simp: in_set_conv_nth nth_append)
    then show "p = PNil \<or> wfp p" using l(2) [rule_format, of i] by (simp add: entry_ok_def)
  qed
  have e: "e = PNil \<and> f = NilNode \<or> (\<exists>b. e = PVal b \<and> f = ValueNode b)"
    using l(2) [rule_format, of 16] ps repr_leaf [OF cs(3)] by (auto simp: nth_append entry_ok_def)
  obtain rs db' where rs: "hash_each H put cg cl ds db = (Inr rs, db')" "map (\<lambda>r. node_item (fst r)) rs = map (\<lambda>p. cref H p) qs"
    "list_all2 (repr H (view get g db') False) (map snd rs) qs" "written H get g S db db'"
    "db \<noteq> None \<longrightarrow> list_all (stored H (view get g db')) qs"
    using hash_each_ok [OF IH cs(2) q S] ps by auto
  have hc: "hashChildren H put cg cl (FullNode cs fl) db =
      (Inr (FullNode (map fst rs @ [nil_value f]) fl, FullNode (map snd rs @ [f]) fl), db')"
    using rs(1) cs(1) ds by (simp add: hashChildren.simps)
  have "repr H (view get g db') False f e" using cs(3) rs(4) repr_mono by (auto simp: written_def)
  then have b: "list_all2 (repr H (view get g db') False) (map snd rs @ [f]) ps"
    using rs(3) ps(1) by (simp add: list_all2_appendI)
  have i: "node_item (FullNode (map fst rs @ [nil_value f]) fl) = citem H (PFull ps)"
    using rs(2) e ps(1) by (auto simp: comp_def nil_value_def child_item_def)
  show ?thesis using i b e rs(4,5) ps(1) by (auto simp: children_ok_def body_def hc simp del: node_item.simps citem.simps)
qed

lemma children_repr:
  assumes IH: "\<And>q m db. q \<in> set (kids p) \<Longrightarrow> wfp q \<Longrightarrow> repr H (view get g db) False m q \<Longrightarrow> compat H get S db \<Longrightarrow>
      hash_ok H get g S False q db (hash_node H put cg cl m db False)"
    and w: "wfp p" and n: "repr H (view get g db) tp n p" "\<forall>h. n \<noteq> HashNode h" and S: "compat H get S db"
  shows "\<exists>fl. flags_of n = Some fl \<and> flag_ok H (view get g db) tp fl p \<and> n \<noteq> NilNode \<and>
    children_ok H get g S fl p db (hashChildren H put cg cl n db)"
  using n(1)
proof cases
  case (repr_short v c fl k)
  have "children_ok H get g S fl (PShort k c) db (hashChildren H put cg cl (ShortNode k v fl) db)"
    using w n(1) IH [of c] repr_short S by (intro children_short_ok) auto
  then show ?thesis using repr_short by simp
next
  case (repr_full cs ps fl)
  have "children_ok H get g S fl (PFull ps) db (hashChildren H put cg cl (FullNode cs fl) db)"
    using w n(1) IH repr_full S by (intro children_full_ok) auto
  then show ?thesis using repr_full by simp
qed (use w n in auto)

lemma encs_kids: "q \<in> set (kids p) \<Longrightarrow> set (encs H q) \<subseteq> set (encs H p)"
  by (cases p) auto

lemma hash_repr:
  assumes S: "\<And>x. x \<in> S \<Longrightarrow> length x < 2 ^ 64"
  shows "wfp p \<Longrightarrow> repr H (view get g db) tp n p \<Longrightarrow> set (encs H p) \<subseteq> S \<Longrightarrow> compat H get S db \<Longrightarrow>
    hash_ok H get g S tp p db (hash_node H put cg cl n db tp)"
proof (induction p arbitrary: n db tp rule: measure_induct_rule [where f = size])
  case (less p)
  have IH: "hash_ok H get g S False q db (hash_node H put cg cl m db False)"
    if q: "q \<in> set (kids p)" "wfp q" "repr H (view get g db) False m q" "compat H get S db" for q m db
  proof -
    have "size q < size p" using q(1) by (cases p) (auto simp: less_Suc_eq_le size_list_estimation')
    then show ?thesis using less.IH q encs_kids [OF q(1)] less.prems(3) by blast
  qed
  have p: "penc H p \<in> S" using less.prems(1,3) by (cases p) auto
  show ?case
  proof (cases "\<exists>h. n = HashNode h")
    case True
    then show ?thesis using hash_hashnode less.prems(2,4) by auto
  next
    case False
    then obtain fl where "flags_of n = Some fl" "flag_ok H (view get g db) tp fl p" "n \<noteq> NilNode"
      "children_ok H get g S fl p db (hashChildren H put cg cl n db)"
      using children_repr [OF IH less.prems(1,2) _ less.prems(4)] by blast
    then show ?thesis using less.prems p S [OF p] by (intro hash_walk) auto
  qed
qed

lemma hashChildren_repr:
  assumes "\<And>x. x \<in> S \<Longrightarrow> length x < 2 ^ 64" "wfp p" "set (encs H p) \<subseteq> S" "compat H get S db"
    "repr H (view get g db) tp n p" "\<forall>h. n \<noteq> HashNode h"
  shows "\<exists>fl. flags_of n = Some fl \<and> flag_ok H (view get g db) tp fl p \<and> n \<noteq> NilNode \<and>
    children_ok H get g S fl p db (hashChildren H put cg cl n db)"
proof (rule children_repr [OF _ assms(2,5,6,4)])
  fix q m db
  assume "q \<in> set (kids p)" "wfp q" "repr H (view get g db) False m q" "compat H get S db"
  then show "hash_ok H get g S False q db (hash_node H put cg cl m db False)"
    using hash_repr [OF assms(1)] encs_kids assms(3) by (meson subset_trans)
qed

end

section \<open>The root hash\<close>

definition root_hash :: "(bytes \<Rightarrow> bytes) \<Rightarrow> ptrie \<Rightarrow> bytes" where
  "root_hash H p = (if p = PNil then emptyRoot else H (penc H p))"

definition sized :: "(bytes \<Rightarrow> bytes) \<Rightarrow> ptrie \<Rightarrow> bool" where
  "sized H p \<longleftrightarrow> (\<forall>x \<in> set (encs H p). length x < 2 ^ 64)"

lemma length_emptyRoot [simp]: "length emptyRoot = 32"
  by (simp add: emptyRoot_def)

lemma BytesToHash_32: "length h = 32 \<Longrightarrow> BytesToHash h = h"
  by (simp add: BytesToHash_def)

context hash_fn
begin

lemma Hash_repr:
  assumes p: "p = PNil \<or> wfp p" "repr H db True (root t) p" "sized H p"
  obtains n where "Hash H t = (Inr (root_hash H p), t\<lparr>root := n\<rparr>)" "repr H db True n p"
proof (cases "p = PNil")
  case True
  then show thesis using p that [of NilNode]
    by (simp add: Hash_def hashRoot_def repr_Nil as_hash_def BytesToHash_32 root_hash_def)
next
  case False
  have w: "wfp p" and n: "root t \<noteq> NilNode" using False p(1,2) by (auto simp: repr_Nil)
  have "hash_ok H (\<lambda>d. d) db (set (encs H p)) True p None (hash_node H map_put (cachegen t) (cachelimit t) (root t) None True)"
    using p(2,3) w by (intro mapdb.hash_repr) (auto simp: sized_def view_def compat_def)
  then obtain n db' where h: "hash_node H map_put (cachegen t) (cachelimit t) (root t) None True = (Inr (HashNode (H (penc H p)), n), db')"
    "repr H db True n p"
    by (auto simp: hash_ok_def collapsed_as_def written_def view_def split: prod.split_asm sum.split_asm)
  then show thesis using that [of n] False n
    by (simp add: Hash_def hashRoot_def as_hash_def BytesToHash_32 length_H root_hash_def)
qed

lemma New_repr:
  assumes "p = PNil \<or> wfp p" "stored H g p" "p \<noteq> PNil \<Longrightarrow> saved H g p"
    "p \<noteq> PNil \<Longrightarrow> root_hash H p \<noteq> emptyRoot \<and> root_hash H p \<noteq> replicate 32 0"
  obtains t where "New (root_hash H p) (Some g) = Inr t" "repr H g True (root t) p"
proof (cases "p = PNil")
  case True
  then show thesis using that by (simp add: New_def root_hash_def repr_nil)
next
  case False
  then have "repr H g True (HashNode (H (penc H p))) p" using assms by (intro repr_hash) auto
  then obtain n where n: "resolveHash g \<lparr>root = NilNode, originalRoot = H (penc H p), cachegen = 0, cachelimit = 0\<rparr>
      (H (penc H p)) [] [] = Inr n" "repr H g True n p"
    using resolveHash_repr by metis
  show thesis
    by (rule that [of "\<lparr>root = n, originalRoot = H (penc H p), cachegen = 0, cachelimit = 0\<rparr>"])
      (use False assms(4) n in \<open>simp_all add: New_def root_hash_def Let_def\<close>)
qed

end

context node_store
begin

lemma CommitTo_repr:
  assumes p: "p = PNil \<or> wfp p" "repr H (get d) True (root t) p" "sized H p" "compat H get (set (encs H p)) (Some d)"
  obtains n d' where "CommitTo H put t d = (Inr (root_hash H p), t\<lparr>root := n, cachegen := cachegen t + 1\<rparr>, Some d')"
    "repr H (get d') True n p" "extends (get d) (get d')" "stored H (get d') p" "p \<noteq> PNil \<Longrightarrow> saved H (get d') p"
proof (cases "p = PNil")
  case True
  then show thesis using p that [of NilNode d]
    by (simp add: CommitTo_def hashRoot_def repr_Nil as_hash_def BytesToHash_32 root_hash_def extends_def)
next
  case False
  have w: "wfp p" and n: "root t \<noteq> NilNode" using False p(1,2) by (auto simp: repr_Nil)
  obtain r db' where r: "hash_node H put (cachegen t) (cachelimit t) (root t) (Some d) True = (r, db')" by fastforce
  have "hash_ok H get (get d) (set (encs H p)) True p (Some d) (r, db')"
    unfolding r [symmetric] using p(2,3,4) w by (intro hash_repr) (auto simp: sized_def view_def)
  then obtain n where h: "r = Inr (HashNode (H (penc H p)), n)"
    and h2: "db' \<noteq> None" "extends (get d) (view get (get d) db')" "repr H (view get (get d) db') True n p"
    "stored H (view get (get d) db') p" "saved H (view get (get d) db') p"
    by (auto simp: hash_ok_def collapsed_as_def written_def view_def [of _ _ "Some d"] split: sum.split_asm)
  obtain d' where d': "db' = Some d'" using h2(1) by blast
  show thesis
    by (rule that [of n d']) (use r h h2 d' n False in \<open>simp_all add: CommitTo_def hashRoot_def as_hash_def BytesToHash_32 length_H root_hash_def view_def\<close>)
qed

end

end
