(* ===== verification/Trie_Proof.thy ===== *)
theory Trie_Proof
  imports Trie_Hash
begin

text \<open>
  Merkle proofs (\<open>trie/proof.go\<close>). A proof accepted against the root hash of a trie tells the
  truth about the key, collisions of the hash apart; the proofs of \<open>Prove\<close> are accepted, except
  that the verifier panics on some proofs of absence.
\<close>

section \<open>Constructing and verifying proofs\<close>

text \<open>The loop of \<open>Prove\<close> that collects the nodes on the path; \<open>None\<close> is the nil proof after an error.\<close>

function prove_path :: "trie_db \<Rightarrow> trie \<Rightarrow> node \<Rightarrow> nibbles \<Rightarrow> trie_error + node list option" where
  "prove_path db t tn key =
     (if key = [] then Inr (Some [])
      else case tn of
        NilNode \<Rightarrow> Inr (Some [])
      | ShortNode k v fl \<Rightarrow>
          if length key < length k \<or> k \<noteq> take (length k) key then Inr (Some [tn])
          else map_ok (map_option ((#) tn)) (prove_path db t v (drop (length k) key))
      | FullNode cs fl \<Rightarrow>
          if unat (hd key) < length cs
          then map_ok (map_option ((#) tn)) (prove_path db t (cs ! unat (hd key)) (tl key))
          else Inl TriePanic
      | HashNode h \<Rightarrow>
          (case resolveHash db t h [] [] of
             Inl e \<Rightarrow> if e = TriePanic then Inl TriePanic else Inr None
           | Inr n \<Rightarrow> prove_path db t n key)
      | ValueNode v \<Rightarrow> Inl TriePanic)"
  by pat_completeness auto
termination
  by (relation "measures [\<lambda>(db, t, n, key). length key, \<lambda>(db, t, n, key). slack n, \<lambda>(db, t, n, key). is_hash n]")
    (auto dest!: resolveHash_form)

declare prove_path.simps [simp del]

fun prove_encode :: "(bytes \<Rightarrow> bytes) \<Rightarrow> bool \<Rightarrow> node list \<Rightarrow> trie_error + bytes list" where
  \<comment> \<open>the second loop of \<open>Prove\<close>; the flag is \<open>i == 0\<close>\<close>
  "prove_encode H first [] = Inr []"
| "prove_encode H first (n # ns) =
     (case hashChildren H map_put 0 0 n None of
        (Inl e, _) \<Rightarrow> Inl e
      | (Inr (n', _), _) \<Rightarrow>
          (case store H map_put n' None False of
             (Inl e, _) \<Rightarrow> Inl e
           | (Inr hn, _) \<Rightarrow>
               (case prove_encode H False ns of
                  Inl e \<Rightarrow> Inl e
                | Inr rest \<Rightarrow>
                    if is_hash hn = 1 \<or> first
                    then (case encodeNode n' of Inl e \<Rightarrow> Inl TriePanic | Inr buf \<Rightarrow> Inr (buf # rest))
                    else Inr rest)))"

definition Prove :: "(bytes \<Rightarrow> bytes) \<Rightarrow> trie_db \<Rightarrow> trie \<Rightarrow> bytes \<Rightarrow> trie_error + bytes list option" where
  "Prove H db t key =
     (case prove_path db t (root t) (compactHexDecode key) of
        Inl e \<Rightarrow> Inl e
      | Inr None \<Rightarrow> Inr None
      | Inr (Some nodes) \<Rightarrow> map_ok Some (prove_encode H True nodes))"

datatype proof_error =
    HashMismatch nat
  | BadProofNode nat trie_error
  | KeyMismatch nat
  | AdditionalNodes
  | UnexpectedEndOfProof
  | ProofPanic

function get_child :: "node \<Rightarrow> nibbles \<Rightarrow> proof_error + nibbles \<times> node" where
  "get_child tn key =
     (if key = [] then (case tn of ValueNode v \<Rightarrow> Inr ([], tn) | _ \<Rightarrow> Inl ProofPanic)
      else case tn of
        ShortNode k v fl \<Rightarrow>
          if length key < length k \<or> k \<noteq> take (length k) key then Inr ([], NilNode)
          else get_child v (drop (length k) key)
      | FullNode cs fl \<Rightarrow>
          if unat (hd key) < length cs then get_child (cs ! unat (hd key)) (tl key) else Inl ProofPanic
      | HashNode h \<Rightarrow> Inr (key, HashNode h)
      | NilNode \<Rightarrow> Inr (key, NilNode)
      | ValueNode v \<Rightarrow> Inl ProofPanic)"
  by pat_completeness auto
termination
  by (relation "measures [\<lambda>(n, key). length key, \<lambda>(n, key). slack n]") auto

declare get_child.simps [simp del]

fun verify_loop :: "(bytes \<Rightarrow> bytes) \<Rightarrow> nat \<Rightarrow> nibbles \<Rightarrow> bytes \<Rightarrow> bytes list \<Rightarrow> proof_error + bytes option" where
  "verify_loop H i key wantHash [] = Inl UnexpectedEndOfProof"
| "verify_loop H i key wantHash (buf # rest) =
     (if H buf \<noteq> wantHash then Inl (HashMismatch i)
      else case decodeNode (Some wantHash) buf 0 of
        Inl e \<Rightarrow> Inl (if e = TriePanic then ProofPanic else BadProofNode i e)
      | Inr n \<Rightarrow>
          (case get_child n key of
             Inl e \<Rightarrow> Inl e
           | Inr (keyrest, cld) \<Rightarrow>
               (case cld of
                  NilNode \<Rightarrow> if rest \<noteq> [] then Inl (KeyMismatch i) else Inr None
                | HashNode h \<Rightarrow> verify_loop H (Suc i) keyrest h rest
                | ValueNode v \<Rightarrow> if rest \<noteq> [] then Inl AdditionalNodes else Inr (Some v)
                | _ \<Rightarrow> verify_loop H (Suc i) key wantHash rest)))"

definition VerifyProof :: "(bytes \<Rightarrow> bytes) \<Rightarrow> bytes \<Rightarrow> bytes \<Rightarrow> bytes list \<Rightarrow> proof_error + bytes option" where
  "VerifyProof H rootHash key proof = verify_loop H 0 (compactHexDecode key) rootHash proof"

section \<open>The walk of the verifier on a plain trie\<close>

datatype stop = StopNil | StopVal bytes | StopHash ptrie nibbles | StopPanic

function pwalk :: "(bytes \<Rightarrow> bytes) \<Rightarrow> bool \<Rightarrow> ptrie \<Rightarrow> nibbles \<Rightarrow> stop" where
  \<comment> \<open>the flag says whether the node is below the one that the proof element decodes to\<close>
  "pwalk H b p key =
     (if key = [] then (case p of PVal v \<Rightarrow> StopVal v | _ \<Rightarrow> StopPanic)
      else if b \<and> inner p \<and> 32 \<le> length (penc H p) then StopHash p key
      else case p of
        PNil \<Rightarrow> StopNil
      | PVal v \<Rightarrow> StopPanic
      | PShort k c \<Rightarrow> if take (length k) key = k then pwalk H True c (drop (length k) key) else StopNil
      | PFull ps \<Rightarrow> if unat (hd key) < length ps then pwalk H True (ps ! unat (hd key)) (tl key) else StopPanic)"
  by pat_completeness auto
termination
  by (relation "measure (\<lambda>(H, b, p, key). size p)") (auto intro: size_nth_ptrie)

declare pwalk.simps [simp del]

definition stopped :: "(bytes \<Rightarrow> bytes) \<Rightarrow> stop \<Rightarrow> proof_error + nibbles \<times> node \<Rightarrow> bool" where
  "stopped H s r \<longleftrightarrow>
     (case s of
        StopNil \<Rightarrow> \<exists>k. r = Inr (k, NilNode)
      | StopVal v \<Rightarrow> \<exists>k. r = Inr (k, ValueNode v)
      | StopHash p key \<Rightarrow> r = Inr (key, HashNode (H (penc H p)))
      | StopPanic \<Rightarrow> r = Inl ProofPanic)"

lemma stopped_simps [simp]: "stopped H StopNil (Inr (k, NilNode))" "stopped H (StopVal v) (Inr (k, ValueNode v))"
  "stopped H (StopHash p key) (Inr (key, HashNode (H (penc H p))))" "stopped H StopPanic (Inl ProofPanic)"
  by (simp_all add: stopped_def)

lemmas get_child_shape =
  get_child.simps [of NilNode, unfolded node.case]
  get_child.simps [of "ValueNode v", unfolded node.case]
  get_child.simps [of "ShortNode k v fl", unfolded node.case]
  get_child.simps [of "FullNode cs fl", unfolded node.case]
  get_child.simps [of "HashNode h", unfolded node.case] for k v fl cs h

lemmas pwalk_shape =
  pwalk.simps [of H b PNil, unfolded ptrie.case]
  pwalk.simps [of H b "PVal v", unfolded ptrie.case]
  pwalk.simps [of H b "PShort k c", unfolded ptrie.case]
  pwalk.simps [of H b "PFull ps", unfolded ptrie.case] for H b v k c ps

lemma take_mismatch: "(length key < length k \<or> k \<noteq> take (length k) key) \<longleftrightarrow> take (length k) key \<noteq> k"
  by (cases "length key < length k") auto

lemma pwalk_below: "inner p \<Longrightarrow> pwalk H True p key =
    (if key \<noteq> [] \<and> 32 \<le> length (penc H p) then StopHash p key else pwalk H False p key)"
  by (simp add: pwalk.simps [of H True p] pwalk.simps [of H False p])

lemma stopped_below:
  assumes "inner p" "stopped H (pwalk H False p key) (get_child (dnode H g None p) key)"
  shows "stopped H (pwalk H True p key) (get_child (dref H g p) key)"
proof -
  have "pwalk H False p [] = StopPanic" using assms(1) by (cases p) (simp_all add: pwalk_shape)
  then show ?thesis using assms by (auto simp: pwalk_below dchild_def get_child_shape(5))
qed

lemma get_child_dnode:
  "stopped H (pwalk H False p key) (get_child (dnode H g h p) key) \<and>
   stopped H (pwalk H True p key) (get_child (dref H g p) key)"
proof (induction p arbitrary: key h)
  case PNil
  then show ?case by (simp add: pwalk_shape get_child_shape dchild_def)
next
  case (PVal v)
  then show ?case by (simp add: pwalk_shape get_child_shape dchild_def)
next
  case (PShort k c)
  have "stopped H (pwalk H False (PShort k c) key) (get_child (dnode H g h (PShort k c)) key)" for h
    using PShort.IH [of "drop (length k) key"] by (simp add: pwalk_shape(3) get_child_shape(3) take_mismatch)
  then show ?case using stopped_below [of "PShort k c"] by (metis inner_simps(3))
next
  case (PFull ps)
  have "stopped H (pwalk H False (PFull ps) key) (get_child (dnode H g h (PFull ps)) key)" for h
    using PFull.IH [of "ps ! unat (hd key)" "tl key"] by (simp add: pwalk_shape(4) get_child_shape(4))
  then show ?case using stopped_below [of "PFull ps"] by (metis inner_simps(4))
qed

definition walk_ok :: "(bytes \<Rightarrow> bytes) \<Rightarrow> ptrie \<Rightarrow> nibbles \<Rightarrow> stop \<Rightarrow> bool" where
  "walk_ok H p key s \<longleftrightarrow>
     (case s of
        StopVal v \<Rightarrow> plookup p key = Some v
      | StopHash c r \<Rightarrow> plookup p key = plookup c r \<and> fits_key c r \<and> wfp c \<and> 32 \<le> length (penc H c) \<and>
          set (encs H c) \<subseteq> set (encs H p)
      | _ \<Rightarrow> plookup p key = None)"

lemma pwalk_ok: "fits_key p key \<Longrightarrow> walk_ok H p key (pwalk H b p key)"
proof (induction p arbitrary: key b)
  case PNil
  then show ?case by (simp add: pwalk_shape walk_ok_def)
next
  case (PVal v)
  then show ?case by (auto simp: pwalk_shape walk_ok_def fits_key_def)
next
  case (PShort k c)
  have w: "wfp (PShort k c)" "is_key key" using PShort.prems by (auto simp: fits_key_def)
  show ?case
  proof (cases "take (length k) key = k")
    case True
    then have key: "key = k @ drop (length k) key" by (metis append_take_drop_id)
    then have "fits_key c (drop (length k) key)" using fits_short w by metis
    then have "walk_ok H c (drop (length k) key) (pwalk H True c (drop (length k) key))" by (rule PShort.IH)
    moreover have "set (encs H c) \<subseteq> set (encs H (PShort k c))" by auto
    moreover have "pwalk H b (PShort k c) key = (if b \<and> 32 \<le> length (penc H (PShort k c)) then StopHash (PShort k c) key
      else pwalk H True c (drop (length k) key))" using True w(2) by (auto simp: pwalk_shape(3))
    moreover have "plookup (PShort k c) key = plookup c (drop (length k) key)" using True by simp
    ultimately show ?thesis using PShort.prems w(1)
      by (cases "pwalk H True c (drop (length k) key)") (simp_all add: walk_ok_def del: encs.simps plookup.simps wfp.simps, blast)
  next
    case False
    then show ?thesis using PShort.prems w by (auto simp: pwalk_shape(3) walk_ok_def)
  qed
next
  case (PFull ps)
  have w: "wfp (PFull ps)" "is_key key" using PFull.prems by (auto simp: fits_key_def)
  then obtain x xs where key: "key = x # xs" by (cases key) auto
  then have x: "unat x < length ps" "fits_key (ps ! unat x) xs" using fits_full w by blast+
  then have "walk_ok H (ps ! unat x) xs (pwalk H True (ps ! unat x) xs)" by (intro PFull.IH) simp_all
  moreover have "set (encs H (ps ! unat x)) \<subseteq> set (encs H (PFull ps))" using nth_mem [OF x(1)] by auto
  moreover have "pwalk H b (PFull ps) key = (if b \<and> 32 \<le> length (penc H (PFull ps)) then StopHash (PFull ps) key
      else pwalk H True (ps ! unat x) xs)" using x(1) by (simp add: pwalk_shape(4) key)
  ultimately show ?case using key x(1) PFull.prems w
    by (cases "pwalk H True (ps ! unat x) xs") (simp_all add: walk_ok_def del: encs.simps, blast)
qed

lemma penc_in_encs: "inner p \<Longrightarrow> penc H p \<in> set (encs H p)"
  by (cases p) auto

context hash_fn
begin

lemma verify_step:
  assumes "wfp p" "sized H p"
  shows "verify_loop H i key (H (penc H p)) (penc H p # rest) =
    (case pwalk H False p key of
       StopNil \<Rightarrow> if rest \<noteq> [] then Inl (KeyMismatch i) else Inr None
     | StopVal v \<Rightarrow> if rest \<noteq> [] then Inl AdditionalNodes else Inr (Some v)
     | StopHash c r \<Rightarrow> verify_loop H (Suc i) r (H (penc H c)) rest
     | StopPanic \<Rightarrow> Inl ProofPanic)"
proof -
  have "length (penc H p) < 2 ^ 64" using assms penc_in_encs [OF wfp_inner] by (auto simp: sized_def)
  then have "decodeNode (Some (H (penc H p))) (penc H p) 0 = Inr (dnode H 0 (Some (H (penc H p))) p)"
    using decodeNode_enc [OF assms(1), of "[]"] by simp
  moreover have "stopped H (pwalk H False p key) (get_child (dnode H 0 (Some (H (penc H p))) p) key)"
    using get_child_dnode by blast
  ultimately show ?thesis by (cases "pwalk H False p key") (auto simp: stopped_def)
qed

lemma verify_sound:
  "wfp p \<Longrightarrow> fits_key p key \<Longrightarrow> sized H p \<Longrightarrow>
   \<forall>buf \<in> set bufs. \<forall>x \<in> set (encs H p). H buf = H x \<longrightarrow> buf = x \<Longrightarrow>
   verify_loop H i key (H (penc H p)) bufs = Inr r \<Longrightarrow> r = plookup p key"
proof (induction bufs arbitrary: i key p)
  case Nil
  then show ?case by simp
next
  case (Cons buf rest)
  have "H buf = H (penc H p)" using Cons.prems(5) by (auto split: if_split_asm)
  then have buf: "buf = penc H p" using Cons.prems(1,4) penc_in_encs [OF wfp_inner] by simp
  have ok: "walk_ok H p key (pwalk H False p key)" using Cons.prems(2) by (rule pwalk_ok)
  show ?case
  proof (cases "pwalk H False p key")
    case (StopHash c k)
    then have c: "wfp c" "fits_key c k" "plookup p key = plookup c k" "set (encs H c) \<subseteq> set (encs H p)"
      using ok by (auto simp: walk_ok_def)
    then have "sized H c" using Cons.prems(3) by (auto simp: sized_def)
    moreover have "verify_loop H (Suc i) k (H (penc H c)) rest = Inr r"
      using Cons.prems(5) StopHash by (simp add: buf verify_step [OF Cons.prems(1,3)] del: verify_loop.simps)
    moreover have "\<forall>buf \<in> set rest. \<forall>x \<in> set (encs H c). H buf = H x \<longrightarrow> buf = x" using Cons.prems(4) c(4) by auto
    ultimately show ?thesis using Cons.IH [OF c(1,2)] c(3) by simp
  qed (use ok Cons.prems(5) in \<open>auto simp: buf verify_step [OF Cons.prems(1,3)] walk_ok_def simp del: verify_loop.simps split: if_split_asm\<close>)
qed

end

section \<open>The proofs that \<open>Prove\<close> constructs\<close>

function chain :: "ptrie \<Rightarrow> nibbles \<Rightarrow> ptrie list" where
  \<comment> \<open>the nodes on the path of a key\<close>
  "chain p key =
     (if key = [] then []
      else case p of
        PShort k c \<Rightarrow> p # (if take (length k) key = k then chain c (drop (length k) key) else [])
      | PFull ps \<Rightarrow> p # (if unat (hd key) < length ps then chain (ps ! unat (hd key)) (tl key) else [])
      | _ \<Rightarrow> [])"
  by pat_completeness auto
termination
  by (relation "measure (\<lambda>(p, key). size p)") (auto intro: size_nth_ptrie)

function stuck :: "ptrie \<Rightarrow> nibbles \<Rightarrow> bool" where
  \<comment> \<open>the key ends where no value is stored, not before\<close>
  "stuck p key =
     (if key = [] then (case p of PVal v \<Rightarrow> False | _ \<Rightarrow> True)
      else case p of
        PShort k c \<Rightarrow> if take (length k) key = k then stuck c (drop (length k) key) else False
      | PFull ps \<Rightarrow> if unat (hd key) < length ps then stuck (ps ! unat (hd key)) (tl key) else False
      | _ \<Rightarrow> False)"
  by pat_completeness auto
termination
  by (relation "measure (\<lambda>(p, key). size p)") (auto intro: size_nth_ptrie)

declare chain.simps [simp del] stuck.simps [simp del]

lemmas chain_shape =
  chain.simps [of PNil, unfolded ptrie.case]
  chain.simps [of "PVal v", unfolded ptrie.case]
  chain.simps [of "PShort k c", unfolded ptrie.case]
  chain.simps [of "PFull ps", unfolded ptrie.case] for v k c ps

lemmas stuck_shape =
  stuck.simps [of PNil, unfolded ptrie.case]
  stuck.simps [of "PVal v", unfolded ptrie.case]
  stuck.simps [of "PShort k c", unfolded ptrie.case]
  stuck.simps [of "PFull ps", unfolded ptrie.case] for v k c ps

definition big :: "(bytes \<Rightarrow> bytes) \<Rightarrow> ptrie \<Rightarrow> bool" where
  "big H p \<longleftrightarrow> 32 \<le> length (penc H p)"

definition rest_ok :: "(bytes \<Rightarrow> bytes) \<Rightarrow> ptrie \<Rightarrow> nibbles \<Rightarrow> stop \<Rightarrow> ptrie list \<Rightarrow> bool" where
  "rest_ok H p key s l \<longleftrightarrow>
     (case s of
        StopHash c r \<Rightarrow> l = c # filter (big H) (tl (chain c r)) \<and> stuck c r = stuck p key
      | StopPanic \<Rightarrow> l = [] \<and> stuck p key
      | _ \<Rightarrow> l = [] \<and> \<not> stuck p key)"

lemma rest_ok_cong: "rest_ok H q key' s l \<Longrightarrow> stuck p key = stuck q key' \<Longrightarrow> rest_ok H p key s l"
  by (cases s) (simp_all add: rest_ok_def)

lemma rest_below:
  assumes "inner p" "rest_ok H p key (pwalk H False p key) (filter (big H) (tl (chain p key)))"
  shows "rest_ok H p key (pwalk H True p key) (filter (big H) (chain p key))"
proof (cases "key \<noteq> [] \<and> big H p")
  case True
  then have "chain p key = p # tl (chain p key)" using assms(1) by (cases p) (simp_all add: chain_shape)
  then have "filter (big H) (chain p key) = p # filter (big H) (tl (chain p key))" using True by (metis filter.simps(2))
  then show ?thesis using True assms(1) by (simp add: pwalk_below rest_ok_def big_def)
next
  case False
  then have "filter (big H) (chain p key) = filter (big H) (tl (chain p key))"
    using assms(1) by (cases p) (auto simp: chain_shape)
  then show ?thesis using False assms by (auto simp: pwalk_below big_def)
qed

lemma rest_pwalk:
  "fits_key p key \<Longrightarrow>
   (inner p \<longrightarrow> rest_ok H p key (pwalk H False p key) (filter (big H) (tl (chain p key)))) \<and>
   rest_ok H p key (pwalk H True p key) (filter (big H) (chain p key))"
proof (induction p arbitrary: key)
  case PNil
  then show ?case by (simp add: pwalk_shape chain_shape stuck_shape rest_ok_def)
next
  case (PVal v)
  then show ?case by (auto simp: pwalk_shape chain_shape stuck_shape rest_ok_def fits_key_def)
next
  case (PShort k c)
  have w: "wfp (PShort k c)" "key \<noteq> []" "is_key key" using PShort.prems by (auto simp: fits_key_def)
  have "rest_ok H (PShort k c) key (pwalk H False (PShort k c) key) (filter (big H) (tl (chain (PShort k c) key)))"
  proof (cases "take (length k) key = k")
    case True
    then have "key = k @ drop (length k) key" by (metis append_take_drop_id)
    then have "fits_key c (drop (length k) key)" using fits_short w by metis
    then have "rest_ok H c (drop (length k) key) (pwalk H True c (drop (length k) key)) (filter (big H) (chain c (drop (length k) key)))"
      using PShort.IH by blast
    moreover have "stuck (PShort k c) key = stuck c (drop (length k) key)" using True w(2) by (simp add: stuck_shape(3))
    ultimately show ?thesis using True w(2) rest_ok_cong by (simp add: pwalk_shape(3) chain_shape(3))
  next
    case False
    then show ?thesis using w(2) by (simp add: pwalk_shape(3) chain_shape(3) stuck_shape(3) rest_ok_def)
  qed
  then show ?case using rest_below by simp
next
  case (PFull ps)
  have w: "wfp (PFull ps)" "is_key key" using PFull.prems by (auto simp: fits_key_def)
  then obtain x xs where key: "key = x # xs" by (cases key) auto
  then have x: "unat x < length ps" "fits_key (ps ! unat x) xs" using fits_full w by blast+
  then have "rest_ok H (ps ! unat x) xs (pwalk H True (ps ! unat x) xs) (filter (big H) (chain (ps ! unat x) xs))"
    using PFull.IH [of "ps ! unat x" xs] by simp
  moreover have "stuck (PFull ps) key = stuck (ps ! unat x) xs" using x(1) by (simp add: stuck_shape(4) key)
  ultimately have "rest_ok H (PFull ps) key (pwalk H False (PFull ps) key) (filter (big H) (tl (chain (PFull ps) key)))"
    using x(1) rest_ok_cong by (simp add: pwalk_shape(4) chain_shape(4) key)
  then show ?case using rest_below by simp
qed

context hash_fn
begin

lemma verify_complete:
  "wfp p \<Longrightarrow> fits_key p key \<Longrightarrow> sized H p \<Longrightarrow>
   verify_loop H i key (H (penc H p)) (map (penc H) (p # filter (big H) (tl (chain p key)))) =
     (if stuck p key then Inl ProofPanic else Inr (plookup p key))"
proof (induction "length (filter (big H) (tl (chain p key)))" arbitrary: i p key rule: less_induct)
  case less
  have ok: "walk_ok H p key (pwalk H False p key)" using less.prems(2) by (rule pwalk_ok)
  have r: "rest_ok H p key (pwalk H False p key) (filter (big H) (tl (chain p key)))"
    using rest_pwalk [OF less.prems(2)] wfp_inner [OF less.prems(1)] by blast
  show ?case
  proof (cases "pwalk H False p key")
    case (StopHash c k)
    then have c: "wfp c" "fits_key c k" "plookup p key = plookup c k" "set (encs H c) \<subseteq> set (encs H p)"
      using ok by (auto simp: walk_ok_def)
    have f: "filter (big H) (tl (chain p key)) = c # filter (big H) (tl (chain c k))" "stuck c k = stuck p key"
      using r StopHash by (simp_all add: rest_ok_def)
    have "sized H c" using less.prems(3) c(4) by (auto simp: sized_def)
    then have "verify_loop H (Suc i) k (H (penc H c)) (map (penc H) (c # filter (big H) (tl (chain c k)))) =
        (if stuck c k then Inl ProofPanic else Inr (plookup c k))"
      using less.hyps [of c k "Suc i"] c f(1) by simp
    then show ?thesis using StopHash c(3) f verify_step [OF less.prems(1,3)] by simp
  qed (use ok r verify_step [OF less.prems(1,3)] in \<open>auto simp: walk_ok_def rest_ok_def simp del: verify_loop.simps\<close>)
qed

end

lemmas prove_path_shape =
  prove_path.simps [of db t NilNode, unfolded node.case]
  prove_path.simps [of db t "ValueNode v", unfolded node.case]
  prove_path.simps [of db t "ShortNode k v fl", unfolded node.case]
  prove_path.simps [of db t "FullNode cs fl", unfolded node.case]
  prove_path.simps [of db t "HashNode h", unfolded node.case] for db t k v fl cs h

definition loaded :: "(bytes \<Rightarrow> bytes) \<Rightarrow> trie_db \<Rightarrow> node \<Rightarrow> ptrie \<Rightarrow> bool" where
  "loaded H db n p \<longleftrightarrow> (\<exists>tp. repr H db tp n p) \<and> (\<forall>h. n \<noteq> HashNode h)"

definition path_ok :: "(bytes \<Rightarrow> bytes) \<Rightarrow> trie_db \<Rightarrow> ptrie list \<Rightarrow> trie_error + node list option \<Rightarrow> bool" where
  "path_ok H db qs r \<longleftrightarrow> (\<exists>ns. r = Inr (Some ns) \<and> list_all2 (loaded H db) ns qs)"

lemma chain_kids:
  "fits_key p key \<Longrightarrow> q \<in> set (chain p key) \<Longrightarrow> wfp q \<and> set (encs H q) \<subseteq> set (encs H p)"
proof (induction p arbitrary: key)
  case (PShort k c)
  have w: "wfp (PShort k c)" "is_key key" using PShort.prems(1) by (auto simp: fits_key_def)
  show ?case
  proof (cases "take (length k) key = k \<and> q \<noteq> PShort k c")
    case True
    then have "key = k @ drop (length k) key" by (metis append_take_drop_id)
    then have "fits_key c (drop (length k) key)" using fits_short w by metis
    moreover have "q \<in> set (chain c (drop (length k) key))" using True PShort.prems(2) by (auto simp: chain_shape(3) split: if_split_asm)
    ultimately show ?thesis using PShort.IH by auto
  next
    case False
    then have "q = PShort k c" using PShort.prems(2) by (auto simp: chain_shape(3) split: if_split_asm)
    then show ?thesis using w by simp
  qed
next
  case (PFull ps)
  have w: "wfp (PFull ps)" "is_key key" using PFull.prems(1) by (auto simp: fits_key_def)
  then obtain x xs where key: "key = x # xs" by (cases key) auto
  then have x: "unat x < length ps" "fits_key (ps ! unat x) xs" using fits_full w by blast+
  show ?case
  proof (cases "q = PFull ps")
    case False
    then have "q \<in> set (chain (ps ! unat x) xs)" using PFull.prems(2) x(1) by (auto simp: chain_shape(4) key)
    then have "wfp q \<and> set (encs H q) \<subseteq> set (encs H (ps ! unat x))"
      using PFull.IH [OF nth_mem [OF x(1)] x(2)] by simp
    then show ?thesis using nth_mem [OF x(1)] by auto
  qed (use w in simp)
qed (simp_all add: chain_shape)

context hash_fn
begin

lemma path_resolved:
  assumes "\<And>n. repr H db tp n p \<Longrightarrow> \<forall>h. n \<noteq> HashNode h \<Longrightarrow> path_ok H db qs (prove_path db t n key)"
    and "repr H db tp n p" "key \<noteq> []"
  shows "path_ok H db qs (prove_path db t n key)"
proof (cases "\<exists>h. n = HashNode h")
  case True
  then obtain h where h: "n = HashNode h" by blast
  obtain n' where n': "resolveHash db t h [] [] = Inr n'" "repr H db tp n' p" "\<forall>h'. n' \<noteq> HashNode h'"
    using resolveHash_repr assms(2) [unfolded h] by blast
  then show ?thesis using assms(1) [OF n'(2,3)] assms(3) by (simp add: h prove_path_shape(5))
next
  case False
  then show ?thesis using assms by blast
qed

lemma path_ok_Cons: "path_ok H db qs r \<Longrightarrow> loaded H db n p \<Longrightarrow> path_ok H db (p # qs) (map_ok (map_option ((#) n)) r)"
  by (auto simp: path_ok_def)

lemma prove_path_repr:
  "fits_key p key \<Longrightarrow> repr H db tp n p \<Longrightarrow> path_ok H db (chain p key) (prove_path db t n key)"
proof (induction p arbitrary: key n tp)
  case PNil
  then show ?case by (simp add: repr_Nil prove_path_shape(1) chain_shape(1) path_ok_def)
next
  case (PVal v)
  then have "key = []" by (auto simp: fits_key_def)
  then show ?case by (simp add: prove_path.simps chain_shape(2) path_ok_def)
next
  case (PShort k c)
  have w: "wfp (PShort k c)" "key \<noteq> []" "is_key key" using PShort.prems(1) by (auto simp: fits_key_def)
  have "path_ok H db (chain (PShort k c) key) (prove_path db t m key)"
    if m: "repr H db tp m (PShort k c)" "\<forall>h. m \<noteq> HashNode h" for m
  proof -
    obtain v fl where v: "m = ShortNode k v fl" "repr H db False v c" using m by (auto elim: repr_PShortE)
    have l: "loaded H db m (PShort k c)" using m by (auto simp: loaded_def)
    show ?thesis
    proof (cases "take (length k) key = k")
      case True
      then have "key = k @ drop (length k) key" by (metis append_take_drop_id)
      then have "fits_key c (drop (length k) key)" using fits_short w by metis
      then have "path_ok H db (PShort k c # chain c (drop (length k) key)) (map_ok (map_option ((#) m)) (prove_path db t v (drop (length k) key)))"
        using path_ok_Cons [OF PShort.IH l] v(2) by blast
      moreover have "(length key < length k \<or> k \<noteq> take (length k) key) = False" using True take_mismatch by blast
      ultimately show ?thesis using True v(1) w(2) by (simp only: prove_path_shape(3) chain_shape(3) if_False if_True) simp
    next
      case False
      then show ?thesis using v(1) w(2) l by (simp add: prove_path_shape(3) chain_shape(3) take_mismatch path_ok_def)
    qed
  qed
  then show ?case using PShort.prems(2) w(2) by (rule path_resolved)
next
  case (PFull ps)
  have w: "wfp (PFull ps)" "is_key key" using PFull.prems(1) by (auto simp: fits_key_def)
  then obtain x xs where key: "key = x # xs" by (cases key) auto
  then have x: "unat x < length ps" "fits_key (ps ! unat x) xs" using fits_full w by blast+
  have "path_ok H db (chain (PFull ps) key) (prove_path db t m key)"
    if m: "repr H db tp m (PFull ps)" "\<forall>h. m \<noteq> HashNode h" for m
  proof -
    obtain cs fl where v: "m = FullNode cs fl" "list_all2 (repr H db False) cs ps" using m by (auto elim: repr_PFullE)
    then have l: "length cs = length ps" "repr H db False (cs ! unat x) (ps ! unat x)"
      using x(1) by (auto simp: list_all2_conv_all_nth)
    have "loaded H db m (PFull ps)" using m by (auto simp: loaded_def)
    then show ?thesis using path_ok_Cons [OF PFull.IH [OF nth_mem [OF x(1)] x(2) l(2)]] v(1) x(1) l(1)
      by (simp add: prove_path_shape(4) chain_shape(4) key)
  qed
  moreover have "key \<noteq> []" by (simp add: key)
  ultimately show ?case using PFull.prems(2) path_resolved by blast
qed

lemma prove_encode_ok:
  assumes "\<And>q. q \<in> set qs \<Longrightarrow> wfp q \<and> sized H q"
  shows "list_all2 (loaded H db) ns qs \<Longrightarrow>
    prove_encode H first ns = Inr (map (penc H) (if first then take 1 qs @ filter (big H) (drop 1 qs) else filter (big H) qs))"
  using assms
proof (induction ns arbitrary: first qs)
  case Nil
  then show ?case by simp
next
  case (Cons n ns)
  from Cons.prems(1) obtain q qs' where qs: "qs = q # qs'" and n: "loaded H db n q" and ns: "list_all2 (loaded H db) ns qs'"
    by (cases qs) auto
  have q: "wfp q" "sized H q" using Cons.prems(2) qs by auto
  obtain tp where r: "repr H db tp n q" "\<forall>h. n \<noteq> HashNode h" using n by (auto simp: loaded_def)
  have comp: "compat H (\<lambda>d. d) (set (encs H q)) None" by (simp add: compat_def)
  obtain fl where fl: "flag_ok H db tp fl q" "children_ok H (\<lambda>d. d) db (set (encs H q)) fl q None (hashChildren H map_put 0 0 n None)"
    using mapdb.hashChildren_repr [OF _ q(1) subset_refl comp, of db tp n 0 0] r q(2) by (auto simp: sized_def view_def)
  then obtain n' c db' where hc: "hashChildren H map_put 0 0 n None = (Inr (n', c), db')" "node_item n' = citem H q" "flags_of n' = Some fl"
    by (auto simp: children_ok_def split: prod.split_asm sum.split_asm)
  have len: "length (penc H q) < 2 ^ 64" using q penc_in_encs [OF wfp_inner [OF q(1)]] by (auto simp: sized_def)
  have e: "encodeNode n' = Inr (penc H q)" using encodeNode_rlp [of n'] hc(2) len by (simp add: penc_def)
  have st: "store H map_put n' None False = (Inr (if big H q then HashNode (case fst (cache n') of None \<Rightarrow> H (penc H q) | Some h \<Rightarrow> h) else n'), None)"
    using hc(3) e by (cases n') (auto simp: store_def Let_def big_def)
  have h: "is_hash n' = 0" using hc(3) by (cases n') auto
  have "prove_encode H False ns = Inr (map (penc H) (filter (big H) qs'))"
    using Cons.IH [OF ns, of False] Cons.prems(2) qs by simp
  then show ?case using hc(1) e st h by (simp add: qs)
qed

lemma Prove_repr:
  assumes p: "wfp p" "repr H db True (root t) p" "sized H p"
  shows "Prove H db t key = Inr (Some (map (penc H) (p # filter (big H) (tl (chain p (compactHexDecode key))))))"
proof -
  define k where "k = compactHexDecode key"
  have f: "fits_key p k" using p(1) is_key_compactHexDecode by (simp add: fits_key_def k_def)
  obtain ns where ns: "prove_path db t (root t) k = Inr (Some ns)" "list_all2 (loaded H db) ns (chain p k)"
    using prove_path_repr [OF f p(2)] by (auto simp: path_ok_def)
  have "wfp q \<and> sized H q" if "q \<in> set (chain p k)" for q
    using chain_kids [OF f that] p(3) by (auto simp: sized_def)
  then have "prove_encode H True ns = Inr (map (penc H) (take 1 (chain p k) @ filter (big H) (drop 1 (chain p k))))"
    using prove_encode_ok [OF _ ns(2)] by simp
  moreover have "k \<noteq> []" using is_key_compactHexDecode [of key] by (auto simp: k_def)
  then have "chain p k = p # tl (chain p k)" using wfp_inner [OF p(1)] by (cases p) (simp_all add: chain_shape)
  then have "take 1 (chain p k) = [p]" "drop 1 (chain p k) = tl (chain p k)" by (metis One_nat_def take0 take_Suc_Cons, simp add: drop_Suc)
  ultimately show ?thesis using ns(1) by (simp add: Prove_def k_def)
qed

lemma VerifyProof_Prove:
  assumes p: "wfp p" "repr H db True (root t) p" "sized H p"
  shows "\<exists>pf. Prove H db t key = Inr (Some pf) \<and>
    VerifyProof H (root_hash H p) key pf =
      (if stuck p (compactHexDecode key) then Inl ProofPanic else Inr (plookup p (compactHexDecode key)))"
proof -
  have f: "fits_key p (compactHexDecode key)" using p(1) is_key_compactHexDecode by (simp add: fits_key_def)
  have "p \<noteq> PNil" using p(1) by auto
  then show ?thesis using verify_complete [OF p(1) f p(3)] Prove_repr [OF p] by (simp add: VerifyProof_def root_hash_def)
qed

lemma VerifyProof_sound:
  assumes p: "wfp p" "sized H p" "\<forall>buf \<in> set pf. \<forall>x \<in> set (encs H p). H buf = H x \<longrightarrow> buf = x"
    and v: "VerifyProof H (root_hash H p) key pf = Inr r"
  shows "r = plookup p (compactHexDecode key)"
proof -
  have "fits_key p (compactHexDecode key)" using p(1) is_key_compactHexDecode by (simp add: fits_key_def)
  moreover have "p \<noteq> PNil" using p(1) by auto
  ultimately show ?thesis using verify_sound [OF p(1) _ p(2,3), of "compactHexDecode key" 0] v
    by (simp add: VerifyProof_def root_hash_def)
qed

end

end
