(* ===== verification/Keccak_F.thy ===== *)
theory Keccak_F
  imports Prelude
begin

text \<open>
  The Keccak-f[1600] permutation (\<open>crypto/sha3/keccakf.go\<close>): the in-place, four times unrolled
  implementation, and its equivalence with the permutation as the standard FIPS 202 defines it.
\<close>

unbundle bit_operations_syntax

section \<open>The implementation\<close>

definition rc :: "uint64 list" where
  "rc =
     [0x0000000000000001, 0x0000000000008082, 0x800000000000808A, 0x8000000080008000,
      0x000000000000808B, 0x0000000080000001, 0x8000000080008081, 0x8000000000008009,
      0x000000000000008A, 0x0000000000000088, 0x0000000080008009, 0x000000008000000A,
      0x000000008000808B, 0x800000000000008B, 0x8000000000008089, 0x8000000000008003,
      0x8000000000008002, 0x8000000000000080, 0x000000000000800A, 0x800000008000000A,
      0x8000000080008081, 0x8000000000008080, 0x0000000080000001, 0x8000000080008008]"

definition rol :: "nat \<Rightarrow> uint64 \<Rightarrow> uint64" where
  \<comment> \<open>\<open>t<<n | t>>(64-n)\<close>\<close>
  "rol n t = push_bit n t OR drop_bit (64 - n) t"

type_synonym lanes5 = "uint64 \<times> uint64 \<times> uint64 \<times> uint64 \<times> uint64"

definition column_diffs :: "uint64 list \<Rightarrow> lanes5" where
  \<comment> \<open>the first part of each round: the column parities \<open>bc0..bc4\<close> and \<open>d0..d4\<close>\<close>
  "column_diffs a =
     (let bc0 = a ! 0 XOR a ! 5 XOR a ! 10 XOR a ! 15 XOR a ! 20;
          bc1 = a ! 1 XOR a ! 6 XOR a ! 11 XOR a ! 16 XOR a ! 21;
          bc2 = a ! 2 XOR a ! 7 XOR a ! 12 XOR a ! 17 XOR a ! 22;
          bc3 = a ! 3 XOR a ! 8 XOR a ! 13 XOR a ! 18 XOR a ! 23;
          bc4 = a ! 4 XOR a ! 9 XOR a ! 14 XOR a ! 19 XOR a ! 24
      in (bc4 XOR rol 1 bc1, bc0 XOR rol 1 bc2, bc1 XOR rol 1 bc3, bc2 XOR rol 1 bc4, bc3 XOR rol 1 bc0))"

definition write_plane :: "nat list \<Rightarrow> lanes5 \<Rightarrow> uint64 list \<Rightarrow> uint64 list" where
  \<comment> \<open>the five assignments at the end of each group; \<open>x &^ y\<close> is \<open>x AND NOT y\<close>\<close>
  "write_plane is bc a =
     (let (bc0, bc1, bc2, bc3, bc4) = bc
      in a[is ! 0 := bc0 XOR (bc2 AND NOT bc1),
           is ! 1 := bc1 XOR (bc3 AND NOT bc2),
           is ! 2 := bc2 XOR (bc4 AND NOT bc3),
           is ! 3 := bc3 XOR (bc0 AND NOT bc4),
           is ! 4 := bc4 XOR (bc1 AND NOT bc0)])"

text \<open>
  The five groups of a round read and write five lanes each; they are the same in all four
  unrolled rounds but for the positions \<open>is\<close> of the lanes.
\<close>

definition plane0 :: "uint64 \<Rightarrow> nat list \<Rightarrow> lanes5 \<Rightarrow> uint64 list \<Rightarrow> uint64 list" where
  "plane0 rci is d a =
     (let (d0, d1, d2, d3, d4) = d;
          bc0 = a ! (is ! 0) XOR d0;
          bc1 = rol 44 (a ! (is ! 1) XOR d1);
          bc2 = rol 43 (a ! (is ! 2) XOR d2);
          bc3 = rol 21 (a ! (is ! 3) XOR d3);
          bc4 = rol 14 (a ! (is ! 4) XOR d4);
          a = write_plane is (bc0, bc1, bc2, bc3, bc4) a
      in a[is ! 0 := a ! (is ! 0) XOR rci])"

definition plane1 :: "nat list \<Rightarrow> lanes5 \<Rightarrow> uint64 list \<Rightarrow> uint64 list" where
  "plane1 is d a =
     (let (d0, d1, d2, d3, d4) = d;
          bc2 = rol 3 (a ! (is ! 0) XOR d0);
          bc3 = rol 45 (a ! (is ! 1) XOR d1);
          bc4 = rol 61 (a ! (is ! 2) XOR d2);
          bc0 = rol 28 (a ! (is ! 3) XOR d3);
          bc1 = rol 20 (a ! (is ! 4) XOR d4)
      in write_plane is (bc0, bc1, bc2, bc3, bc4) a)"

definition plane2 :: "nat list \<Rightarrow> lanes5 \<Rightarrow> uint64 list \<Rightarrow> uint64 list" where
  "plane2 is d a =
     (let (d0, d1, d2, d3, d4) = d;
          bc4 = rol 18 (a ! (is ! 0) XOR d0);
          bc0 = rol 1 (a ! (is ! 1) XOR d1);
          bc1 = rol 6 (a ! (is ! 2) XOR d2);
          bc2 = rol 25 (a ! (is ! 3) XOR d3);
          bc3 = rol 8 (a ! (is ! 4) XOR d4)
      in write_plane is (bc0, bc1, bc2, bc3, bc4) a)"

definition plane3 :: "nat list \<Rightarrow> lanes5 \<Rightarrow> uint64 list \<Rightarrow> uint64 list" where
  "plane3 is d a =
     (let (d0, d1, d2, d3, d4) = d;
          bc1 = rol 36 (a ! (is ! 0) XOR d0);
          bc2 = rol 10 (a ! (is ! 1) XOR d1);
          bc3 = rol 15 (a ! (is ! 2) XOR d2);
          bc4 = rol 56 (a ! (is ! 3) XOR d3);
          bc0 = rol 27 (a ! (is ! 4) XOR d4)
      in write_plane is (bc0, bc1, bc2, bc3, bc4) a)"

definition plane4 :: "nat list \<Rightarrow> lanes5 \<Rightarrow> uint64 list \<Rightarrow> uint64 list" where
  "plane4 is d a =
     (let (d0, d1, d2, d3, d4) = d;
          bc3 = rol 41 (a ! (is ! 0) XOR d0);
          bc4 = rol 2 (a ! (is ! 1) XOR d1);
          bc0 = rol 62 (a ! (is ! 2) XOR d2);
          bc1 = rol 55 (a ! (is ! 3) XOR d3);
          bc2 = rol 39 (a ! (is ! 4) XOR d4)
      in write_plane is (bc0, bc1, bc2, bc3, bc4) a)"

definition round1 :: "uint64 \<Rightarrow> uint64 list \<Rightarrow> uint64 list" where
  "round1 rci a =
     (let d = column_diffs a;
          a = plane0 rci [0, 6, 12, 18, 24] d a;
          a = plane1 [10, 16, 22, 3, 9] d a;
          a = plane2 [20, 1, 7, 13, 19] d a;
          a = plane3 [5, 11, 17, 23, 4] d a
      in plane4 [15, 21, 2, 8, 14] d a)"

definition round2 :: "uint64 \<Rightarrow> uint64 list \<Rightarrow> uint64 list" where
  "round2 rci a =
     (let d = column_diffs a;
          a = plane0 rci [0, 16, 7, 23, 14] d a;
          a = plane1 [20, 11, 2, 18, 9] d a;
          a = plane2 [15, 6, 22, 13, 4] d a;
          a = plane3 [10, 1, 17, 8, 24] d a
      in plane4 [5, 21, 12, 3, 19] d a)"

definition round3 :: "uint64 \<Rightarrow> uint64 list \<Rightarrow> uint64 list" where
  "round3 rci a =
     (let d = column_diffs a;
          a = plane0 rci [0, 11, 22, 8, 19] d a;
          a = plane1 [15, 1, 12, 23, 9] d a;
          a = plane2 [5, 16, 2, 13, 24] d a;
          a = plane3 [20, 6, 17, 3, 14] d a
      in plane4 [10, 21, 7, 18, 4] d a)"

definition round4 :: "uint64 \<Rightarrow> uint64 list \<Rightarrow> uint64 list" where
  "round4 rci a =
     (let d = column_diffs a;
          a = plane0 rci [0, 1, 2, 3, 4] d a;
          a = plane1 [5, 6, 7, 8, 9] d a;
          a = plane2 [10, 11, 12, 13, 14] d a;
          a = plane3 [15, 16, 17, 18, 19] d a
      in plane4 [20, 21, 22, 23, 24] d a)"

function keccak_loop :: "nat \<Rightarrow> uint64 list \<Rightarrow> uint64 list" where
  "keccak_loop i a =
     (if i < 24
      then keccak_loop (i + 4)
             (round4 (rc ! (i + 3)) (round3 (rc ! (i + 2)) (round2 (rc ! (i + 1)) (round1 (rc ! i) a))))
      else a)"
  by pat_completeness auto
termination
  by (relation "measure (\<lambda>(i, a). 24 - i)") auto

declare keccak_loop.simps [simp del]

definition keccakF1600 :: "uint64 list \<Rightarrow> uint64 list" where
  "keccakF1600 a = keccak_loop 0 a"

section \<open>The standard\<close>

text \<open>
  FIPS 202: a state is five by five lanes, lane \<open>(x, y)\<close> at position \<open>5 * y + x\<close>. The rotation
  offsets and the round constants are computed as the standard defines them, from the walk over the
  lanes and from the linear feedback shift register.
\<close>

definition lane :: "uint64 list \<Rightarrow> nat \<Rightarrow> nat \<Rightarrow> uint64" where
  "lane a x y = a ! (5 * (y mod 5) + x mod 5)"

definition build :: "(nat \<Rightarrow> nat \<Rightarrow> uint64) \<Rightarrow> uint64 list" where
  "build f = map (\<lambda>i. f (i mod 5) (i div 5)) [0..<25]"

definition parity :: "uint64 list \<Rightarrow> nat \<Rightarrow> uint64" where
  "parity a x = lane a x 0 XOR lane a x 1 XOR lane a x 2 XOR lane a x 3 XOR lane a x 4"

definition theta :: "uint64 list \<Rightarrow> uint64 list" where
  "theta a = build (\<lambda>x y. lane a x y XOR (parity a (x + 4) XOR word_rotl 1 (parity a (x + 1))))"

fun offset_walk :: "nat \<Rightarrow> nat \<Rightarrow> nat \<Rightarrow> nat \<Rightarrow> (nat \<times> nat \<times> nat) list" where
  "offset_walk t 0 x y = []"
| "offset_walk t (Suc n) x y = (x, y, (t + 1) * (t + 2) div 2 mod 64) # offset_walk (t + 1) n y ((2 * x + 3 * y) mod 5)"

definition offset :: "nat \<Rightarrow> nat \<Rightarrow> nat" where
  "offset x y = (case find (\<lambda>(x', y', r). x' = x \<and> y' = y) (offset_walk 0 24 1 0) of None \<Rightarrow> 0 | Some (_, _, r) \<Rightarrow> r)"

definition rho :: "uint64 list \<Rightarrow> uint64 list" where
  "rho a = build (\<lambda>x y. word_rotl (offset x y) (lane a x y))"

definition pi :: "uint64 list \<Rightarrow> uint64 list" where
  "pi a = build (\<lambda>x y. lane a (x + 3 * y) x)"

definition chi :: "uint64 list \<Rightarrow> uint64 list" where
  "chi a = build (\<lambda>x y. lane a x y XOR (NOT (lane a (x + 1) y) AND lane a (x + 2) y))"

definition lfsr_step :: "bool list \<Rightarrow> bool list" where
  "lfsr_step reg =
     (let r = False # reg; b = r ! 8
      in take 8 (r[0 := r ! 0 \<noteq> b, 4 := r ! 4 \<noteq> b, 5 := r ! 5 \<noteq> b, 6 := r ! 6 \<noteq> b]))"

fun rc_bits :: "nat \<Rightarrow> bool list \<Rightarrow> bool list" where
  \<comment> \<open>the first \<open>n\<close> output bits of the register\<close>
  "rc_bits 0 reg = []"
| "rc_bits (Suc n) reg = reg ! 0 # rc_bits n (lfsr_step reg)"

definition round_constant :: "bool list \<Rightarrow> nat \<Rightarrow> uint64" where
  "round_constant bs i = foldr (\<lambda>j w. if bs ! (j + 7 * i) then w OR push_bit (2 ^ j - 1) 1 else w) [0..<7] 0"

definition round_constants :: "uint64 list" where
  "round_constants = map (round_constant (rc_bits 168 (True # replicate 7 False))) [0..<24]"

definition iota :: "uint64 \<Rightarrow> uint64 list \<Rightarrow> uint64 list" where
  "iota c a = a[0 := a ! 0 XOR c]"

definition keccak_round :: "uint64 \<Rightarrow> uint64 list \<Rightarrow> uint64 list" where
  "keccak_round c a = iota c (chi (pi (rho (theta a))))"

definition keccak_f :: "uint64 list \<Rightarrow> uint64 list" where
  "keccak_f a = fold keccak_round round_constants a"

section \<open>Equivalence\<close>

lemma rol_rotl:
  assumes "0 < n" "n < 64"
  shows "rol n t = word_rotl n t"
proof (rule bit_word_eqI)
  fix i
  assume i: "i < LENGTH(64)"
  have l: "bit (rol n t) i \<longleftrightarrow> n \<le> i \<and> bit t (i - n) \<or> bit t (64 - n + i)"
    using i by (simp add: rol_def bit_or_iff bit_push_bit_iff bit_drop_bit_eq)
  have r: "bit (word_rotl n t) i \<longleftrightarrow> bit t ((i + (64 - n)) mod 64)"
    using i assms by (simp add: bit_word_rotl_iff)
  show "bit (rol n t) i = bit (word_rotl n t) i"
  proof (cases "i < n")
    case True
    then have "(i + (64 - n)) mod 64 = 64 - n + i" using i assms by (simp add: add.commute)
    with True show ?thesis unfolding l r by simp
  next
    case False
    then have "(i + (64 - n)) mod 64 = i - n" using i assms by (simp add: mod_if)
    moreover have "\<not> bit t (64 - n + i)" using bit_imp_le_length [of t "64 - n + i"] False i assms by auto
    ultimately show ?thesis using False unfolding l r by simp
  qed
qed

lemma rc_bits_168:
  "rc_bits 168 (True # replicate 7 False) =
    [True, False, False, False, False, False, False, False, True, False, True, True, False, False,
     False, True, True, True, True, False, True, False, False, False, False, True, True, True, True,
     True, True, True, True, False, False, True, False, False, False, False, True, False, True,
     False, False, True, True, True, True, True, False, True, False, True, False, True, False, True,
     True, True, False, False, False, False, False, True, True, False, False, False, True, False,
     True, False, True, True, False, False, True, True, False, False, True, False, True, True, True,
     True, True, True, False, True, True, True, True, False, False, True, True, False, True, True,
     True, False, True, True, True, False, False, True, False, True, False, True, False, False,
     True, False, True, False, False, False, True, False, False, True, False, True, True, False,
     True, False, False, False, True, True, False, False, True, True, True, False, False, True,
     True, True, True, False, False, False, True, True, False, True, True, False, False, False,
     False, True, False, False, False, True, False, True, True, True]"
  by code_simp

lemma round_constants_eq: "round_constants = rc"
  unfolding round_constants_def rc_bits_168 by code_simp

lemma offsets:
  "map (\<lambda>i. offset (i mod 5) (i div 5)) [0..<25] =
    [0, 1, 62, 28, 27, 36, 44, 6, 55, 20, 3, 10, 43, 25, 39, 41, 45, 15, 21, 8, 18, 2, 61, 56, 14]"
  by code_simp

definition chi_row :: "lanes5 \<Rightarrow> uint64 list" where
  "chi_row bc =
     (let (bc0, bc1, bc2, bc3, bc4) = bc
      in [bc0 XOR (bc2 AND NOT bc1), bc1 XOR (bc3 AND NOT bc2), bc2 XOR (bc4 AND NOT bc3),
          bc3 XOR (bc0 AND NOT bc4), bc4 XOR (bc1 AND NOT bc0)])"

definition round_rows :: "uint64 \<Rightarrow> lanes5 \<Rightarrow> uint64 list \<Rightarrow> uint64 list" where
  \<comment> \<open>one round with theta, rho, pi and chi combined, given the column differences\<close>
  "round_rows c d b =
     (let (d0, d1, d2, d3, d4) = d
      in iota c
          (chi_row (b ! 0 XOR d0, rol 44 (b ! 6 XOR d1), rol 43 (b ! 12 XOR d2), rol 21 (b ! 18 XOR d3), rol 14 (b ! 24 XOR d4)) @
           chi_row (rol 28 (b ! 3 XOR d3), rol 20 (b ! 9 XOR d4), rol 3 (b ! 10 XOR d0), rol 45 (b ! 16 XOR d1), rol 61 (b ! 22 XOR d2)) @
           chi_row (rol 1 (b ! 1 XOR d1), rol 6 (b ! 7 XOR d2), rol 25 (b ! 13 XOR d3), rol 8 (b ! 19 XOR d4), rol 18 (b ! 20 XOR d0)) @
           chi_row (rol 27 (b ! 4 XOR d4), rol 36 (b ! 5 XOR d0), rol 10 (b ! 11 XOR d1), rol 15 (b ! 17 XOR d2), rol 56 (b ! 23 XOR d3)) @
           chi_row (rol 62 (b ! 2 XOR d2), rol 55 (b ! 8 XOR d3), rol 39 (b ! 14 XOR d4), rol 41 (b ! 15 XOR d0), rol 2 (b ! 21 XOR d1))))"

lemma upt_25: "[0..<25] = [0, 1, 2, 3, 4, 5, 6, 7, 8, 9, 10, 11, 12, 13, 14, 15, 16, 17, 18, 19, 20, 21, 22, 23, 24]"
  by code_simp

lemma length_25:
  assumes "length b = 25"
  shows "b = map ((!) b) [0..<25]"
  using assms by (metis map_nth)

lemma build_nth: "i < 25 \<Longrightarrow> build f ! i = f (i mod 5) (i div 5)"
  by (simp add: build_def)

lemma lane_build: "lane (build f) x y = f (x mod 5) (y mod 5)"
proof -
  have "5 * (y mod 5) + x mod 5 < 25" using mod_less_divisor [of 5 x] mod_less_divisor [of 5 y] by linarith
  then show ?thesis by (simp add: lane_def build_nth)
qed

lemma offset_eq:
  assumes "x < 5" "y < 5"
  shows "offset x y =
    [0, 1, 62, 28, 27, 36, 44, 6, 55, 20, 3, 10, 43, 25, 39, 41, 45, 15, 21, 8, 18, 2, 61, 56, 14] ! (5 * y + x)"
proof -
  have "5 * y + x < 25" using assms by linarith
  then have "map (\<lambda>i. offset (i mod 5) (i div 5)) [0..<25] ! (5 * y + x) = offset x y"
    using assms by (simp del: upt_Suc)
  then show ?thesis unfolding offsets by simp
qed

lemma column_diffs_parity:
  "column_diffs a =
    (parity a 4 XOR word_rotl 1 (parity a 1), parity a 0 XOR word_rotl 1 (parity a 2),
     parity a 1 XOR word_rotl 1 (parity a 3), parity a 2 XOR word_rotl 1 (parity a 4),
     parity a 3 XOR word_rotl 1 (parity a 0))"
  by (simp add: column_diffs_def parity_def lane_def rol_rotl xor.assoc numeral_2_eq_2)

definition rotated :: "uint64 list \<Rightarrow> nat \<Rightarrow> nat \<Rightarrow> uint64" where
  \<comment> \<open>lane \<open>(x, y)\<close> after theta and rho\<close>
  "rotated b x y = lane (rho (theta b)) x y"

lemma rotated_eq:
  assumes "x < 5" "y < 5"
  shows "rotated b x y =
    word_rotl (offset x y) (lane b x y XOR (parity b (x + 4) XOR word_rotl 1 (parity b (x + 1))))"
  using assms by (simp add: rotated_def rho_def theta_def lane_build)

lemma parity_mod: "parity a (x mod 5) = parity a x"
  by (simp add: parity_def lane_def)

lemma rotl_0: "word_rotl 0 t = (t :: uint64)"
  by (rule bit_word_eqI) (simp add: bit_word_rotl_iff)

lemma rotated_values:
  assumes "column_diffs b = (d0, d1, d2, d3, d4)"
  shows
    "rotated b 0 0 = b ! 0 XOR d0"
    "rotated b 1 0 = rol 1 (b ! 1 XOR d1)"
    "rotated b 2 0 = rol 62 (b ! 2 XOR d2)"
    "rotated b 3 0 = rol 28 (b ! 3 XOR d3)"
    "rotated b 4 0 = rol 27 (b ! 4 XOR d4)"
    "rotated b 0 1 = rol 36 (b ! 5 XOR d0)"
    "rotated b 1 1 = rol 44 (b ! 6 XOR d1)"
    "rotated b 2 1 = rol 6 (b ! 7 XOR d2)"
    "rotated b 3 1 = rol 55 (b ! 8 XOR d3)"
    "rotated b 4 1 = rol 20 (b ! 9 XOR d4)"
    "rotated b 0 2 = rol 3 (b ! 10 XOR d0)"
    "rotated b 1 2 = rol 10 (b ! 11 XOR d1)"
    "rotated b 2 2 = rol 43 (b ! 12 XOR d2)"
    "rotated b 3 2 = rol 25 (b ! 13 XOR d3)"
    "rotated b 4 2 = rol 39 (b ! 14 XOR d4)"
    "rotated b 0 3 = rol 41 (b ! 15 XOR d0)"
    "rotated b 1 3 = rol 45 (b ! 16 XOR d1)"
    "rotated b 2 3 = rol 15 (b ! 17 XOR d2)"
    "rotated b 3 3 = rol 21 (b ! 18 XOR d3)"
    "rotated b 4 3 = rol 8 (b ! 19 XOR d4)"
    "rotated b 0 4 = rol 18 (b ! 20 XOR d0)"
    "rotated b 1 4 = rol 2 (b ! 21 XOR d1)"
    "rotated b 2 4 = rol 61 (b ! 22 XOR d2)"
    "rotated b 3 4 = rol 56 (b ! 23 XOR d3)"
    "rotated b 4 4 = rol 14 (b ! 24 XOR d4)"
  using assms parity_mod [of b 5] parity_mod [of b 6] parity_mod [of b 7] parity_mod [of b 8]
  by (simp_all add: rotated_eq offset_eq column_diffs_parity rol_rotl lane_def rotl_0 One_nat_def [symmetric] del: One_nat_def)

lemma keccak_round_rows: "keccak_round c b = round_rows c (column_diffs b) b"
proof -
  obtain d0 d1 d2 d3 d4 where d: "column_diffs b = (d0, d1, d2, d3, d4)" by (cases "column_diffs b") auto
  have p: "lane (pi (rho (theta b))) x y = rotated b ((x mod 5 + 3 * (y mod 5)) mod 5) (x mod 5)" for x y
    by (simp add: pi_def lane_build rotated_def) (simp add: lane_def)
  show ?thesis
    by (simp add: keccak_round_def chi_def build_def upt_25 p rotated_values [OF d] round_rows_def d chi_row_def and.commute One_nat_def [symmetric] del: One_nat_def)
qed
lemma write_plane_nth:
  assumes "j < length a" "distinct [i0, i1, i2, i3, i4]"
  shows "write_plane [i0, i1, i2, i3, i4] (bc0, bc1, bc2, bc3, bc4) a ! j =
    (if j = i0 then bc0 XOR (bc2 AND NOT bc1) else if j = i1 then bc1 XOR (bc3 AND NOT bc2)
     else if j = i2 then bc2 XOR (bc4 AND NOT bc3) else if j = i3 then bc3 XOR (bc0 AND NOT bc4)
     else if j = i4 then bc4 XOR (bc1 AND NOT bc0) else a ! j)"
  using assms by (auto simp: write_plane_def nth_list_update)

lemma length_write_plane [simp]: "length (write_plane is bc a) = length a"
  by (simp add: write_plane_def split: prod.split)

lemma length_planes [simp]:
  "length (plane0 c is d a) = length a" "length (plane1 is d a) = length a" "length (plane2 is d a) = length a"
  "length (plane3 is d a) = length a" "length (plane4 is d a) = length a"
  by (simp_all add: plane0_def plane1_def plane2_def plane3_def plane4_def Let_def split: prod.split)

lemma planes_nth:
  assumes "i0 < length a" "j < length a" "distinct [i0, i1, i2, i3, i4]"
  shows
    "plane0 c [i0, i1, i2, i3, i4] (d0, d1, d2, d3, d4) a ! j =
       (if j = i0 then ((a ! i0 XOR d0) XOR (rol 43 (a ! i2 XOR d2) AND NOT (rol 44 (a ! i1 XOR d1)))) XOR c
        else if j = i1 then rol 44 (a ! i1 XOR d1) XOR (rol 21 (a ! i3 XOR d3) AND NOT (rol 43 (a ! i2 XOR d2)))
        else if j = i2 then rol 43 (a ! i2 XOR d2) XOR (rol 14 (a ! i4 XOR d4) AND NOT (rol 21 (a ! i3 XOR d3)))
        else if j = i3 then rol 21 (a ! i3 XOR d3) XOR ((a ! i0 XOR d0) AND NOT (rol 14 (a ! i4 XOR d4)))
        else if j = i4 then rol 14 (a ! i4 XOR d4) XOR (rol 44 (a ! i1 XOR d1) AND NOT (a ! i0 XOR d0)) else a ! j)"
    "plane1 [i0, i1, i2, i3, i4] (d0, d1, d2, d3, d4) a ! j =
       (if j = i0 then rol 28 (a ! i3 XOR d3) XOR (rol 3 (a ! i0 XOR d0) AND NOT (rol 20 (a ! i4 XOR d4)))
        else if j = i1 then rol 20 (a ! i4 XOR d4) XOR (rol 45 (a ! i1 XOR d1) AND NOT (rol 3 (a ! i0 XOR d0)))
        else if j = i2 then rol 3 (a ! i0 XOR d0) XOR (rol 61 (a ! i2 XOR d2) AND NOT (rol 45 (a ! i1 XOR d1)))
        else if j = i3 then rol 45 (a ! i1 XOR d1) XOR (rol 28 (a ! i3 XOR d3) AND NOT (rol 61 (a ! i2 XOR d2)))
        else if j = i4 then rol 61 (a ! i2 XOR d2) XOR (rol 20 (a ! i4 XOR d4) AND NOT (rol 28 (a ! i3 XOR d3))) else a ! j)"
    "plane2 [i0, i1, i2, i3, i4] (d0, d1, d2, d3, d4) a ! j =
       (if j = i0 then rol 1 (a ! i1 XOR d1) XOR (rol 25 (a ! i3 XOR d3) AND NOT (rol 6 (a ! i2 XOR d2)))
        else if j = i1 then rol 6 (a ! i2 XOR d2) XOR (rol 8 (a ! i4 XOR d4) AND NOT (rol 25 (a ! i3 XOR d3)))
        else if j = i2 then rol 25 (a ! i3 XOR d3) XOR (rol 18 (a ! i0 XOR d0) AND NOT (rol 8 (a ! i4 XOR d4)))
        else if j = i3 then rol 8 (a ! i4 XOR d4) XOR (rol 1 (a ! i1 XOR d1) AND NOT (rol 18 (a ! i0 XOR d0)))
        else if j = i4 then rol 18 (a ! i0 XOR d0) XOR (rol 6 (a ! i2 XOR d2) AND NOT (rol 1 (a ! i1 XOR d1))) else a ! j)"
    "plane3 [i0, i1, i2, i3, i4] (d0, d1, d2, d3, d4) a ! j =
       (if j = i0 then rol 27 (a ! i4 XOR d4) XOR (rol 10 (a ! i1 XOR d1) AND NOT (rol 36 (a ! i0 XOR d0)))
        else if j = i1 then rol 36 (a ! i0 XOR d0) XOR (rol 15 (a ! i2 XOR d2) AND NOT (rol 10 (a ! i1 XOR d1)))
        else if j = i2 then rol 10 (a ! i1 XOR d1) XOR (rol 56 (a ! i3 XOR d3) AND NOT (rol 15 (a ! i2 XOR d2)))
        else if j = i3 then rol 15 (a ! i2 XOR d2) XOR (rol 27 (a ! i4 XOR d4) AND NOT (rol 56 (a ! i3 XOR d3)))
        else if j = i4 then rol 56 (a ! i3 XOR d3) XOR (rol 36 (a ! i0 XOR d0) AND NOT (rol 27 (a ! i4 XOR d4))) else a ! j)"
    "plane4 [i0, i1, i2, i3, i4] (d0, d1, d2, d3, d4) a ! j =
       (if j = i0 then rol 62 (a ! i2 XOR d2) XOR (rol 39 (a ! i4 XOR d4) AND NOT (rol 55 (a ! i3 XOR d3)))
        else if j = i1 then rol 55 (a ! i3 XOR d3) XOR (rol 41 (a ! i0 XOR d0) AND NOT (rol 39 (a ! i4 XOR d4)))
        else if j = i2 then rol 39 (a ! i4 XOR d4) XOR (rol 2 (a ! i1 XOR d1) AND NOT (rol 41 (a ! i0 XOR d0)))
        else if j = i3 then rol 41 (a ! i0 XOR d0) XOR (rol 62 (a ! i2 XOR d2) AND NOT (rol 2 (a ! i1 XOR d1)))
        else if j = i4 then rol 2 (a ! i1 XOR d1) XOR (rol 55 (a ! i3 XOR d3) AND NOT (rol 62 (a ! i2 XOR d2))) else a ! j)"
  using assms by (auto simp: plane0_def plane1_def plane2_def plane3_def plane4_def write_plane_nth Let_def)

text \<open>Where the unrolled rounds keep the lanes: lane \<open>i\<close> of the standard's state is at \<open>pos ! i\<close>.\<close>

definition load :: "nat list \<Rightarrow> uint64 list \<Rightarrow> uint64 list" where
  "load pos a = map ((!) a) pos"

abbreviation pos1 :: "nat list" where
  "pos1 \<equiv> [0, 6, 12, 18, 24, 10, 16, 22, 3, 9, 20, 1, 7, 13, 19, 5, 11, 17, 23, 4, 15, 21, 2, 8, 14]"

abbreviation pos2 :: "nat list" where
  "pos2 \<equiv> [0, 16, 7, 23, 14, 20, 11, 2, 18, 9, 15, 6, 22, 13, 4, 10, 1, 17, 8, 24, 5, 21, 12, 3, 19]"

abbreviation pos3 :: "nat list" where
  "pos3 \<equiv> [0, 11, 22, 8, 19, 15, 1, 12, 23, 9, 5, 16, 2, 13, 24, 20, 6, 17, 3, 14, 10, 21, 7, 18, 4]"

lemma length_rounds [simp]:
  "length (round1 c a) = length a" "length (round2 c a) = length a" "length (round3 c a) = length a"
  "length (round4 c a) = length a"
  by (simp_all add: round1_def round2_def round3_def round4_def Let_def)

lemma parity_load1:
  "parity (load pos1 a) 0 = parity a 0" "parity (load pos1 a) 1 = parity a 1" "parity (load pos1 a) 2 = parity a 2"
  "parity (load pos1 a) 3 = parity a 3" "parity (load pos1 a) 4 = parity a 4"
  by (simp_all add: parity_def lane_def load_def xor.assoc xor.commute xor.left_commute numeral_2_eq_2)

lemma parity_load2:
  "parity (load pos2 a) 0 = parity a 0" "parity (load pos2 a) 1 = parity a 1" "parity (load pos2 a) 2 = parity a 2"
  "parity (load pos2 a) 3 = parity a 3" "parity (load pos2 a) 4 = parity a 4"
  by (simp_all add: parity_def lane_def load_def xor.assoc xor.commute xor.left_commute numeral_2_eq_2)

lemma parity_load3:
  "parity (load pos3 a) 0 = parity a 0" "parity (load pos3 a) 1 = parity a 1" "parity (load pos3 a) 2 = parity a 2"
  "parity (load pos3 a) 3 = parity a 3" "parity (load pos3 a) 4 = parity a 4"
  by (simp_all add: parity_def lane_def load_def xor.assoc xor.commute xor.left_commute numeral_2_eq_2)

lemma column_diffs_load:
  "column_diffs (load pos1 a) = column_diffs a" "column_diffs (load pos2 a) = column_diffs a"
  "column_diffs (load pos3 a) = column_diffs a"
  by (simp_all only: column_diffs_parity parity_load1 parity_load2 parity_load3)

lemma round1_rows:
  assumes "length a = 25"
  shows "load pos1 (round1 c a) = round_rows c (column_diffs a) a"
proof -
  obtain d0 d1 d2 d3 d4 where d: "column_diffs a = (d0, d1, d2, d3, d4)" by (cases "column_diffs a") auto
  show ?thesis
    using assms
    by (simp add: round1_def Let_def d load_def planes_nth round_rows_def iota_def chi_row_def One_nat_def [symmetric] del: One_nat_def)
qed

lemma round2_rows:
  assumes "length a = 25"
  shows "load pos2 (round2 c a) = round_rows c (column_diffs a) (load pos1 a)"
proof -
  obtain d0 d1 d2 d3 d4 where d: "column_diffs a = (d0, d1, d2, d3, d4)" by (cases "column_diffs a") auto
  show ?thesis
    using assms
    by (simp add: round2_def Let_def d load_def planes_nth round_rows_def iota_def chi_row_def One_nat_def [symmetric] del: One_nat_def)
qed

lemma round3_rows:
  assumes "length a = 25"
  shows "load pos3 (round3 c a) = round_rows c (column_diffs a) (load pos2 a)"
proof -
  obtain d0 d1 d2 d3 d4 where d: "column_diffs a = (d0, d1, d2, d3, d4)" by (cases "column_diffs a") auto
  show ?thesis
    using assms
    by (simp add: round3_def Let_def d load_def planes_nth round_rows_def iota_def chi_row_def One_nat_def [symmetric] del: One_nat_def)
qed

lemma round4_rows:
  assumes "length a = 25"
  shows "round4 c a = round_rows c (column_diffs a) (load pos3 a)"
proof -
  obtain d0 d1 d2 d3 d4 where d: "column_diffs a = (d0, d1, d2, d3, d4)" by (cases "column_diffs a") auto
  have l: "length (round4 c a) = 25" using assms by simp
  show ?thesis
    by (rule trans [OF length_25 [OF l]])
      (use assms in \<open>simp add: upt_25 round4_def Let_def d load_def planes_nth round_rows_def iota_def chi_row_def
         One_nat_def [symmetric] del: One_nat_def\<close>)
qed

lemma rounds_standard:
  assumes "length a = 25"
  shows "load pos1 (round1 c a) = keccak_round c a" "load pos2 (round2 c a) = keccak_round c (load pos1 a)"
    "load pos3 (round3 c a) = keccak_round c (load pos2 a)" "round4 c a = keccak_round c (load pos3 a)"
  by (simp_all only: keccak_round_rows column_diffs_load round1_rows [OF assms] round2_rows [OF assms]
    round3_rows [OF assms] round4_rows [OF assms])

lemma four_rounds:
  assumes "length a = 25"
  shows "round4 c3 (round3 c2 (round2 c1 (round1 c0 a))) =
    keccak_round c3 (keccak_round c2 (keccak_round c1 (keccak_round c0 a)))"
  by (simp only: rounds_standard length_rounds assms)

lemma length_keccak_round [simp]: "length (keccak_round c a) = 25"
  by (simp add: keccak_round_def iota_def chi_def build_def)

lemma keccak_loop_step:
  assumes "length a = 25" "i < 24" "i mod 4 = 0"
  shows "round4 (rc ! (i + 3)) (round3 (rc ! (i + 2)) (round2 (rc ! (i + 1)) (round1 (rc ! i) a))) =
    fold keccak_round (take 4 (drop i rc)) a"
proof -
  have "i + 3 < length rc" using assms(2, 3) by (simp add: rc_def) presburger
  then have "take 4 (drop i rc) = [rc ! i, rc ! (i + 1), rc ! (i + 2), rc ! (i + 3)]"
    by (simp add: eval_nat_numeral Cons_nth_drop_Suc [symmetric] take_Suc_conv_app_nth)
  then show ?thesis using assms(1) by (simp add: four_rounds)
qed

lemma length_fold_round: "length a = 25 \<Longrightarrow> length (fold keccak_round cs a) = 25"
  by (induction cs arbitrary: a) simp_all

lemma keccak_loop_fold:
  assumes "length a = 25" "i \<le> 24" "i mod 4 = 0"
  shows "keccak_loop i a = fold keccak_round (drop i rc) a"
  using assms
proof (induction i a rule: keccak_loop.induct)
  case (1 i a)
  show ?case
  proof (cases "i < 24")
    case True
    then have i: "i + 4 \<le> 24" "(i + 4) mod 4 = 0" using 1 by presburger+
    have "drop i rc = take 4 (drop i rc) @ drop (i + 4) rc"
      by (metis add.commute append_take_drop_id drop_drop)
    then have "fold keccak_round (drop i rc) a = fold keccak_round (drop (i + 4) rc) (fold keccak_round (take 4 (drop i rc)) a)"
      by (metis comp_apply fold_append)
    moreover note step = keccak_loop_step [OF 1(2) True 1(4)]
    ultimately show ?thesis
      using 1(1) [OF True] 1(2) True i unfolding keccak_loop.simps [of i a] step by (simp add: length_fold_round)
  next
    case False
    then show ?thesis using 1(3) by (simp add: keccak_loop.simps [of 24] rc_def)
  qed
qed

lemma length_keccak_f: "length a = 25 \<Longrightarrow> length (keccak_f a) = 25"
  by (simp add: keccak_f_def length_fold_round)

lemma keccakF1600_eq: "length a = 25 \<Longrightarrow> keccakF1600 a = keccak_f a"
  by (simp add: keccakF1600_def keccak_f_def keccak_loop_fold [of a 0, simplified] round_constants_eq)

text \<open>
  C28. The unrolled in-place permutation \<open>keccakF1600\<close> computes, on every state of 25 lanes, the permutation
  Keccak-f[1600] of FIPS 202: 24 rounds of theta, rho, pi, chi and iota, with the rotation offsets
  and the round constants the standard derives from the lane walk and the shift register.
\<close>

theorem keccakF1600_standard:
  assumes "length a = 25"
  shows "keccakF1600 a = keccak_f a \<and> length (keccakF1600 a) = 25"
  using assms by (simp add: keccakF1600_eq length_keccak_f)

theorem keccakF1600_standard_witness:
  "keccakF1600 (replicate 25 0) = keccak_f (replicate 25 0) \<and> length (keccakF1600 (replicate 25 0)) = 25"
  by (rule keccakF1600_standard) simp

end
