(* ===== verification/Keccak_Sponge.thy ===== *)
theory Keccak_Sponge
  imports Keccak_F
begin

text \<open>
  The sponge of \<open>crypto/sha3\<close> (\<open>sha3.go\<close>, \<open>hashes.go\<close>, \<open>shake.go\<close>, \<open>xor_generic.go\<close>,
  \<open>xor_unaligned.go\<close>) and \<open>Keccak256\<close> of \<open>crypto/crypto.go\<close>: buffered absorbing and squeezing,
  and their equivalence with the sponge construction of FIPS 202.

  The two ways to move bytes between a buffer and the lanes, \<open>xorIn\<close> and \<open>copyOut\<close>, are chosen by
  the build; the operations take them as arguments \<open>xi\<close> and \<open>co\<close>.
\<close>

unbundle bit_operations_syntax

section \<open>Bytes and lanes\<close>

text \<open>\<open>binary.LittleEndian.Uint64\<close> and \<open>PutUint64\<close>.\<close>

definition le64 :: "bytes \<Rightarrow> uint64" where
  "le64 b = foldr (\<lambda>x w. ucast x OR push_bit 8 w) (take 8 b) 0"

definition put64 :: "uint64 \<Rightarrow> bytes" where
  "put64 w = map (\<lambda>i. ucast (drop_bit (8 * i) w)) [0..<8]"

section \<open>The implementation\<close>

datatype spongeDirection = SpongeAbsorbing | SpongeSqueezing

text \<open>
  \<open>BufferGrown\<close> is not a panic: it marks an \<open>append\<close> beyond the capacity of the storage array, after
  which Go's buffer would no longer be a part of it.
\<close>

datatype sha3_panic = WriteAfterRead | OutOfBounds | BufferGrown

definition maxRate :: nat where
  "maxRate = 168"

text \<open>
  The buffer is a slice of the storage array, given by its offset and its length; \<open>None\<close> is the nil
  slice. Its capacity reaches to the end of the array.
\<close>

record sponge =
  d_a :: "uint64 list"
  d_buf :: "(nat \<times> nat) option"
  d_rate :: nat
  d_dsbyte :: byte
  d_storage :: bytes
  d_fixedOutput :: bool
  d_outputLen :: nat
  d_state :: spongeDirection

type_synonym xor_in = "uint64 list \<Rightarrow> bytes \<Rightarrow> sha3_panic + uint64 list"
type_synonym copy_out = "uint64 list \<Rightarrow> bytes \<Rightarrow> sha3_panic + bytes"

definition buf_len :: "sponge \<Rightarrow> nat" where
  "buf_len d = (case d_buf d of None \<Rightarrow> 0 | Some (off, n) \<Rightarrow> n)"

definition buf_cap :: "sponge \<Rightarrow> nat" where
  "buf_cap d = (case d_buf d of None \<Rightarrow> 0 | Some (off, n) \<Rightarrow> maxRate - off)"

definition buf_bytes :: "sponge \<Rightarrow> bytes" where
  "buf_bytes d = (case d_buf d of None \<Rightarrow> [] | Some (off, n) \<Rightarrow> take n (drop off (d_storage d)))"

definition overwrite :: "nat \<Rightarrow> bytes \<Rightarrow> bytes \<Rightarrow> bytes" where
  "overwrite off xs b = take off b @ xs @ drop (off + length xs) b"

definition slice_storage :: "int \<Rightarrow> int \<Rightarrow> sponge \<Rightarrow> sha3_panic + sponge" where
  \<comment> \<open>\<open>d.buf = d.storage[lo:hi]\<close>\<close>
  "slice_storage lo hi d =
     (if 0 \<le> lo \<and> lo \<le> hi \<and> hi \<le> int maxRate then Inr (d\<lparr>d_buf := Some (nat lo, nat (hi - lo))\<rparr>)
      else Inl OutOfBounds)"

definition append_buf :: "bytes \<Rightarrow> sponge \<Rightarrow> sha3_panic + sponge" where
  \<comment> \<open>\<open>d.buf = append(d.buf, xs...)\<close>\<close>
  "append_buf xs d =
     (case d_buf d of
        None \<Rightarrow> Inl BufferGrown
      | Some (off, n) \<Rightarrow>
          if off + n + length xs \<le> maxRate
          then Inr (d\<lparr>d_storage := overwrite (off + n) xs (d_storage d), d_buf := Some (off, n + length xs)\<rparr>)
          else Inl BufferGrown)"

definition BlockSize :: "sponge \<Rightarrow> nat" where
  "BlockSize d = d_rate d"

definition Size :: "sponge \<Rightarrow> nat" where
  "Size d = d_outputLen d"

definition Reset :: "sponge \<Rightarrow> sponge" where
  "Reset d = d\<lparr>d_a := replicate 25 0, d_state := SpongeAbsorbing, d_buf := Some (0, 0)\<rparr>"

definition clone :: "sponge \<Rightarrow> sha3_panic + sponge" where
  "clone d =
     (if d_state d = SpongeAbsorbing then slice_storage 0 (int (buf_len d)) d
      else slice_storage (int (d_rate d) - int (buf_cap d)) (int (d_rate d)) d)"

definition fill_buf :: "copy_out \<Rightarrow> sponge \<Rightarrow> sha3_panic + sponge" where
  \<comment> \<open>\<open>d.buf = d.storage[:d.rate]; copyOut(d, d.buf)\<close>\<close>
  "fill_buf co d =
     (case slice_storage 0 (int (d_rate d)) d of
        Inl e \<Rightarrow> Inl e
      | Inr d \<Rightarrow>
          (case co (d_a d) (buf_bytes d) of
             Inl e \<Rightarrow> Inl e
           | Inr b \<Rightarrow> Inr (d\<lparr>d_storage := overwrite 0 b (d_storage d)\<rparr>)))"

definition permute :: "xor_in \<Rightarrow> copy_out \<Rightarrow> sponge \<Rightarrow> sha3_panic + sponge" where
  "permute xi co d =
     (case d_state d of
        SpongeAbsorbing \<Rightarrow>
          (case xi (d_a d) (buf_bytes d) of
             Inl e \<Rightarrow> Inl e
           | Inr a \<Rightarrow> Inr (d\<lparr>d_buf := Some (0, 0), d_a := keccakF1600 a\<rparr>))
      | SpongeSqueezing \<Rightarrow> fill_buf co (d\<lparr>d_a := keccakF1600 (d_a d)\<rparr>))"

definition ensure_buf :: "sponge \<Rightarrow> sponge" where
  "ensure_buf d = (if d_buf d = None then d\<lparr>d_buf := Some (0, 0)\<rparr> else d)"

definition pad_storage :: "nat \<Rightarrow> sponge \<Rightarrow> sponge" where
  \<comment> \<open>the loop that zeroes \<open>d.buf\<close> from \<open>zerosStart\<close>, and the final bit\<close>
  "pad_storage zerosStart d =
     (let b = overwrite zerosStart (replicate (d_rate d - zerosStart) 0) (d_storage d)
      in d\<lparr>d_storage := b[d_rate d - 1 := b ! (d_rate d - 1) XOR 0x80]\<rparr>)"

definition padAndPermute :: "xor_in \<Rightarrow> copy_out \<Rightarrow> byte \<Rightarrow> sponge \<Rightarrow> sha3_panic + sponge" where
  "padAndPermute xi co dsbyte d =
     (case append_buf [dsbyte] (ensure_buf d) of
        Inl e \<Rightarrow> Inl e
      | Inr d \<Rightarrow>
          let zerosStart = buf_len d
          in (case slice_storage 0 (int (d_rate d)) d of
                Inl e \<Rightarrow> Inl e
              | Inr d \<Rightarrow>
                  if d_rate d = 0 then Inl OutOfBounds
                  else (case permute xi co (pad_storage zerosStart d) of
                          Inl e \<Rightarrow> Inl e
                        | Inr d \<Rightarrow> fill_buf co (d\<lparr>d_state := SpongeSqueezing\<rparr>))))"

text \<open>The loops do not return on a rate of zero: that is the result \<open>None\<close>.\<close>

definition absorb_step :: "xor_in \<Rightarrow> copy_out \<Rightarrow> bytes \<Rightarrow> sponge \<Rightarrow> sha3_panic + bytes \<times> sponge" where
  "absorb_step xi co p d =
     (if buf_len d = 0 \<and> d_rate d \<le> length p then
        (case xi (d_a d) (take (d_rate d) p) of
           Inl e \<Rightarrow> Inl e
         | Inr a \<Rightarrow> Inr (drop (d_rate d) p, d\<lparr>d_a := keccakF1600 a\<rparr>))
      else if d_rate d < buf_len d then Inl OutOfBounds
      else
        let todo = min (d_rate d - buf_len d) (length p)
        in (case append_buf (take todo p) d of
              Inl e \<Rightarrow> Inl e
            | Inr d \<Rightarrow>
                if buf_len d = d_rate d then map_ok (Pair (drop todo p)) (permute xi co d)
                else Inr (drop todo p, d)))"

partial_function (option) write_loop :: "xor_in \<Rightarrow> copy_out \<Rightarrow> bytes \<Rightarrow> sponge \<Rightarrow> (sha3_panic + sponge) option" where
  "write_loop xi co p d =
     (if p = [] then Some (Inr d)
      else (case absorb_step xi co p d of
              Inl e \<Rightarrow> Some (Inl e)
            | Inr (p, d) \<Rightarrow> write_loop xi co p d))"

definition Write :: "xor_in \<Rightarrow> copy_out \<Rightarrow> bytes \<Rightarrow> sponge \<Rightarrow> (sha3_panic + nat \<times> sponge) option" where
  "Write xi co p d =
     (if d_state d \<noteq> SpongeAbsorbing then Some (Inl WriteAfterRead)
      else map_option (map_ok (Pair (length p))) (write_loop xi co p (ensure_buf d)))"

definition advance :: "nat \<Rightarrow> sponge \<Rightarrow> sponge" where
  \<comment> \<open>\<open>d.buf = d.buf[n:]\<close>\<close>
  "advance n d = d\<lparr>d_buf := map_option (\<lambda>(off, m). (off + n, m - n)) (d_buf d)\<rparr>"

definition squeeze_step :: "xor_in \<Rightarrow> copy_out \<Rightarrow> nat \<Rightarrow> sponge \<Rightarrow> sha3_panic + bytes \<times> sponge" where
  "squeeze_step xi co want d =
     (let n = min want (buf_len d);
          out = take n (buf_bytes d);
          d = advance n d
      in map_ok (Pair out) (if buf_len d = 0 then permute xi co d else Inr d))"

partial_function (option) read_loop ::
  "xor_in \<Rightarrow> copy_out \<Rightarrow> nat \<Rightarrow> bytes \<Rightarrow> sponge \<Rightarrow> (sha3_panic + bytes \<times> sponge) option" where
  "read_loop xi co want out d =
     (if want = 0 then Some (Inr (out, d))
      else (case squeeze_step xi co want d of
              Inl e \<Rightarrow> Some (Inl e)
            | Inr (b, d) \<Rightarrow> read_loop xi co (want - length b) (out @ b) d))"

definition Read :: "xor_in \<Rightarrow> copy_out \<Rightarrow> nat \<Rightarrow> sponge \<Rightarrow> (sha3_panic + bytes \<times> sponge) option" where
  "Read xi co want d =
     (case (if d_state d = SpongeAbsorbing then padAndPermute xi co (d_dsbyte d) d else Inr d) of
        Inl e \<Rightarrow> Some (Inl e)
      | Inr d \<Rightarrow> read_loop xi co want [] d)"

definition state_Sum :: "xor_in \<Rightarrow> copy_out \<Rightarrow> bytes \<Rightarrow> sponge \<Rightarrow> (sha3_panic + bytes) option" where
  "state_Sum xi co pre d =
     (case clone d of
        Inl e \<Rightarrow> Some (Inl e)
      | Inr dup \<Rightarrow> map_option (map_ok (\<lambda>(h, dup). pre @ h)) (Read xi co (d_outputLen dup) dup))"

subsection \<open>Moving bytes into and out of the lanes\<close>

fun xor_lanes :: "nat \<Rightarrow> nat \<Rightarrow> uint64 list \<Rightarrow> bytes \<Rightarrow> sha3_panic + uint64 list" where
  "xor_lanes i 0 a buf = Inr a"
| "xor_lanes i (Suc n) a buf =
     (if i < 25 then xor_lanes (i + 1) n (a[i := a ! i XOR le64 buf]) (drop 8 buf) else Inl OutOfBounds)"

definition xorInGeneric :: xor_in where
  "xorInGeneric a buf = xor_lanes 0 (length buf div 8) a buf"

fun copy_lanes :: "nat \<Rightarrow> uint64 list \<Rightarrow> bytes \<Rightarrow> sha3_panic + bytes" where
  "copy_lanes i a b =
     (if 8 \<le> length b
      then (if i < 25 then map_ok (\<lambda>r. put64 (a ! i) @ r) (copy_lanes (i + 1) a (drop 8 b)) else Inl OutOfBounds)
      else Inr b)"

declare copy_lanes.simps [simp del]

definition copyOutGeneric :: copy_out where
  "copyOutGeneric a b = copy_lanes 0 a b"

definition xor_words :: "bytes \<Rightarrow> nat list \<Rightarrow> uint64 list \<Rightarrow> uint64 list" where
  \<comment> \<open>\<open>d.a[i] ^= bw[i]\<close> for the \<open>i\<close> of one group, \<open>bw\<close> the buffer as little-endian words\<close>
  "xor_words buf is a = fold (\<lambda>i a. a[i := a ! i XOR le64 (drop (8 * i) buf)]) is a"

definition xorInUnaligned :: xor_in where
  "xorInUnaligned a buf =
     (if buf = [] then Inl OutOfBounds
      else
        let n = length buf;
            a = (if 72 \<le> n then xor_words buf [0, 1, 2, 3, 4, 5, 6, 7, 8] a else a);
            a = (if 104 \<le> n then xor_words buf [9, 10, 11, 12] a else a);
            a = (if 136 \<le> n then xor_words buf [13, 14, 15, 16] a else a);
            a = (if 144 \<le> n then xor_words buf [17] a else a)
        in Inr (if 168 \<le> n then xor_words buf [18, 19, 20] a else a))"

definition copyOutUnaligned :: copy_out where
  "copyOutUnaligned a b =
     (let ab = take maxRate (concat (map put64 a)); n = min (length b) (length ab)
      in Inr (take n ab @ drop n b))"

subsection \<open>The hash functions\<close>

definition new_state :: "nat \<Rightarrow> nat \<Rightarrow> byte \<Rightarrow> sponge" where
  \<comment> \<open>\<open>&state{rate: r, outputLen: n, dsbyte: ds}\<close>, the other fields zero\<close>
  "new_state r n ds =
     \<lparr>d_a = replicate 25 0, d_buf = None, d_rate = r, d_dsbyte = ds, d_storage = replicate maxRate 0,
      d_fixedOutput = False, d_outputLen = n, d_state = SpongeAbsorbing\<rparr>"

definition NewKeccak256 :: sponge where
  "NewKeccak256 = new_state 136 32 0x01"

definition New224 :: sponge where
  "New224 = new_state 144 28 0x06"

definition New256 :: sponge where
  "New256 = new_state 136 32 0x06"

definition New384 :: sponge where
  "New384 = new_state 104 48 0x06"

definition New512 :: sponge where
  "New512 = new_state 72 64 0x06"

definition NewShake128 :: sponge where
  "NewShake128 = new_state 168 0 0x1f"

definition NewShake256 :: sponge where
  "NewShake256 = new_state 136 0 0x1f"

fun write_all :: "xor_in \<Rightarrow> copy_out \<Rightarrow> bytes list \<Rightarrow> sponge \<Rightarrow> (sha3_panic + sponge) option" where
  \<comment> \<open>\<open>for _, b := range data { d.Write(b) }\<close>\<close>
  "write_all xi co [] d = Some (Inr d)"
| "write_all xi co (b # bs) d =
     (case Write xi co b d of
        None \<Rightarrow> None
      | Some (Inl e) \<Rightarrow> Some (Inl e)
      | Some (Inr (n, d)) \<Rightarrow> write_all xi co bs d)"

definition hash_all :: "xor_in \<Rightarrow> copy_out \<Rightarrow> sponge \<Rightarrow> bytes list \<Rightarrow> (sha3_panic + bytes) option" where
  "hash_all xi co d data =
     (case write_all xi co data d of
        None \<Rightarrow> None
      | Some (Inl e) \<Rightarrow> Some (Inl e)
      | Some (Inr d) \<Rightarrow> state_Sum xi co [] d)"

definition Sum224 :: "xor_in \<Rightarrow> copy_out \<Rightarrow> bytes \<Rightarrow> (sha3_panic + bytes) option" where
  "Sum224 xi co data = hash_all xi co New224 [data]"

definition Sum256 :: "xor_in \<Rightarrow> copy_out \<Rightarrow> bytes \<Rightarrow> (sha3_panic + bytes) option" where
  "Sum256 xi co data = hash_all xi co New256 [data]"

definition Sum384 :: "xor_in \<Rightarrow> copy_out \<Rightarrow> bytes \<Rightarrow> (sha3_panic + bytes) option" where
  "Sum384 xi co data = hash_all xi co New384 [data]"

definition Sum512 :: "xor_in \<Rightarrow> copy_out \<Rightarrow> bytes \<Rightarrow> (sha3_panic + bytes) option" where
  "Sum512 xi co data = hash_all xi co New512 [data]"

definition shake_sum :: "xor_in \<Rightarrow> copy_out \<Rightarrow> sponge \<Rightarrow> nat \<Rightarrow> bytes \<Rightarrow> (sha3_panic + bytes) option" where
  "shake_sum xi co h n data =
     (case Write xi co data h of
        None \<Rightarrow> None
      | Some (Inl e) \<Rightarrow> Some (Inl e)
      | Some (Inr (_, h)) \<Rightarrow> map_option (map_ok fst) (Read xi co n h))"

definition ShakeSum128 :: "xor_in \<Rightarrow> copy_out \<Rightarrow> nat \<Rightarrow> bytes \<Rightarrow> (sha3_panic + bytes) option" where
  "ShakeSum128 xi co n data = shake_sum xi co NewShake128 n data"

definition ShakeSum256 :: "xor_in \<Rightarrow> copy_out \<Rightarrow> nat \<Rightarrow> bytes \<Rightarrow> (sha3_panic + bytes) option" where
  "ShakeSum256 xi co n data = shake_sum xi co NewShake256 n data"

definition Keccak256_of :: "xor_in \<Rightarrow> copy_out \<Rightarrow> bytes list \<Rightarrow> (sha3_panic + bytes) option" where
  "Keccak256_of xi co data = hash_all xi co NewKeccak256 data"

section \<open>The sponge construction of FIPS 202\<close>

definition state_bytes :: "uint64 list \<Rightarrow> bytes" where
  "state_bytes a = concat (map put64 a)"

definition xor_block :: "uint64 list \<Rightarrow> bytes \<Rightarrow> uint64 list" where
  \<comment> \<open>the state xored with a block, extended with zeros to the width of the state\<close>
  "xor_block a blk = map (\<lambda>i. a ! i XOR le64 (drop (8 * i) (blk @ replicate (200 - length blk) 0))) [0..<25]"

function absorb :: "nat \<Rightarrow> uint64 list \<Rightarrow> bytes \<Rightarrow> uint64 list" where
  "absorb r a m = (if r = 0 \<or> length m < r then a else absorb r (keccak_f (xor_block a (take r m))) (drop r m))"
  by pat_completeness auto
termination
  by (relation "measure (\<lambda>(r, a, m). length m)") auto

declare absorb.simps [simp del]

definition pad_tail :: "nat \<Rightarrow> byte \<Rightarrow> bytes" where
  \<comment> \<open>\<open>q\<close> bytes: the domain bits with the first one of the padding, zeros, and the final one\<close>
  "pad_tail q ds = (let p = ds # replicate (q - 1) 0 in p[q - 1 := p ! (q - 1) XOR 0x80])"

definition pad :: "nat \<Rightarrow> byte \<Rightarrow> bytes \<Rightarrow> bytes" where
  "pad r ds m = m @ pad_tail (r - length m mod r) ds"

definition squeeze :: "nat \<Rightarrow> uint64 list \<Rightarrow> nat \<Rightarrow> nat \<Rightarrow> bytes" where
  \<comment> \<open>\<open>n\<close> bytes of the output stream of state \<open>S\<close>, from position \<open>k\<close>\<close>
  "squeeze r S k n = map (\<lambda>i. state_bytes ((keccak_f ^^ (i div r)) S) ! (i mod r)) [k..<k + n]"

definition sponge_function :: "nat \<Rightarrow> byte \<Rightarrow> bytes \<Rightarrow> nat \<Rightarrow> bytes" where
  "sponge_function r ds m n = squeeze r (absorb r (replicate 25 0) (pad r ds m)) 0 n"

definition rates :: "nat set" where
  \<comment> \<open>the rates of the six instances\<close>
  "rates = {72, 104, 136, 144, 168}"

lemma rates_bounds: "r \<in> rates \<Longrightarrow> 0 < r \<and> r \<le> maxRate \<and> r mod 8 = 0"
  by (auto simp: rates_def maxRate_def)

lemma length_pad_tail: "0 < q \<Longrightarrow> length (pad_tail q ds) = q"
  by (simp add: pad_tail_def Let_def del: list_update.simps)

lemma length_put64 [simp]: "length (put64 w) = 8"
  by (simp add: put64_def)

lemma length_state_bytes [simp]: "length (state_bytes a) = 8 * length a"
  by (induction a) (simp_all add: state_bytes_def)

lemma length_xor_block [simp]: "length (xor_block a blk) = 25"
  by (simp add: xor_block_def)

lemma length_absorb: "length a = 25 \<Longrightarrow> length (absorb r a m) = 25"
  by (induction r a m rule: absorb.induct) (subst absorb.simps, simp add: length_keccak_f)

lemma length_keccak_pow: "length a = 25 \<Longrightarrow> length ((keccak_f ^^ n) a) = 25"
  by (induction n) (simp_all add: length_keccak_f)

lemma length_squeeze [simp]: "length (squeeze r S k n) = n"
  by (simp add: squeeze_def)

subsection \<open>The lanes of a buffer\<close>

lemma le64_zero: "le64 (replicate n 0) = 0"
proof -
  have "foldr (\<lambda>x w. ucast x OR push_bit 8 w) (replicate k (0 :: byte)) (0 :: uint64) = 0" for k
    by (induction k) simp_all
  then show ?thesis by (simp add: le64_def take_replicate)
qed

lemma le64_append: "8 \<le> length b \<Longrightarrow> le64 (b @ c) = le64 b"
  by (simp add: le64_def)

lemma xor_words_nth:
  assumes "distinct is" "\<forall>i \<in> set is. i < length a" "j < length a"
  shows "xor_words buf is a ! j = (if j \<in> set is then a ! j XOR le64 (drop (8 * j) buf) else a ! j)"
  using assms by (induction "is" arbitrary: a) (auto simp: xor_words_def nth_list_update)

lemma length_xor_words [simp]: "length (xor_words buf is a) = length a"
  by (induction "is" arbitrary: a) (simp_all add: xor_words_def)

lemma xor_block_nth:
  assumes "j < 25" "length blk mod 8 = 0" "length blk \<le> 200" "length a = 25"
  shows "xor_block a blk ! j = (if j < length blk div 8 then a ! j XOR le64 (drop (8 * j) blk) else a ! j)"
proof -
  have nth: "xor_block a blk ! j = a ! j XOR le64 (drop (8 * j) (blk @ replicate (200 - length blk) 0))"
    unfolding xor_block_def using assms(1) by (subst nth_map_upt) simp_all
  show ?thesis
  proof (cases "j < length blk div 8")
    case True
    then have "Suc j * 8 \<le> length blk" by (simp only: less_eq_div_iff_mult_less_eq [symmetric] Suc_le_eq zero_less_numeral)
    then have "8 \<le> length (drop (8 * j) blk)" "drop (8 * j - length blk) (replicate (200 - length blk) 0 :: bytes) = replicate (200 - length blk) 0"
      by simp_all
    then show ?thesis using True by (simp only: nth drop_append le64_append if_True)
  next
    case False
    then have "length blk \<le> 8 * j" using assms(2) mult_div_mod_eq [of 8 "length blk"] by linarith
    then show ?thesis using False by (simp add: nth le64_zero)
  qed
qed

lemma xor_lanes_ok:
  assumes "i + n \<le> 25" "length a = 25"
  shows "xor_lanes i n a buf = Inr (xor_words (replicate (8 * i) 0 @ buf) [i..<i + n] a)"
  using assms
proof (induction n arbitrary: i a buf)
  case 0
  then show ?case by (simp add: xor_words_def)
next
  case (Suc n)
  have "xor_words (replicate (8 * i) 0 @ buf) [i..<i + Suc n] a =
      xor_words (replicate (8 * i) 0 @ buf) [Suc i..<Suc i + n] (a[i := a ! i XOR le64 buf])"
    by (simp add: xor_words_def upt_conv_Cons del: upt_Suc)
  also have "\<dots> = xor_words (replicate (8 * Suc i) 0 @ drop 8 buf) [Suc i..<Suc i + n] (a[i := a ! i XOR le64 buf])"
    unfolding xor_words_def by (rule fold_cong) (auto simp: drop_append)
  finally show ?case using Suc by simp
qed

lemma xor_words_block:
  assumes "length a = 25" "length buf mod 8 = 0" "length buf \<le> 200"
  shows "xor_words buf [0..<length buf div 8] a = xor_block a buf"
  using assms by (intro nth_equalityI) (auto simp: xor_words_nth xor_block_nth)

lemma xorInGeneric_block:
  assumes "length a = 25" "length buf mod 8 = 0" "length buf \<le> 200"
  shows "xorInGeneric a buf = Inr (xor_block a buf)"
  using assms xor_lanes_ok [of 0 "length buf div 8" a buf] by (simp add: xorInGeneric_def xor_words_block)

lemma xor_words_append: "xor_words buf js (xor_words buf is a) = xor_words buf (is @ js) a"
  by (simp add: xor_words_def)

lemma upt_words:
  "[0..<9] = [0, 1, 2, 3, 4, 5, 6, 7, 8]" "[0..<13] = [0, 1, 2, 3, 4, 5, 6, 7, 8, 9, 10, 11, 12]"
  "[0..<17] = [0, 1, 2, 3, 4, 5, 6, 7, 8, 9, 10, 11, 12, 13, 14, 15, 16]"
  "[0..<18] = [0, 1, 2, 3, 4, 5, 6, 7, 8, 9, 10, 11, 12, 13, 14, 15, 16, 17]"
  "[0..<21] = [0, 1, 2, 3, 4, 5, 6, 7, 8, 9, 10, 11, 12, 13, 14, 15, 16, 17, 18, 19, 20]"
  by code_simp+

lemma xorInUnaligned_block:
  assumes "length a = 25" "length buf \<in> rates"
  shows "xorInUnaligned a buf = Inr (xor_block a buf)"
proof -
  have "xorInUnaligned a buf = Inr (xor_words buf [0..<length buf div 8] a)"
    using assms(2) by (auto simp: rates_def xorInUnaligned_def xor_words_append upt_words)
  moreover have "length buf mod 8 = 0" "length buf \<le> 200"
    using rates_bounds [OF assms(2)] by (simp_all add: maxRate_def)
  ultimately show ?thesis using assms(1) by (simp only: xor_words_block)
qed

lemma copy_lanes_ok:
  assumes "length a = 25" "length b mod 8 = 0" "length b \<le> 8 * (25 - i)"
  shows "copy_lanes i a b = Inr (take (length b) (state_bytes (drop i a)))"
  using assms
proof (induction i a b rule: copy_lanes.induct)
  case (1 i a b)
  show ?case
  proof (cases "8 \<le> length b")
    case True
    then have i: "i < 25" using 1(4) by linarith
    have "copy_lanes (i + 1) a (drop 8 b) = Inr (take (length (drop 8 b)) (state_bytes (drop (i + 1) a)))"
      using 1(1) [OF True i 1(2)] 1(3, 4) True by (simp add: mod_if)
    moreover have "state_bytes (drop i a) = put64 (a ! i) @ state_bytes (drop (i + 1) a)"
      using i 1(2) by (simp add: state_bytes_def Cons_nth_drop_Suc [symmetric])
    ultimately show ?thesis using True i by (subst copy_lanes.simps) simp
  next
    case False
    then have "b = []" using 1(3) by (cases b) auto
    then show ?thesis by (subst copy_lanes.simps) simp
  qed
qed

lemma copyOutGeneric_ok:
  assumes "length a = 25" "length b mod 8 = 0" "length b \<le> 200"
  shows "copyOutGeneric a b = Inr (take (length b) (state_bytes a))"
  using assms copy_lanes_ok [of a b 0] by (simp add: copyOutGeneric_def)

lemma copyOutUnaligned_ok:
  assumes "length a = 25" "length b \<le> maxRate"
  shows "copyOutUnaligned a b = Inr (take (length b) (state_bytes a))"
  using assms by (simp add: copyOutUnaligned_def state_bytes_def [symmetric] maxRate_def min_def)

section \<open>Absorbing and squeezing\<close>

lemma absorb_Nil [simp]: "absorb r a [] = a"
  by (subst absorb.simps) auto

lemma absorb_0 [simp]: "absorb 0 a m = a"
  by (subst absorb.simps) simp

lemma absorb_append:
  "r dvd length m \<Longrightarrow> absorb r a (m @ n) = absorb r (absorb r a m) n"
proof (induction r a m rule: absorb.induct)
  case (1 r a m)
  show ?case
  proof (cases "r = 0 \<or> length m < r")
    case True
    then have "r = 0 \<or> m = []" using 1(2) by (auto dest: dvd_imp_le)
    then show ?thesis by auto
  next
    case False
    moreover have "r dvd length (drop r m)" using 1(2) False by (simp add: dvd_minus_self)
    ultimately show ?thesis
      using 1(1) [OF False] unfolding absorb.simps [of r a m] absorb.simps [of r a "m @ n"] by simp
  qed
qed

lemma absorb_block: "0 < r \<Longrightarrow> length m = r \<Longrightarrow> absorb r a m = keccak_f (xor_block a m)"
  by (subst absorb.simps) simp

lemma squeeze_0 [simp]: "squeeze r S k 0 = []"
  by (simp add: squeeze_def)

lemma squeeze_split:
  assumes "j \<le> n"
  shows "squeeze r S k n = squeeze r S k j @ squeeze r S (k + j) (n - j)"
proof -
  have "[k..<k + n] = [k..<k + j] @ [k + j..<k + j + (n - j)]"
    using upt_add_eq_append [of k "k + j" "n - j"] assms by (simp del: upt_Suc)
  then show ?thesis by (simp only: squeeze_def map_append)
qed

lemma div_mod_within:
  assumes "k mod r + i < (r :: nat)"
  shows "(k + i) div r = k div r" "(k + i) mod r = k mod r + i"
proof -
  have e: "k + i = k mod r + i + r * (k div r)" by simp
  have "0 < r" using assms by simp
  then show "(k + i) div r = k div r" using assms by (subst e) (simp only: div_mult_self2 div_less add_0)
  show "(k + i) mod r = k mod r + i" using assms by (subst e) (simp only: mod_mult_self2 mod_less)
qed

lemma squeeze_block:
  assumes "k mod r + n \<le> r" "r \<le> 200" "length S = 25"
  shows "squeeze r S k n = take n (drop (k mod r) (state_bytes ((keccak_f ^^ (k div r)) S)))"
proof (rule nth_equalityI)
  show "length (squeeze r S k n) = length (take n (drop (k mod r) (state_bytes ((keccak_f ^^ (k div r)) S))))"
    using assms by (simp add: length_keccak_pow)
next
  fix i
  assume "i < length (squeeze r S k n)"
  then have i: "i < n" by simp
  then have "k mod r + i < r" using assms(1) by linarith
  note dm = div_mod_within [OF this]
  have "squeeze r S k n ! i = state_bytes ((keccak_f ^^ (k div r)) S) ! (k mod r + i)"
    unfolding squeeze_def using i by (simp add: nth_map_upt dm del: upt_Suc)
  then show "squeeze r S k n ! i = take n (drop (k mod r) (state_bytes ((keccak_f ^^ (k div r)) S))) ! i"
    using i assms by (simp add: length_keccak_pow)
qed

definition sized_sponge :: "sponge \<Rightarrow> bool" where
  "sized_sponge d \<longleftrightarrow> d_rate d \<in> rates \<and> length (d_storage d) = maxRate"

definition absorbed :: "sponge \<Rightarrow> bytes \<Rightarrow> bool" where
  \<comment> \<open>the state has absorbed the message: complete blocks into the lanes, the rest in the buffer\<close>
  "absorbed d m \<longleftrightarrow>
     sized_sponge d \<and> d_state d = SpongeAbsorbing \<and>
     (\<exists>full rest. m = full @ rest \<and> d_rate d dvd length full \<and> length rest < d_rate d \<and>
        d_a d = absorb (d_rate d) (replicate 25 0) full \<and>
        (d_buf d = Some (0, length rest) \<and> take (length rest) (d_storage d) = rest \<or> d_buf d = None \<and> rest = []))"

definition squeezed :: "sponge \<Rightarrow> uint64 list \<Rightarrow> nat \<Rightarrow> bool" where
  \<comment> \<open>\<open>k\<close> bytes have been read from the stream of \<open>S\<close>\<close>
  "squeezed d S k \<longleftrightarrow>
     sized_sponge d \<and> d_state d = SpongeSqueezing \<and> length S = 25 \<and>
     d_a d = (keccak_f ^^ (k div d_rate d)) S \<and>
     d_buf d = Some (k mod d_rate d, d_rate d - k mod d_rate d) \<and>
     take (d_rate d) (d_storage d) = take (d_rate d) (state_bytes (d_a d))"

definition same_instance :: "sponge \<Rightarrow> sponge \<Rightarrow> bool" where
  "same_instance d d' \<longleftrightarrow> d_rate d' = d_rate d \<and> d_dsbyte d' = d_dsbyte d \<and> d_outputLen d' = d_outputLen d"

lemma same_instance_refl [simp]: "same_instance d d"
  by (simp add: same_instance_def)

lemma same_instance_trans [trans]: "same_instance d e \<Longrightarrow> same_instance e f \<Longrightarrow> same_instance d f"
  by (simp add: same_instance_def)

lemma length_overwrite: "off + length xs \<le> length b \<Longrightarrow> length (overwrite off xs b) = length b"
  by (simp add: overwrite_def)

lemma take_overwrite: "off + length xs \<le> length b \<Longrightarrow> take (off + length xs) (overwrite off xs b) = take off b @ xs"
  by (simp add: overwrite_def)

lemma absorbed_new: "r \<in> rates \<Longrightarrow> absorbed (new_state r n ds) []"
  using rates_bounds [of r]
  by (simp add: absorbed_def sized_sponge_def new_state_def)

lemma absorbed_reset: "sized_sponge d \<Longrightarrow> absorbed (Reset d) []"
  using rates_bounds [of "d_rate d"]
  by (auto simp: absorbed_def sized_sponge_def Reset_def)

lemma absorbed_ensure: "absorbed d m \<Longrightarrow> absorbed (ensure_buf d) m \<and> d_buf (ensure_buf d) \<noteq> None \<and> same_instance d (ensure_buf d)"
  by (auto simp: absorbed_def ensure_buf_def sized_sponge_def same_instance_def)

lemma absorbed_clone:
  assumes "absorbed d m"
  shows "\<exists>d'. clone d = Inr d' \<and> absorbed d' m \<and> same_instance d d'"
proof -
  obtain full rest where fr: "m = full @ rest" "d_rate d dvd length full" "length rest < d_rate d"
    "d_a d = absorb (d_rate d) (replicate 25 0) full"
    "d_buf d = Some (0, length rest) \<and> take (length rest) (d_storage d) = rest \<or> d_buf d = None \<and> rest = []"
    and s: "sized_sponge d" "d_state d = SpongeAbsorbing"
    using assms unfolding absorbed_def by auto
  have "length rest \<le> maxRate" using fr(3) s rates_bounds [of "d_rate d"] by (auto simp: sized_sponge_def)
  moreover have "buf_len d = length rest" using fr(5) by (auto simp: buf_len_def)
  ultimately have "clone d = Inr (d\<lparr>d_buf := Some (0, length rest)\<rparr>)"
    by (simp add: clone_def s slice_storage_def)
  moreover have "absorbed (d\<lparr>d_buf := Some (0, length rest)\<rparr>) m"
    using fr s unfolding absorbed_def sized_sponge_def by auto
  ultimately show ?thesis by (auto simp: same_instance_def)
qed

lemma take_pad_storage:
  assumes "length st = maxRate" "length rest < r" "r \<le> maxRate" "take (length rest) st = rest"
  shows "take r (d_storage (pad_storage (Suc (length rest)) (d\<lparr>d_rate := r, d_storage := overwrite (length rest) [ds] st\<rparr>))) =
    rest @ pad_tail (r - length rest) ds"
proof -
  obtain k where r: "r = length rest + Suc k" using assms(2) less_imp_Suc_add by fastforce
  define b where "b = overwrite (Suc (length rest)) (replicate k 0) (overwrite (length rest) [ds] st)"
  have t: "take r b = rest @ ds # replicate k 0"
    using take_overwrite [of "Suc (length rest)" "replicate k 0" "overwrite (length rest) [ds] st"]
      take_overwrite [of "length rest" "[ds]" st] assms r by (simp add: length_overwrite b_def)
  then have "b ! (length rest + k) = (ds # replicate k 0) ! k"
    using r nth_take [of "length rest + k" r b] by (simp add: nth_append)
  then have "take r (b[length rest + k := b ! (length rest + k) XOR 0x80]) =
      rest @ (ds # replicate k 0)[k := (ds # replicate k 0) ! k XOR 0x80]"
    using t by (simp add: take_update_swap list_update_append)
  then show ?thesis by (simp add: pad_storage_def pad_tail_def Let_def r b_def del: list_update.simps)
qed

text \<open>The contract of the two byte movers, and what the sponge achieves with any pair that meets it.\<close>

locale lane_access =
  fixes xi :: xor_in and co :: copy_out
  assumes xorIn_block: "length a = 25 \<Longrightarrow> length buf \<in> rates \<Longrightarrow> xi a buf = Inr (xor_block a buf)"
    and copyOut_bytes: "length a = 25 \<Longrightarrow> length b \<in> rates \<Longrightarrow> co a b = Inr (take (length b) (state_bytes a))"
begin

lemma fill_buf_ok:
  assumes "sized_sponge d" "length (d_a d) = 25"
  shows "fill_buf co d =
    Inr (d\<lparr>d_buf := Some (0, d_rate d),
          d_storage := overwrite 0 (take (d_rate d) (state_bytes (d_a d))) (d_storage d)\<rparr>)"
proof -
  have r: "d_rate d \<in> rates" "d_rate d \<le> maxRate" "length (take (d_rate d) (d_storage d)) = d_rate d"
    using assms(1) rates_bounds by (auto simp: sized_sponge_def)
  then have "co (d_a d) (take (d_rate d) (d_storage d)) = Inr (take (d_rate d) (state_bytes (d_a d)))"
    using copyOut_bytes [OF assms(2), of "take (d_rate d) (d_storage d)"] by simp
  then show ?thesis using r(2) by (simp add: fill_buf_def slice_storage_def buf_bytes_def)
qed

lemma permute_absorbing:
  assumes "sized_sponge d" "d_state d = SpongeAbsorbing" "length (d_a d) = 25" "length (buf_bytes d) = d_rate d"
  shows "permute xi co d = Inr (d\<lparr>d_buf := Some (0, 0), d_a := keccak_f (xor_block (d_a d) (buf_bytes d))\<rparr>)"
  using assms by (simp add: permute_def xorIn_block sized_sponge_def keccakF1600_eq)

lemma absorb_step_ok:
  assumes "absorbed d m" "d_buf d \<noteq> None" "p \<noteq> []"
  shows "\<exists>p' q d'. absorb_step xi co p d = Inr (p', d') \<and> p = q @ p' \<and> q \<noteq> [] \<and> absorbed d' (m @ q) \<and>
    d_buf d' \<noteq> None \<and> same_instance d d'"
proof -
  obtain full rest where fr: "m = full @ rest" "d_rate d dvd length full" "length rest < d_rate d"
    "d_a d = absorb (d_rate d) (replicate 25 0) full" "d_buf d = Some (0, length rest)"
    "take (length rest) (d_storage d) = rest"
    and s: "sized_sponge d" "d_state d = SpongeAbsorbing"
    using assms(1, 2) unfolding absorbed_def by auto
  let ?r = "d_rate d"
  have r: "?r \<in> rates" "0 < ?r" "?r \<le> maxRate" "length (d_storage d) = maxRate"
    using s rates_bounds by (auto simp: sized_sponge_def)
  have a25: "length (d_a d) = 25" using fr(4) by (simp add: length_absorb)
  have bl: "buf_len d = length rest" using fr(5) by (simp add: buf_len_def)
  show ?thesis
  proof (cases "rest = [] \<and> ?r \<le> length p")
    case True
    then have tk: "length (take ?r p) = ?r" by simp
    let ?d = "d\<lparr>d_a := keccakF1600 (xor_block (d_a d) (take ?r p))\<rparr>"
    have "absorb_step xi co p d = Inr (drop ?r p, ?d)"
      using True xorIn_block [OF a25, of "take ?r p"] r tk by (simp add: absorb_step_def bl)
    moreover have "absorbed ?d (m @ take ?r p)"
      unfolding absorbed_def
      using True fr s r tk absorb_append [OF fr(2), of "replicate 25 0" "take ?r p"]
      by (intro conjI exI [of _ "m @ take ?r p"] exI [of _ "[]"])
        (auto simp: sized_sponge_def keccakF1600_eq absorb_block)
    moreover have "take ?r p \<noteq> []" using r(2) assms(3) by simp
    ultimately show ?thesis using fr(5)
      by (intro exI [of _ "drop ?r p"] exI [of _ "take ?r p"] exI [of _ ?d]) (simp add: same_instance_def)
  next
    case False
    define todo where "todo = min (?r - length rest) (length p)"
    define q where "q = take todo p"
    have q: "length q = todo" "q \<noteq> []" "p = q @ drop todo p"
      using assms(3) fr(3) by (auto simp: q_def todo_def)
    have lq: "length rest + length q \<le> ?r" using q(1) fr(3) by (simp add: todo_def)
    let ?d = "d\<lparr>d_storage := overwrite (length rest) q (d_storage d), d_buf := Some (0, length rest + length q)\<rparr>"
    have ap: "append_buf q d = Inr ?d"
      using fr(5) lq r(3) by (simp add: append_buf_def)
    have sz: "sized_sponge ?d"
      using s(1) lq r by (simp add: sized_sponge_def length_overwrite)
    have tk: "take (length rest + length q) (d_storage ?d) = rest @ q"
      using take_overwrite [of "length rest" q "d_storage d"] fr(6) lq r by simp
    have st: "absorb_step xi co p d =
        (if length rest + length q = ?r then map_ok (Pair (drop todo p)) (permute xi co ?d) else Inr (drop todo p, ?d))"
      using False fr(3, 5) ap by (auto simp: absorb_step_def bl todo_def [symmetric] q_def [symmetric] Let_def buf_len_def)
    show ?thesis
    proof (cases "length rest + length q = ?r")
      case True
      let ?d' = "?d\<lparr>d_buf := Some (0, 0), d_a := keccak_f (xor_block (d_a d) (rest @ q))\<rparr>"
      have bb: "buf_bytes ?d = rest @ q" using tk by (simp add: buf_bytes_def)
      then have "length (buf_bytes ?d) = d_rate ?d" using True by simp
      then have "permute xi co ?d = Inr ?d'"
        using permute_absorbing [OF sz] s(2) a25 unfolding bb by simp
      moreover have "absorbed ?d' (m @ q)"
        unfolding absorbed_def
        using True fr s sz absorb_append [OF fr(2), of "replicate 25 0" "rest @ q"] r(2) fr(2)
        by (intro conjI exI [of _ "m @ q"] exI [of _ "[]"]) (auto simp: sized_sponge_def absorb_block)
      ultimately show ?thesis using st True q(2, 3)
        by (intro exI [of _ "drop todo p"] exI [of _ q] exI [of _ ?d']) (simp add: same_instance_def)
    next
      case False
      have "absorbed ?d (m @ q)"
        unfolding absorbed_def using False fr s sz tk lq by (intro conjI exI [of _ full] exI [of _ "rest @ q"]) auto
      then show ?thesis using st False q(2, 3)
        by (intro exI [of _ "drop todo p"] exI [of _ q] exI [of _ ?d]) (simp add: same_instance_def)
    qed
  qed
qed

lemma write_loop_ok:
  assumes "absorbed d m" "d_buf d \<noteq> None"
  shows "\<exists>d'. write_loop xi co p d = Some (Inr d') \<and> absorbed d' (m @ p) \<and> same_instance d d'"
  using assms
proof (induction "length p" arbitrary: p d m rule: less_induct)
  case less
  show ?case
  proof (cases "p = []")
    case True
    then show ?thesis using less.prems by (subst write_loop.simps) simp
  next
    case False
    obtain p' q d1 where st: "absorb_step xi co p d = Inr (p', d1)" "p = q @ p'" "q \<noteq> []" "absorbed d1 (m @ q)"
      "d_buf d1 \<noteq> None" "same_instance d d1"
      using absorb_step_ok [OF less.prems False] by blast
    then obtain d' where "write_loop xi co p' d1 = Some (Inr d')" "absorbed d' ((m @ q) @ p')" "same_instance d1 d'"
      using less.hyps [of p' d1 "m @ q"] by auto
    then show ?thesis
      using st False same_instance_trans [OF st(6)] by (subst write_loop.simps) auto
  qed
qed

lemma Write_ok:
  assumes "absorbed d m"
  shows "\<exists>d'. Write xi co p d = Some (Inr (length p, d')) \<and> absorbed d' (m @ p) \<and> same_instance d d'"
proof -
  note en = absorbed_ensure [OF assms]
  then obtain d' where "write_loop xi co p (ensure_buf d) = Some (Inr d')" "absorbed d' (m @ p)"
    "same_instance (ensure_buf d) d'"
    using write_loop_ok by blast
  then show ?thesis
    using assms en same_instance_trans [of d "ensure_buf d" d'] by (auto simp: Write_def absorbed_def)
qed

lemma write_all_ok:
  assumes "absorbed d m"
  shows "\<exists>d'. write_all xi co ps d = Some (Inr d') \<and> absorbed d' (m @ concat ps) \<and> same_instance d d'"
  using assms
proof (induction ps arbitrary: d m)
  case (Cons p ps)
  obtain d1 where w: "Write xi co p d = Some (Inr (length p, d1))" "absorbed d1 (m @ p)" "same_instance d d1"
    using Write_ok [OF Cons.prems] by blast
  then show ?case using Cons.IH [OF w(2)] same_instance_trans [OF w(3)] by auto
qed simp

lemma padAndPermute_ok:
  assumes "absorbed d m"
  shows "\<exists>d'. padAndPermute xi co ds d = Inr d' \<and> same_instance d d' \<and>
    squeezed d' (absorb (d_rate d) (replicate 25 0) (pad (d_rate d) ds m)) 0"
proof -
  let ?e = "ensure_buf d" and ?r = "d_rate d"
  note en = absorbed_ensure [OF assms]
  obtain full rest where fr: "m = full @ rest" "?r dvd length full" "length rest < ?r"
    "d_a ?e = absorb ?r (replicate 25 0) full" "d_buf ?e = Some (0, length rest)"
    "take (length rest) (d_storage ?e) = rest"
    and s: "sized_sponge ?e" "d_state ?e = SpongeAbsorbing" and rt: "d_rate ?e = ?r"
    using en unfolding absorbed_def same_instance_def by auto
  have r: "?r \<in> rates" "0 < ?r" "?r \<le> maxRate" "length (d_storage ?e) = maxRate"
    using s rates_bounds rt by (auto simp: sized_sponge_def)
  let ?st = "overwrite (length rest) [ds] (d_storage ?e)"
  define f where "f = pad_storage (Suc (length rest)) (?e\<lparr>d_storage := ?st, d_buf := Some (0, ?r)\<rparr>)"
  define p where "p = pad_tail (?r - length rest) ds"
  have len_p: "length rest + length p = ?r" using fr(3) by (simp add: p_def length_pad_tail)
  have f: "d_state f = SpongeAbsorbing" "d_a f = d_a ?e" "d_rate f = ?r" "d_buf f = Some (0, ?r)"
    "same_instance d f" "length (d_storage f) = maxRate"
    using s(2) rt en fr(3) r by (auto simp: f_def pad_storage_def Let_def same_instance_def length_overwrite)
  have "take ?r (d_storage f) = rest @ p"
    using take_pad_storage [OF r(4) fr(3) r(3) fr(6), of ds "?e\<lparr>d_buf := Some (0, ?r)\<rparr>"] rt
    by (simp add: f_def p_def pad_storage_def Let_def)
  then have bb: "buf_bytes f = rest @ p" by (simp add: buf_bytes_def f)
  have sf: "sized_sponge f" using r f by (simp add: sized_sponge_def)
  define S where "S = keccak_f (xor_block (d_a ?e) (rest @ p))"
  have S: "S = absorb ?r (replicate 25 0) (pad ?r ds m)" "length S = 25"
  proof -
    have "length m mod ?r = length rest" using fr(1-3) by (auto simp: mod_add_left_eq)
    then have "pad ?r ds m = full @ rest @ p" by (simp add: pad_def p_def fr(1))
    then show "S = absorb ?r (replicate 25 0) (pad ?r ds m)"
      using absorb_append [OF fr(2), of "replicate 25 0" "rest @ p"] len_p r(2)
      by (simp add: S_def fr(4) absorb_block)
    then show "length S = 25" by (simp add: length_absorb)
  qed
  have pf: "permute xi co f = Inr (f\<lparr>d_buf := Some (0, 0), d_a := S\<rparr>)"
    using permute_absorbing [OF sf f(1)] len_p fr(4) f(2, 3) by (simp add: bb length_absorb S_def)
  let ?g = "f\<lparr>d_buf := Some (0, 0), d_a := S, d_state := SpongeSqueezing\<rparr>"
  have "sized_sponge ?g" using sf by (simp add: sized_sponge_def)
  note fg = fill_buf_ok [OF this]
  define d' where "d' = ?g\<lparr>d_buf := Some (0, ?r), d_storage := overwrite 0 (take ?r (state_bytes S)) (d_storage f)\<rparr>"
  have "padAndPermute xi co ds d = Inr d'"
    using fr(3, 5) r(2, 3) rt pf fg S(2) f(3)
    by (simp add: padAndPermute_def append_buf_def slice_storage_def buf_len_def f_def [symmetric] d'_def Let_def)
  moreover have "squeezed d' S 0"
    using r f S(2) by (simp add: squeezed_def sized_sponge_def d'_def length_overwrite) (simp add: overwrite_def maxRate_def)
  ultimately show ?thesis using f(5) S(1) by (auto simp: same_instance_def d'_def)
qed

lemma squeeze_step_ok:
  assumes "squeezed d S k" "0 < want"
  shows "\<exists>n d'. squeeze_step xi co want d = Inr (squeeze (d_rate d) S k n, d') \<and> 0 < n \<and> n \<le> want \<and>
    squeezed d' S (k + n) \<and> same_instance d d'"
proof -
  let ?r = "d_rate d"
  have s: "sized_sponge d" "d_state d = SpongeSqueezing" "length S = 25" "d_a d = (keccak_f ^^ (k div ?r)) S"
    "d_buf d = Some (k mod ?r, ?r - k mod ?r)" "take ?r (d_storage d) = take ?r (state_bytes (d_a d))"
    using assms(1) by (simp_all add: squeezed_def)
  have r: "?r \<in> rates" "0 < ?r" "?r \<le> maxRate" "length (d_storage d) = maxRate"
    using s rates_bounds by (auto simp: sized_sponge_def)
  have km: "k mod ?r < ?r" using r(2) by simp
  define n where "n = min want (?r - k mod ?r)"
  have n: "0 < n" "n \<le> want" "k mod ?r + n \<le> ?r" using km assms(2) by (auto simp: n_def)
  have out: "take n (buf_bytes d) = squeeze ?r S k n"
  proof -
    have "buf_bytes d = drop (k mod ?r) (take ?r (d_storage d))"
      using s(5) by (simp add: buf_bytes_def drop_take)
    then show ?thesis
      using s(6) n(3) r(3) squeeze_block [of k ?r n S] s(3, 4) by (simp add: maxRate_def drop_take)
  qed
  let ?d = "advance n d"
  have st: "squeeze_step xi co want d = map_ok (Pair (squeeze ?r S k n)) (if k mod ?r + n = ?r then permute xi co ?d else Inr ?d)"
    using n(3) by (simp add: squeeze_step_def Let_def buf_len_def s(5) n_def [symmetric] out advance_def)
  show ?thesis
  proof (cases "k mod ?r + n = ?r")
    case True
    have kn: "(k + n) div ?r = Suc (k div ?r)" "(k + n) mod ?r = 0"
      using True r(2) by (metis add.assoc div_mult_mod_eq div_mult_self_is_m mult_Suc add.commute)
        (metis True mod_add_left_eq mod_self)
    let ?e = "?d\<lparr>d_a := keccak_f (d_a d)\<rparr>"
    have "sized_sponge ?e" "length (d_a ?e) = 25"
      using s(1) s(3, 4) by (simp_all add: sized_sponge_def advance_def length_keccak_f length_keccak_pow)
    note fg = fill_buf_ok [OF this]
    define d' where "d' = ?e\<lparr>d_buf := Some (0, ?r), d_storage := overwrite 0 (take ?r (state_bytes (keccak_f (d_a d)))) (d_storage d)\<rparr>"
    have "permute xi co ?d = Inr d'"
      using fg s(2, 3, 4) by (simp add: permute_def advance_def keccakF1600_eq length_keccak_pow d'_def)
    moreover have "squeezed d' S (k + n)"
      using s r kn by (simp add: squeezed_def sized_sponge_def d'_def advance_def length_overwrite length_keccak_f length_keccak_pow maxRate_def overwrite_def)
    moreover have "same_instance d d'" by (simp add: same_instance_def d'_def advance_def)
    ultimately show ?thesis using st True n by auto
  next
    case False
    then have lt: "k mod ?r + n < ?r" using n(3) by simp
    then have "squeezed ?d S (k + n)"
      using s r div_mod_within [OF lt] by (simp add: squeezed_def sized_sponge_def advance_def)
    moreover have "same_instance d ?d" by (simp add: same_instance_def advance_def)
    ultimately show ?thesis using st False n by auto
  qed
qed

lemma read_loop_ok:
  assumes "squeezed d S k"
  shows "\<exists>d'. read_loop xi co want out d = Some (Inr (out @ squeeze (d_rate d) S k want, d')) \<and>
    squeezed d' S (k + want) \<and> same_instance d d'"
  using assms
proof (induction want arbitrary: d k out rule: less_induct)
  case (less want)
  show ?case
  proof (cases "want = 0")
    case True
    then show ?thesis using less.prems by (subst read_loop.simps) simp
  next
    case False
    then obtain n d1 where st: "squeeze_step xi co want d = Inr (squeeze (d_rate d) S k n, d1)" "0 < n" "n \<le> want"
      "squeezed d1 S (k + n)" "same_instance d d1"
      using squeeze_step_ok [OF less.prems] by blast
    have rt: "d_rate d1 = d_rate d" using st(5) by (simp add: same_instance_def)
    obtain d' where "read_loop xi co (want - n) (out @ squeeze (d_rate d) S k n) d1 =
        Some (Inr ((out @ squeeze (d_rate d) S k n) @ squeeze (d_rate d) S (k + n) (want - n), d'))"
      "squeezed d' S (k + n + (want - n))" "same_instance d1 d'"
      using less.IH [OF _ st(4), of "want - n" "out @ squeeze (d_rate d) S k n"] st(2, 3) False rt by auto
    then show ?thesis
      using st False squeeze_split [OF st(3), of "d_rate d" S k] same_instance_trans [OF st(5)]
      by (subst read_loop.simps) auto
  qed
qed

lemma Read_absorbed:
  assumes "absorbed d m"
  shows "\<exists>d'. Read xi co n d = Some (Inr (sponge_function (d_rate d) (d_dsbyte d) m n, d')) \<and>
    squeezed d' (absorb (d_rate d) (replicate 25 0) (pad (d_rate d) (d_dsbyte d) m)) n \<and> same_instance d d'"
proof -
  obtain d1 where p: "padAndPermute xi co (d_dsbyte d) d = Inr d1" "same_instance d d1"
    "squeezed d1 (absorb (d_rate d) (replicate 25 0) (pad (d_rate d) (d_dsbyte d) m)) 0"
    using padAndPermute_ok [OF assms] by blast
  moreover have "d_state d = SpongeAbsorbing" "d_rate d1 = d_rate d"
    using assms p(2) by (simp_all add: absorbed_def same_instance_def)
  ultimately show ?thesis
    using read_loop_ok [OF p(3), of n "[]"] same_instance_trans [OF p(2)]
    by (auto simp: Read_def sponge_function_def)
qed

lemma Read_squeezed:
  assumes "squeezed d S k"
  shows "\<exists>d'. Read xi co n d = Some (Inr (squeeze (d_rate d) S k n, d')) \<and> squeezed d' S (k + n) \<and> same_instance d d'"
  using read_loop_ok [OF assms, of n "[]"] assms by (auto simp: Read_def squeezed_def)

lemma Sum_absorbed:
  assumes "absorbed d m"
  shows "state_Sum xi co pre d = Some (Inr (pre @ sponge_function (d_rate d) (d_dsbyte d) m (d_outputLen d)))"
proof -
  obtain d' where c: "clone d = Inr d'" "absorbed d' m" "same_instance d d'" using absorbed_clone [OF assms] by blast
  then show ?thesis
    using Read_absorbed [OF c(2), of "d_outputLen d"] by (auto simp: state_Sum_def same_instance_def)
qed

lemma hash_all_ok:
  assumes "r \<in> rates"
  shows "hash_all xi co (new_state r n ds) data = Some (Inr (sponge_function r ds (concat data) n))"
proof -
  obtain d' where w: "write_all xi co data (new_state r n ds) = Some (Inr d')" "absorbed d' ([] @ concat data)"
    "same_instance (new_state r n ds) d'"
    using write_all_ok [OF absorbed_new [OF assms]] by blast
  then show ?thesis
    using Sum_absorbed [OF w(2)] by (simp add: hash_all_def same_instance_def new_state_def)
qed

lemma shake_sum_ok:
  assumes "r \<in> rates"
  shows "shake_sum xi co (new_state r 0 ds) n data = Some (Inr (sponge_function r ds data n))"
proof -
  obtain d' where w: "Write xi co data (new_state r 0 ds) = Some (Inr (length data, d'))" "absorbed d' ([] @ data)"
    "same_instance (new_state r 0 ds) d'"
    using Write_ok [OF absorbed_new [OF assms]] by blast
  then show ?thesis
    using Read_absorbed [OF w(2), of n] by (auto simp: shake_sum_def same_instance_def new_state_def)
qed

end

interpretation generic: lane_access xorInGeneric copyOutGeneric
  by unfold_locales (auto dest!: rates_bounds simp: xorInGeneric_block copyOutGeneric_ok maxRate_def)

interpretation unaligned: lane_access xorInUnaligned copyOutUnaligned
  by unfold_locales (auto dest!: rates_bounds simp: xorInUnaligned_block copyOutUnaligned_ok)

lemma clone_squeezed:
  assumes "squeezed d S k"
  shows "clone d =
    (if k mod d_rate d + d_rate d < maxRate then Inl OutOfBounds
     else Inr (d\<lparr>d_buf := Some (k mod d_rate d + d_rate d - maxRate, maxRate - k mod d_rate d)\<rparr>))"
proof -
  let ?r = "d_rate d"
  have r: "0 < ?r" "?r \<le> maxRate" using assms rates_bounds by (auto simp: squeezed_def sized_sponge_def)
  have km: "k mod ?r < ?r" using r(1) by simp
  have "nat (int ?r - (int maxRate - int (k mod ?r))) = k mod ?r + ?r - maxRate"
    "nat (int maxRate - int (k mod ?r)) = maxRate - k mod ?r"
    using km r(2) by linarith+
  then show ?thesis
    using assms km r(2) by (auto simp: clone_def squeezed_def buf_cap_def slice_storage_def of_nat_diff)
qed

section \<open>The hash functions compute the standard's functions\<close>

lemma rates_simps [simp]: "72 \<in> rates" "104 \<in> rates" "136 \<in> rates" "144 \<in> rates" "168 \<in> rates"
  by (simp_all add: rates_def)

text \<open>
  C29. \<open>Keccak256\<close> returns on every sequence of inputs, without a panic, and yields the 32-byte output of
  the sponge construction with rate 136 and domain byte 1 on the concatenation of the inputs, with
  either implementation of the byte movers.
\<close>

theorem Keccak256_of_sponge:
  "Keccak256_of xorInGeneric copyOutGeneric data = Some (Inr (sponge_function 136 0x01 (concat data) 32)) \<and>
   Keccak256_of xorInUnaligned copyOutUnaligned data = Some (Inr (sponge_function 136 0x01 (concat data) 32))"
  by (simp add: Keccak256_of_def NewKeccak256_def generic.hash_all_ok unaligned.hash_all_ok)

text \<open>
  C30. The SHA-3 digests and the SHAKE functions return on every input the output of the sponge
  construction with their rate, domain byte and output length.
\<close>

theorem sha3_functions_sponge:
  "Sum224 xorInUnaligned copyOutUnaligned data = Some (Inr (sponge_function 144 0x06 data 28)) \<and>
   Sum256 xorInUnaligned copyOutUnaligned data = Some (Inr (sponge_function 136 0x06 data 32)) \<and>
   Sum384 xorInUnaligned copyOutUnaligned data = Some (Inr (sponge_function 104 0x06 data 48)) \<and>
   Sum512 xorInUnaligned copyOutUnaligned data = Some (Inr (sponge_function 72 0x06 data 64)) \<and>
   ShakeSum128 xorInUnaligned copyOutUnaligned n data = Some (Inr (sponge_function 168 0x1f data n)) \<and>
   ShakeSum256 xorInUnaligned copyOutUnaligned n data = Some (Inr (sponge_function 136 0x1f data n))"
  by (simp add: Sum224_def New224_def Sum256_def New256_def Sum384_def New384_def Sum512_def New512_def
    ShakeSum128_def NewShake128_def ShakeSum256_def NewShake256_def unaligned.hash_all_ok unaligned.shake_sum_ok)

text \<open>
  C31. A state that has absorbed a message keeps that invariant under \<open>Write\<close> for the longer message, and
  \<open>Sum\<close> yields the digest of everything written so far: data may be written and summed in any pieces.
\<close>

theorem Write_Sum_incremental:
  assumes "absorbed d m"
  shows "\<exists>d'. Write xorInUnaligned copyOutUnaligned p d = Some (Inr (length p, d')) \<and> absorbed d' (m @ p) \<and>
    state_Sum xorInUnaligned copyOutUnaligned pre d' =
      Some (Inr (pre @ sponge_function (d_rate d) (d_dsbyte d) (m @ p) (d_outputLen d)))"
proof -
  obtain d' where d': "Write xorInUnaligned copyOutUnaligned p d = Some (Inr (length p, d'))" "absorbed d' (m @ p)"
    "same_instance d d'"
    using unaligned.Write_ok [OF assms] by blast
  then show ?thesis using unaligned.Sum_absorbed [OF d'(2)] by (auto simp: same_instance_def)
qed

theorem Write_Sum_incremental_witness:
  "\<exists>d'. Write xorInUnaligned copyOutUnaligned [1, 2, 3] NewKeccak256 = Some (Inr (3, d')) \<and> absorbed d' [1, 2, 3] \<and>
    state_Sum xorInUnaligned copyOutUnaligned [] d' = Some (Inr (sponge_function 136 0x01 [1, 2, 3] 32))"
  using Write_Sum_incremental [OF absorbed_new [of 136 32 1], of "[1, 2, 3]" "[]"]
  by (simp add: NewKeccak256_def new_state_def numeral_3_eq_3)

text \<open>
  C32. A SHAKE256 state cannot be cloned once it has been read from: after \<open>n\<close> bytes of output \<open>clone\<close> panics
  when fewer than 32 bytes of the current block are consumed, and otherwise yields a copy whose
  buffer starts 32 bytes too early, because the capacity of the buffer reaches to the end of the
  storage and not to the rate.
\<close>

theorem Shake256_clone_after_read:
  "\<exists>d1 d. Write xorInUnaligned copyOutUnaligned data NewShake256 = Some (Inr (length data, d1)) \<and>
     Read xorInUnaligned copyOutUnaligned n d1 = Some (Inr (sponge_function 136 0x1f data n, d)) \<and>
     d_buf d = Some (n mod 136, 136 - n mod 136) \<and>
     clone d = (if n mod 136 < 32 then Inl OutOfBounds
                else Inr (d\<lparr>d_buf := Some (n mod 136 - 32, 168 - n mod 136)\<rparr>))"
proof -
  have new: "absorbed NewShake256 []" by (simp add: NewShake256_def absorbed_new)
  obtain d1 where d1: "Write xorInUnaligned copyOutUnaligned data NewShake256 = Some (Inr (length data, d1))"
    "absorbed d1 ([] @ data)" "same_instance NewShake256 d1"
    using unaligned.Write_ok [OF new] by blast
  then have i: "d_rate d1 = 136" "d_dsbyte d1 = 0x1f" by (simp_all add: same_instance_def NewShake256_def new_state_def)
  obtain d S where d: "Read xorInUnaligned copyOutUnaligned n d1 = Some (Inr (sponge_function 136 0x1f data n, d))"
    "squeezed d S n" "same_instance d1 d"
    using unaligned.Read_absorbed [OF d1(2), of n] i by auto
  have r: "d_rate d = 136" using d(3) i by (simp add: same_instance_def)
  have "clone d = (if n mod 136 < 32 then Inl OutOfBounds
      else Inr (d\<lparr>d_buf := Some (n mod 136 - 32, 168 - n mod 136)\<rparr>))"
    using clone_squeezed [OF d(2)] r by (auto simp: maxRate_def)
  moreover have "d_buf d = Some (n mod 136, 136 - n mod 136)" using d(2) r by (simp add: squeezed_def)
  ultimately show ?thesis using d1(1) d(1) by blast
qed

end
