(* ===== verification/Crypto.thy ===== *)
theory Crypto
  imports Keccak_Sponge Rlp_Roundtrip
begin

text \<open>
  Keccak-256 digests and contract addresses (\<open>crypto/crypto.go\<close>), and the fixed-size addresses of
  \<open>helper/types.go\<close>.
\<close>

definition Keccak256 :: "bytes list \<Rightarrow> bytes" where
  \<comment> \<open>the build with the unaligned byte movers; no panic and no divergence, see \<open>Keccak256_digest\<close>\<close>
  "Keccak256 data =
     (case Keccak256_of xorInUnaligned copyOutUnaligned data of Some (Inr h) \<Rightarrow> h | _ \<Rightarrow> [])"

definition Keccak256Hash :: "bytes list \<Rightarrow> bytes" where
  \<comment> \<open>the digest is appended in place to the empty prefix of the array \<open>h\<close>\<close>
  "Keccak256Hash data = (let d = Keccak256 data in take 32 (d @ replicate (32 - length d) 0))"

definition BytesToAddress :: "bytes \<Rightarrow> bytes" where
  "BytesToAddress b =
     (let b = (if length b > 20 then drop (length b - 20) b else b)
      in replicate (20 - length b) 0 @ b)"

definition CreateAddress :: "bytes \<Rightarrow> uint64 \<Rightarrow> bytes" where
  "CreateAddress b nonce =
     (let data = (case EncodeToBytes (TSlice TInterface)
                    (GList [GIface (TArray 20 (TUint 8)) (GBytes b), GIface (TUint 64) (GUint nonce)]) of
                    Inl _ \<Rightarrow> []
                  | Inr data \<Rightarrow> data)
      in BytesToAddress (drop 12 (Keccak256 [data])))"

lemma Keccak256_digest: "Keccak256 data = sponge_function 136 1 (concat data) 32"
  by (simp add: Keccak256_def Keccak256_of_def NewKeccak256_def unaligned.hash_all_ok)

lemma length_Keccak256 [simp]: "length (Keccak256 data) = 32"
  by (simp add: Keccak256_digest sponge_function_def)

lemma Keccak256_concat: "Keccak256 [concat data] = Keccak256 data"
  by (simp add: Keccak256_digest)

lemma Keccak256Hash_eq: "Keccak256Hash data = Keccak256 data"
  by (simp add: Keccak256Hash_def)

lemma length_BytesToAddress [simp]: "length (BytesToAddress b) = 20"
  by (simp add: BytesToAddress_def)

lemma items_address:
  assumes "length b = 20"
  shows "items (TSlice TInterface) no_tags
      (GList [GIface (TArray 20 (TUint 8)) (GBytes b), GIface (TUint 64) (GUint nonce)]) =
    Inr [Lst [Str b, Str (nat_bytes (unat nonce))]]"
  using assms by (simp add: isByte_def no_tags_def)

lemma length_puthead_small: "n < 56 \<Longrightarrow> length (puthead s l (of_nat n)) = 1"
  by (simp add: puthead_def of_nat_less_56)

lemma length_rlp_str_small: "length b < 56 \<Longrightarrow> length (rlp_str b) \<le> length b + 1"
  by (simp add: rlp_str_def length_puthead_small)

lemma length_sponge_function [simp]: "length (sponge_function r ds m n) = n"
  by (simp add: sponge_function_def)

text \<open>
  C33. The address of a contract is the last 20 bytes of the Keccak-256 digest of the RLP list of the
  creator's address and its nonce, the nonce in its shortest big-endian form.
\<close>

theorem CreateAddress_digest:
  assumes "length b = 20"
  shows "CreateAddress b nonce = drop 12 (sponge_function 136 1 (rlp (Lst [Str b, Str (nat_bytes (unat nonce))])) 32)"
proof -
  have n: "length (nat_bytes (unat nonce)) \<le> 8" using uint64_bound [of nonce] by (intro length_nat_bytes_le) simp
  have "length (rlp_str b @ rlp_str (nat_bytes (unat nonce))) \<le> 30"
    using length_rlp_str_small [of b] length_rlp_str_small [of "nat_bytes (unat nonce)"] n assms by simp
  then have "length (rlps [Lst [Str b, Str (nat_bytes (unat nonce))]]) \<le> 31"
    using length_puthead_small [of "length (rlp_str b @ rlp_str (nat_bytes (unat nonce)))"]
    by (simp add: rlps_def rlp_lst_def del: of_nat_add)
  then have "EncodeToBytes (TSlice TInterface)
      (GList [GIface (TArray 20 (TUint 8)) (GBytes b), GIface (TUint 64) (GUint nonce)]) =
    Inr (rlp (Lst [Str b, Str (nat_bytes (unat nonce))]))"
    using EncodeToBytes_items [OF _ items_address [OF assms, of nonce]] by (simp add: isByte_def rlps_def)
  then show ?thesis
    by (simp add: CreateAddress_def BytesToAddress_def Keccak256_digest Let_def del: rlp.simps)
qed

theorem CreateAddress_digest_witness:
  "CreateAddress (replicate 20 1) 5 = drop 12 (sponge_function 136 1 (rlp (Lst [Str (replicate 20 1), Str [5]])) 32)"
proof -
  have "nat_bytes 5 = [5]" by (simp add: nat_bytes.simps)
  then show ?thesis using CreateAddress_digest [of "replicate 20 1" 5] by simp
qed

end
