(* ===== verification/Database_Mem.thy ===== *)
theory Database_Mem
  imports Trie_Hash "HOL-Library.AList"
begin

text \<open>
  The in-memory database and its batches (\<open>database/memory_database.go\<close>), with the read-write lock
  that guards them. An operation that waits for a lock its own caller holds never returns.
\<close>

section \<open>The lock\<close>

datatype rwmutex = Unlocked | RLocked nat | Locked

definition Lock :: "rwmutex \<Rightarrow> rwmutex option" where
  \<comment> \<open>\<open>None\<close>: the caller waits\<close>
  "Lock l = (case l of Unlocked \<Rightarrow> Some Locked | _ \<Rightarrow> None)"

definition RLock :: "rwmutex \<Rightarrow> rwmutex option" where
  "RLock l = (case l of Unlocked \<Rightarrow> Some (RLocked 0) | RLocked n \<Rightarrow> Some (RLocked (Suc n)) | Locked \<Rightarrow> None)"

definition Unlock :: "rwmutex \<Rightarrow> rwmutex" where
  "Unlock l = Unlocked"

definition RUnlock :: "rwmutex \<Rightarrow> rwmutex" where
  "RUnlock l = (case l of RLocked (Suc n) \<Rightarrow> RLocked n | _ \<Rightarrow> Unlocked)"

section \<open>The database\<close>

text \<open>
  The Go map is an association list without repeated keys. Its order is that of the insertions; the
  order in which Go would visit the entries is unspecified, and only \<open>Keys\<close> shows it.
\<close>

type_synonym kv = "bytes \<times> bytes"

record MemDatabase =
  mem_db :: "kv list"
  mem_lock :: rwmutex

definition NewMemDatabase :: MemDatabase where
  "NewMemDatabase = \<lparr>mem_db = [], mem_lock = Unlocked\<rparr>"

definition put_entry :: "bytes \<Rightarrow> bytes \<Rightarrow> kv list \<Rightarrow> kv list" where
  \<comment> \<open>\<open>db.db[string(key)] = helper.CopyBytes(value)\<close>\<close>
  "put_entry key value m = AList.update key value m"

definition Mem_Put :: "bytes \<Rightarrow> bytes \<Rightarrow> MemDatabase \<Rightarrow> MemDatabase option" where
  "Mem_Put key value d =
     (case Lock (mem_lock d) of
        None \<Rightarrow> None
      | Some l \<Rightarrow> Some (d\<lparr>mem_db := put_entry key value (mem_db d), mem_lock := Unlock l\<rparr>))"

definition Mem_Set :: "bytes \<Rightarrow> bytes \<Rightarrow> MemDatabase \<Rightarrow> MemDatabase option" where
  "Mem_Set key value d =
     (case Lock (mem_lock d) of
        None \<Rightarrow> None
      | Some l \<Rightarrow> map_option (\<lambda>d. d\<lparr>mem_lock := Unlock (mem_lock d)\<rparr>) (Mem_Put key value (d\<lparr>mem_lock := l\<rparr>)))"

definition Mem_Get :: "bytes \<Rightarrow> MemDatabase \<Rightarrow> (bytes option \<times> MemDatabase) option" where
  \<comment> \<open>the value, or \<open>None\<close> for the error \<open>not found\<close>\<close>
  "Mem_Get key d =
     (case RLock (mem_lock d) of
        None \<Rightarrow> None
      | Some l \<Rightarrow> Some (map_of (mem_db d) key, d\<lparr>mem_lock := RUnlock l\<rparr>))"

definition Mem_Keys :: "MemDatabase \<Rightarrow> (bytes list \<times> MemDatabase) option" where
  "Mem_Keys d =
     (case RLock (mem_lock d) of
        None \<Rightarrow> None
      | Some l \<Rightarrow> Some (map fst (mem_db d), d\<lparr>mem_lock := RUnlock l\<rparr>))"

definition Mem_Delete :: "bytes \<Rightarrow> MemDatabase \<Rightarrow> MemDatabase option" where
  "Mem_Delete key d =
     (case Lock (mem_lock d) of
        None \<Rightarrow> None
      | Some l \<Rightarrow> Some (d\<lparr>mem_db := AList.delete key (mem_db d), mem_lock := Unlock l\<rparr>))"

section \<open>Batches\<close>

record memBatch =
  writes :: "kv list"
  batch_lock :: rwmutex

definition NewBatch :: memBatch where
  "NewBatch = \<lparr>writes = [], batch_lock = Unlocked\<rparr>"

definition batch_Put :: "bytes \<Rightarrow> bytes \<Rightarrow> memBatch \<Rightarrow> memBatch option" where
  "batch_Put key value b =
     (case Lock (batch_lock b) of
        None \<Rightarrow> None
      | Some l \<Rightarrow> Some (b\<lparr>writes := writes b @ [(key, value)], batch_lock := Unlock l\<rparr>))"

definition batch_Write :: "memBatch \<Rightarrow> MemDatabase \<Rightarrow> (memBatch \<times> MemDatabase) option" where
  "batch_Write b d =
     (case RLock (batch_lock b) of
        None \<Rightarrow> None
      | Some bl \<Rightarrow>
          (case Lock (mem_lock d) of
             None \<Rightarrow> None
           | Some l \<Rightarrow>
               Some (b\<lparr>batch_lock := RUnlock bl\<rparr>,
                 d\<lparr>mem_db := fold (\<lambda>(k, v) m. put_entry k v m) (writes b) (mem_db d), mem_lock := Unlock l\<rparr>)))"

section \<open>Properties\<close>

definition mem_ok :: "MemDatabase \<Rightarrow> bool" where
  \<comment> \<open>no entry is repeated and nobody holds the lock\<close>
  "mem_ok d \<longleftrightarrow> distinct (map fst (mem_db d)) \<and> mem_lock d = Unlocked"

lemma lock_simps [simp]:
  "Lock Unlocked = Some Locked" "Lock Locked = None" "RLock Unlocked = Some (RLocked 0)" "Unlock l = Unlocked"
  "RUnlock (RLocked 0) = Unlocked"
  by (simp_all add: Lock_def RLock_def Unlock_def RUnlock_def)

lemma map_of_put_entry [simp]: "map_of (put_entry k v m) = (map_of m)(k \<mapsto> v)"
  by (simp add: put_entry_def update_conv')

lemma distinct_put_entry: "distinct (map fst m) \<Longrightarrow> distinct (map fst (put_entry k v m))"
  unfolding put_entry_def by (rule distinct_update)

lemma put_entries:
  "distinct (map fst m) \<Longrightarrow>
   distinct (map fst (fold (\<lambda>(k, v) m. put_entry k v m) kvs m)) \<and>
   map_of (fold (\<lambda>(k, v) m. put_entry k v m) kvs m) = fold (\<lambda>(k, v) f. f(k \<mapsto> v)) kvs (map_of m)"
proof (induction kvs arbitrary: m)
  case (Cons kv kvs)
  show ?case
    using Cons.IH [OF distinct_put_entry [OF Cons.prems, of "fst kv" "snd kv"]] by (simp add: case_prod_beta)
qed simp

lemma distinct_delete_entry: "distinct (map fst m) \<Longrightarrow> distinct (map fst (AList.delete k m))"
  by (rule distinct_delete)

interpretation memdb: database map_of "\<lambda>k v m. (None, put_entry k v m)"
  by unfold_locales simp_all

fun put_all :: "kv list \<Rightarrow> MemDatabase \<Rightarrow> MemDatabase option" where
  "put_all [] d = Some d"
| "put_all ((k, v) # kvs) d = (case Mem_Put k v d of None \<Rightarrow> None | Some d \<Rightarrow> put_all kvs d)"

fun batch_all :: "kv list \<Rightarrow> memBatch \<Rightarrow> memBatch option" where
  "batch_all [] b = Some b"
| "batch_all ((k, v) # kvs) b = (case batch_Put k v b of None \<Rightarrow> None | Some b \<Rightarrow> batch_all kvs b)"

lemma put_all_fold:
  "mem_lock d = Unlocked \<Longrightarrow> put_all kvs d = Some (d\<lparr>mem_db := fold (\<lambda>(k, v) m. put_entry k v m) kvs (mem_db d)\<rparr>)"
  by (induction kvs arbitrary: d) (auto simp: Mem_Put_def)

lemma batch_all_writes:
  "batch_lock b = Unlocked \<Longrightarrow> batch_all kvs b = Some (b\<lparr>writes := writes b @ kvs\<rparr>)"
  by (induction kvs arbitrary: b) (auto simp: batch_Put_def)

text \<open>
  On a well-formed database that nobody locks, \<open>Put\<close>, \<open>Get\<close> and \<open>Delete\<close> return, keep it well-formed
  and unlocked, and act on its entries as on a map.
\<close>

theorem MemDatabase_map:
  assumes "mem_ok d"
  shows "(\<exists>d'. Mem_Put k v d = Some d' \<and> mem_ok d' \<and> map_of (mem_db d') = (map_of (mem_db d))(k \<mapsto> v)) \<and>
    Mem_Get k d = Some (map_of (mem_db d) k, d) \<and>
    (\<exists>d'. Mem_Delete k d = Some d' \<and> mem_ok d' \<and> map_of (mem_db d') = (map_of (mem_db d))(k := None))"
  using assms by (auto simp: mem_ok_def Mem_Put_def Mem_Get_def Mem_Delete_def distinct_put_entry distinct_delete_entry delete_conv')

theorem MemDatabase_map_witness:
  "mem_ok \<lparr>mem_db = [([1], [2]), ([3], [4])], mem_lock = Unlocked\<rparr> \<and>
   Mem_Get [3] \<lparr>mem_db = [([1], [2]), ([3], [4])], mem_lock = Unlocked\<rparr> =
     Some (Some [4], \<lparr>mem_db = [([1], [2]), ([3], [4])], mem_lock = Unlocked\<rparr>)"
proof -
  have ok: "mem_ok \<lparr>mem_db = [([1], [2]), ([3], [4])], mem_lock = Unlocked\<rparr>" by (simp add: mem_ok_def)
  then show ?thesis using MemDatabase_map [OF ok, of "[3]"] by simp
qed

text \<open>
  C37. \<open>Set\<close> never returns: it holds the lock when it calls \<open>Put\<close>, which waits for the same lock.
\<close>

theorem Mem_Set_deadlocks: "Mem_Set k v d = None"
  by (cases "mem_lock d") (simp_all add: Mem_Set_def Mem_Put_def Lock_def)

text \<open>
  Collecting writes in a batch and writing the batch leaves the database in the state that the same
  \<open>Put\<close>s leave it in, later writes of a key winning.
\<close>

theorem batch_Write_puts:
  assumes "mem_ok d"
  shows "\<exists>b b' d'. batch_all kvs NewBatch = Some b \<and> batch_Write b d = Some (b', d') \<and> put_all kvs d = Some d' \<and>
    mem_ok d' \<and> map_of (mem_db d') = fold (\<lambda>(k, v) f. f(k \<mapsto> v)) kvs (map_of (mem_db d))"
  using assms put_entries [of "mem_db d" kvs]
  by (auto simp: batch_all_writes NewBatch_def batch_Write_def put_all_fold mem_ok_def)

theorem batch_Write_puts_witness:
  "\<exists>b b' d'. batch_all [([1], [2]), ([1], [3])] NewBatch = Some b \<and> batch_Write b NewMemDatabase = Some (b', d') \<and>
     map_of (mem_db d') [1] = Some [3]"
proof -
  have "mem_ok NewMemDatabase" by (simp add: mem_ok_def NewMemDatabase_def)
  from batch_Write_puts [OF this, of "[([1], [2]), ([1], [3])]"] show ?thesis by auto
qed

end
