(* ===== verification/Trie_Map.thy ===== *)
theory Trie_Map
  imports Trie_Proof Crypto Database_Mem
begin

text \<open>
  The trie as the node uses it, hashed with Keccak-256 and stored in a key-value database: a map
  from byte strings to non-empty byte strings with a canonical root hash, commitments that can be
  loaded again, and Merkle proofs. Every statement is about the operations of \<open>trie/trie.go\<close> and
  \<open>trie/proof.go\<close> at the digest of \<open>trie/hasher.go\<close>.
\<close>

section \<open>The interface of a byte map\<close>

text \<open>Sequences of operations, and their meaning on maps. An empty value removes the key.\<close>

datatype map_op = Lookup bytes | Assign bytes bytes | Remove bytes

fun run_map :: "(bytes \<Rightarrow> bytes) \<Rightarrow> map_op list \<Rightarrow> (bytes \<Rightarrow> bytes option) \<Rightarrow> bytes option list \<times> (bytes \<Rightarrow> bytes option)" where
  "run_map key [] m = ([], m)"
| "run_map key (Lookup k # ops) m = apfst ((#) (m (key k))) (run_map key ops m)"
| "run_map key (Assign k v # ops) m = run_map key ops (assign (key k) v m)"
| "run_map key (Remove k # ops) m = run_map key ops (assign (key k) [] m)"

fun run_ops :: "(bytes \<Rightarrow> 's \<Rightarrow> ('e + bytes option) \<times> 's) \<Rightarrow> (bytes \<Rightarrow> bytes \<Rightarrow> 's \<Rightarrow> 'e option \<times> 's) \<Rightarrow>
    (bytes \<Rightarrow> 's \<Rightarrow> 'e option \<times> 's) \<Rightarrow> map_op list \<Rightarrow> 's \<Rightarrow> ('e + bytes option list) \<times> 's" where
  "run_ops get upd del [] s = (Inr [], s)"
| "run_ops get upd del (Lookup k # ops) s =
     (case get k s of
        (Inl e, s) \<Rightarrow> (Inl e, s)
      | (Inr v, s) \<Rightarrow> apfst (map_ok ((#) v)) (run_ops get upd del ops s))"
| "run_ops get upd del (Assign k v # ops) s =
     (case upd k v s of (Some e, s) \<Rightarrow> (Inl e, s) | (None, s) \<Rightarrow> run_ops get upd del ops s)"
| "run_ops get upd del (Remove k # ops) s =
     (case del k s of (Some e, s) \<Rightarrow> (Inl e, s) | (None, s) \<Rightarrow> run_ops get upd del ops s)"

text \<open>
  A byte map keeps a map whose keys are the images of the caller's keys under \<open>key\<close>; the relation \<open>rep\<close>
  ties its state to that map. Lookups may change the state, not the map.
\<close>

locale byte_map =
  fixes get :: "bytes \<Rightarrow> 's \<Rightarrow> ('e + bytes option) \<times> 's" and upd :: "bytes \<Rightarrow> bytes \<Rightarrow> 's \<Rightarrow> 'e option \<times> 's"
    and del :: "bytes \<Rightarrow> 's \<Rightarrow> 'e option \<times> 's" and key :: "bytes \<Rightarrow> bytes"
    and rep :: "'s \<Rightarrow> (bytes \<Rightarrow> bytes option) \<Rightarrow> bool"
  assumes get_rep: "rep s m \<Longrightarrow> \<exists>s'. get k s = (Inr (m (key k)), s') \<and> rep s' m"
    and upd_rep: "rep s m \<Longrightarrow> \<exists>s'. upd k v s = (None, s') \<and> rep s' (assign (key k) v m)"
    and del_rep: "rep s m \<Longrightarrow> \<exists>s'. del k s = (None, s') \<and> rep s' (assign (key k) [] m)"
begin

lemma run_rep:
  "rep s m \<Longrightarrow> \<exists>s'. run_ops get upd del ops s = (Inr (fst (run_map key ops m)), s') \<and> rep s' (snd (run_map key ops m))"
proof (induction ops arbitrary: s m)
  case (Cons a ops)
  show ?case
  proof (cases a)
    case (Lookup k)
    obtain s1 where "get k s = (Inr (m (key k)), s1)" "rep s1 m" using get_rep [OF Cons.prems] by blast
    then show ?thesis using Cons.IH [of s1 m] Lookup by auto
  next
    case (Assign k v)
    obtain s1 where "upd k v s = (None, s1)" "rep s1 (assign (key k) v m)" using upd_rep [OF Cons.prems] by blast
    then show ?thesis using Cons.IH [of s1 "assign (key k) v m"] Assign by auto
  next
    case (Remove k)
    obtain s1 where "del k s = (None, s1)" "rep s1 (assign (key k) [] m)" using del_rep [OF Cons.prems] by blast
    then show ?thesis using Cons.IH [of s1 "assign (key k) [] m"] Remove by auto
  qed
qed simp

end

section \<open>The trie at Keccak-256\<close>

definition keccak :: "bytes \<Rightarrow> bytes" where
  \<comment> \<open>\<open>h.sha.Reset(); h.sha.Write(b); h.sha.Sum(nil)\<close>\<close>
  "keccak b = Keccak256 [b]"

interpretation kt: hash_fn keccak
  by unfold_locales (simp add: keccak_def)

interpretation kmem: node_store keccak map_of "\<lambda>k v m. (None, put_entry k v m)"
  by unfold_locales

interpretation ktrie: byte_map "TryGet db" "TryUpdate db" "TryDelete db" "\<lambda>k. k" "holds keccak db" for db
proof unfold_locales
  fix t m k v
  assume h: "holds keccak db t m"
  show "\<exists>t'. TryGet db k t = (Inr (m k), t') \<and> holds keccak db t' m"
    using kt.TryGet_holds [OF h, of k] by blast
  show "\<exists>t'. TryUpdate db k v t = (None, t') \<and> holds keccak db t' (assign k v m)"
    using kt.TryUpdate_holds [OF h, of k v] by blast
  show "\<exists>t'. TryDelete db k t = (None, t') \<and> holds keccak db t' (assign k [] m)"
    using kt.TryUpdate_holds [OF h, of k "[]"] unfolding kt.TryDelete_TryUpdate by blast
qed

text \<open>The zero hash and the empty root open an empty trie.\<close>

definition empty_trie :: trie where
  "empty_trie = \<lparr>root = NilNode, originalRoot = replicate 32 0, cachegen = 0, cachelimit = 0\<rparr>"

lemma New_zero: "New (replicate 32 0) odb = Inr empty_trie"
  by (simp add: New_def empty_trie_def)

lemma holds_empty: "holds keccak db empty_trie (\<lambda>k. None)"
  using holds_new [of keccak db empty_trie] by (simp add: empty_trie_def)

definition map_sized :: "(bytes \<Rightarrow> bytes option) \<Rightarrow> bool" where
  \<comment> \<open>no node of the trie of the map has an encoding of \<open>2^64\<close> bytes or more\<close>
  "map_sized m \<longleftrightarrow> (\<forall>p. ptrie_of p m \<longrightarrow> sized keccak p)"

definition map_root :: "(bytes \<Rightarrow> bytes option) \<Rightarrow> bytes" where
  "map_root m = root_hash keccak (THE p. ptrie_of p m)"

lemma map_root_eq: "ptrie_of p m \<Longrightarrow> map_root m = root_hash keccak p"
  using ptrie_of_unique by (auto simp: map_root_def intro!: arg_cong [where f = "root_hash keccak"] the_equality)

text \<open>
  C1. Any sequence of lookups, updates and deletions on a trie that holds a map, with nodes in memory or
  in the database, returns without an error the results of the same operations on the map, and
  leaves a trie that holds the final map.
\<close>

theorem trie_refines_map:
  assumes "holds keccak db t m"
  shows "\<exists>t'. run_ops (TryGet db) (TryUpdate db) (TryDelete db) ops t = (Inr (fst (run_map (\<lambda>k. k) ops m)), t') \<and>
    holds keccak db t' (snd (run_map (\<lambda>k. k) ops m))"
  by (rule ktrie.run_rep [OF assms])

theorem trie_refines_map_witness:
  "\<exists>t'. run_ops (TryGet Map.empty) (TryUpdate Map.empty) (TryDelete Map.empty)
      [Assign [1, 2] [7], Assign [1, 3] [8], Lookup [1, 2], Remove [1, 2], Lookup [1, 2], Lookup [1, 3]] empty_trie =
    (Inr [Some [7], None, Some [8]], t')"
  using trie_refines_map [OF holds_empty, of Map.empty "[Assign [1, 2] [7], Assign [1, 3] [8], Lookup [1, 2], Remove [1, 2], Lookup [1, 2], Lookup [1, 3]]"]
  by (auto simp: assign_def)

section \<open>Proofs of absence\<close>

lemmas stuck_shape =
  stuck.simps [of PNil, unfolded ptrie.case]
  stuck.simps [of "PVal v", unfolded ptrie.case]
  stuck.simps [of "PShort k c", unfolded ptrie.case]
  stuck.simps [of "PFull ps", unfolded ptrie.case] for v k c ps

lemma stuck_lookup: "fits_key p key \<Longrightarrow> stuck p key \<Longrightarrow> plookup p key = None"
proof (induction p arbitrary: key)
  case (PShort k c)
  then have w: "wfp (PShort k c)" "is_key key" by (auto simp: fits_key_def)
  then have "key \<noteq> []" by auto
  show ?case
  proof (cases "take (length k) key = k")
    case True
    then have key: "key = k @ drop (length k) key" by (metis append_take_drop_id)
    then have "fits_key c (drop (length k) key)" using fits_short w by metis
    then show ?thesis using PShort.IH PShort.prems(2) True \<open>key \<noteq> []\<close> by (simp add: stuck_shape)
  qed simp
next
  case (PFull ps)
  obtain x xs where key: "key = x # xs" "is_key (x # xs)" "wfp (PFull ps)"
    using PFull.prems(1) by (cases key) (auto simp: fits_key_def)
  then have "unat x < length ps" "fits_key (ps ! unat x) xs" using fits_full by blast+
  then show ?case using PFull.IH [of "ps ! unat x" xs] PFull.prems(2) key(1) by (simp add: stuck_shape)
qed (auto simp: stuck_shape fits_key_def split: if_split_asm)

text \<open>The verifier only gets stuck on a key that is a proper prefix of a longer one.\<close>

lemma other_entry:
  assumes "wfp (PFull ps)" "is_key (x # xs)" "ps ! unat x = PNil"
  obtains y ys v where "plookup (PFull ps) (y # ys) = Some v" "y \<noteq> x" "is_key (y # ys)"
proof -
  obtain a b where "a < 17" "b < 17" "a \<noteq> b" "ps ! a \<noteq> PNil" "ps ! b \<noteq> PNil" and len: "length ps = 17"
    using assms(1) by (auto simp: wfp_full nonnil_two)
  then obtain i where i: "i < 17" "ps ! i \<noteq> PNil" by blast
  obtain y :: byte and zs where y: "unat y = i" "is_key (y # zs)" using is_key_index [OF i(1)] by blast
  have "fits_key (ps ! i) zs" using fits_full [OF assms(1) y(2)] y(1) by simp
  then obtain ys v where ys: "plookup (ps ! i) ys = Some v" "ys = [] \<longleftrightarrow> zs = []" "zs \<noteq> [] \<longrightarrow> is_key ys"
    using wfp_has_key i(2) by blast
  have "is_key (y # ys)" using is_key_swap [of "[y]" zs ys] y(2) ys by simp
  moreover have "y \<noteq> x" using assms(3) i(2) y(1) by auto
  ultimately show thesis using that [of y ys v] ys(1) y(1) i(1) len by simp
qed

lemma stuck_prefix: "fits_key p key \<Longrightarrow> wfp p \<Longrightarrow> stuck p key \<Longrightarrow> \<exists>k v. plookup p k = Some v \<and> is_key k \<and> length key < length k"
proof (induction p arbitrary: key)
  case (PShort k c)
  then have k: "take (length k) key = k" "stuck c (drop (length k) key)" and ik: "is_key key"
    by (auto simp: stuck_shape fits_key_def split: if_split_asm)
  define r where "r = drop (length k) key"
  have key: "key = k @ r" using k(1) by (metis append_take_drop_id r_def)
  have f: "fits_key c r" "c \<noteq> PNil" using fits_short PShort.prems(2) ik key by blast+
  show ?case
  proof (cases "wfp c")
    case True
    then obtain l v where l: "plookup c l = Some v" "is_key l" "length r < length l"
      using PShort.IH [OF f(1)] k(2) by (auto simp: r_def)
    have "r \<noteq> []" using f True by (auto simp: fits_key_def dest: is_val_cases)
    moreover have "l \<noteq> []" using l(2) by auto
    ultimately have "is_key (k @ l)" using is_key_swap [of k r l] ik key l(2) by auto
    then show ?thesis using l key by (intro exI [of _ "k @ l"] exI [of _ v] conjI) simp_all
  next
    case False
    then obtain v where "c = PVal v" "r = []" using f is_val_cases by (auto simp: fits_key_def)
    then show ?thesis using k(2) by (simp add: r_def [symmetric] stuck_shape)
  qed
next
  case (PFull ps)
  obtain x xs where key: "key = x # xs" "is_key (x # xs)" using PFull.prems(1,2) by (cases key) (auto simp: fits_key_def)
  have x: "unat x < length ps" "fits_key (ps ! unat x) xs" using fits_full [OF PFull.prems(2) key(2)] by simp_all
  have st: "stuck (ps ! unat x) xs" using PFull.prems(3) x(1) by (simp add: key stuck_shape)
  consider "wfp (ps ! unat x)" | "ps ! unat x = PNil" "xs = []" | v where "ps ! unat x = PVal v" "xs = []"
    using x(2) st is_val_cases by (cases xs) (auto simp: fits_key_def stuck_shape)
  then show ?case
  proof cases
    case 1
    then obtain l v where l: "plookup (ps ! unat x) l = Some v" "is_key l" "length xs < length l"
      using PFull.IH [OF _ x(2) _ st] x(1) by auto
    have "xs \<noteq> []" using x(2) 1 by (auto simp: fits_key_def dest: is_val_cases)
    then have "is_key (x # l)" using key(2) l(2) by (auto simp: is_key_Cons)
    then show ?thesis using l x(1) key(1) by (intro exI [of _ "x # l"] exI [of _ v] conjI) simp_all
  next
    case 2
    then obtain y ys v where y: "plookup (PFull ps) (y # ys) = Some v" "y \<noteq> x" "is_key (y # ys)"
      using other_entry [OF PFull.prems(2) key(2)] by blast
    moreover have "x = 16" using key(2) 2(2) by (auto simp: is_key_Cons)
    ultimately have "ys \<noteq> []" by (auto simp: is_key_Cons)
    then show ?thesis using y key(1) 2(2) by (intro exI [of _ "y # ys"] exI [of _ v] conjI) auto
  next
    case 3
    then show ?thesis using st by (simp add: stuck_shape)
  qed
qed simp_all

section \<open>One entry\<close>

lemma ptrie_of_one:
  assumes "v \<noteq> []"
  shows "ptrie_of (PShort (compactHexDecode k) (PVal v)) (assign k v (\<lambda>k. None))"
proof -
  have "ptrie_of PNil (\<lambda>k. None)" by (simp add: ptrie_of_def)
  then have "ptrie_of (pinsert PNil (compactHexDecode k) (PVal v)) (assign k v (\<lambda>k. None))"
    using assms by (rule ptrie_of_insert)
  moreover have "compactHexDecode k \<noteq> []" using is_key_compactHexDecode [of k] by auto
  ultimately show ?thesis by (simp add: pinsert.simps)
qed

lemma one_encs: "encs keccak (PShort (compactHexDecode [1]) (PVal [2])) = [[0xC4, 0x82, 0x20, 1, 2]]"
  by code_simp

lemma map_sized_one: "map_sized (assign [1] [2] (\<lambda>k. None))"
proof -
  have "p = PShort (compactHexDecode [1]) (PVal [2])" if "ptrie_of p (assign [1] [2] (\<lambda>k. None))" for p
    using ptrie_of_unique [OF that ptrie_of_one] by simp
  moreover have "sized keccak (PShort (compactHexDecode [1]) (PVal [2]))" by (simp only: sized_def one_encs) simp
  ultimately show ?thesis unfolding map_sized_def by blast
qed

definition map_nodes :: "(bytes \<Rightarrow> bytes option) \<Rightarrow> bytes set" where
  \<comment> \<open>the encodings of the nodes of the trie of a map\<close>
  "map_nodes m = {x. \<exists>p. ptrie_of p m \<and> x \<in> set (encs keccak p)}"

lemma map_nodes_eq: "ptrie_of p m \<Longrightarrow> map_nodes m = set (encs keccak p)"
  using ptrie_of_unique by (auto simp: map_nodes_def)

lemma Hash_holds:
  assumes "holds keccak db t m" "map_sized m"
  shows "\<exists>t'. Hash keccak t = (Inr (map_root m), t') \<and> holds keccak db t' m"
proof -
  obtain p where p: "ptrie_of p m" "repr keccak db True (root t) p" using assms(1) by (auto simp: holds_def)
  obtain n where "Hash keccak t = (Inr (root_hash keccak p), t\<lparr>root := n\<rparr>)" "repr keccak db True n p"
    using kt.Hash_repr [OF _ p(2)] p(1) assms(2) by (auto simp: ptrie_of_def map_sized_def)
  then show ?thesis using p(1) map_root_eq by (auto simp: holds_def)
qed

text \<open>
  C2. The root hash depends on the contents only: two tries that hold the same map, however they were
  built, cached, committed or loaded, have the same hash, and computing it does not change the map.
\<close>

theorem Hash_canonical:
  assumes "holds keccak db t m" "holds keccak db' t' m" "map_sized m"
  shows "\<exists>t1 t2. Hash keccak t = (Inr (map_root m), t1) \<and> Hash keccak t' = (Inr (map_root m), t2) \<and>
    holds keccak db t1 m \<and> holds keccak db' t2 m"
  using assms Hash_holds by blast

lemma holds_update: "holds keccak db t m \<Longrightarrow> holds keccak db (snd (TryUpdate db k v t)) (assign k v m)"
  using kt.TryUpdate_holds [of db t m k v] by (metis snd_conv)

theorem Hash_canonical_witness:
  "\<exists>t1 t2. Hash keccak (snd (TryUpdate Map.empty [1] [2] empty_trie)) = (Inr (map_root (assign [1] [2] (\<lambda>k. None))), t1) \<and>
    Hash keccak (snd (TryUpdate Map.empty [3] [] (snd (TryUpdate Map.empty [1] [2] (snd (TryUpdate Map.empty [3] [4] empty_trie)))))) =
      (Inr (map_root (assign [1] [2] (\<lambda>k. None))), t2)"
proof -
  have "assign [3] [] (assign [1] [2] (assign [3] [4] (\<lambda>k. None))) = assign [1] [2] (\<lambda>k. None)"
    by (simp add: assign_def fun_eq_iff)
  then have "holds keccak Map.empty (snd (TryUpdate Map.empty [3] [] (snd (TryUpdate Map.empty [1] [2] (snd (TryUpdate Map.empty [3] [4] empty_trie))))))
      (assign [1] [2] (\<lambda>k. None))"
    using holds_update [OF holds_update [OF holds_update [OF holds_empty]], of Map.empty "[3]" "[]" "[1]" "[2]" "[3]" "[4]"] by simp
  from Hash_canonical [OF holds_update [OF holds_empty] this map_sized_one] show ?thesis by blast
qed

lemma New_stored:
  assumes "ptrie_of p m" "stored keccak g p" "p \<noteq> PNil \<Longrightarrow> saved keccak g p"
  shows "\<exists>t. New (map_root m) (Some g) = Inr t \<and>
    (if map_root m \<in> {replicate 32 0, emptyRoot} then root t = NilNode else holds keccak g t m)"
proof (cases "map_root m \<in> {replicate 32 0, emptyRoot}")
  case True
  then show ?thesis by (auto simp: New_def)
next
  case False
  have "p = PNil \<or> wfp p" using assms(1) by (auto simp: ptrie_of_def)
  with False obtain t where "New (root_hash keccak p) (Some g) = Inr t" "repr keccak g True (root t) p"
    using kt.New_repr [OF _ assms(2,3)] map_root_eq [OF assms(1)] by auto
  then show ?thesis using False assms(1) map_root_eq [OF assms(1)] by (auto simp: holds_def)
qed

text \<open>
  C3. Committing a trie to the in-memory database returns the root hash of its map and leaves a database
  from which \<open>New\<close>, given that hash, opens a trie that holds the same map (the empty trie when the
  hash is one of the two that stand for it), while everything stored before can still be read. The
  node encodings may not collide with each other or with the keys in use.
\<close>

theorem CommitTo_New:
  assumes "holds keccak (map_of d) t m" "map_sized m" "compat keccak map_of (map_nodes m) (Some d)"
  shows "\<exists>t1 d1 t2. CommitTo keccak (\<lambda>k v m. (None, put_entry k v m)) t d = (Inr (map_root m), t1, Some d1) \<and>
    holds keccak (map_of d1) t1 m \<and> extends (map_of d) (map_of d1) \<and>
    New (map_root m) (Some (map_of d1)) = Inr t2 \<and>
    (if map_root m \<in> {replicate 32 0, emptyRoot} then root t2 = NilNode else holds keccak (map_of d1) t2 m)"
proof -
  obtain p where p: "ptrie_of p m" "repr keccak (map_of d) True (root t) p" using assms(1) by (auto simp: holds_def)
  have w: "p = PNil \<or> wfp p" "sized keccak p" "compat keccak map_of (set (encs keccak p)) (Some d)"
    using p(1) assms(2,3) map_nodes_eq [OF p(1)] by (auto simp: ptrie_of_def map_sized_def)
  obtain n d1 where c: "CommitTo keccak (\<lambda>k v m. (None, put_entry k v m)) t d =
      (Inr (root_hash keccak p), t\<lparr>root := n, cachegen := cachegen t + 1\<rparr>, Some d1)"
    "repr keccak (map_of d1) True n p" "extends (map_of d) (map_of d1)" "stored keccak (map_of d1) p"
    "p \<noteq> PNil \<Longrightarrow> saved keccak (map_of d1) p"
    using kmem.CommitTo_repr [OF w(1) p(2) w(2,3)] by blast
  have "holds keccak (map_of d1) (t\<lparr>root := n, cachegen := cachegen t + 1\<rparr>) m"
    using p(1) c(2) by (auto simp: holds_def)
  then show ?thesis using c(1,3) New_stored [OF p(1) c(4,5)] map_root_eq [OF p(1)] by auto
qed

theorem CommitTo_New_witness:
  "\<exists>t1 d1 t2. CommitTo keccak (\<lambda>k v m. (None, put_entry k v m)) (snd (TryUpdate (map_of []) [1] [2] empty_trie)) [] =
      (Inr (map_root (assign [1] [2] (\<lambda>k. None))), t1, Some d1) \<and>
    New (map_root (assign [1] [2] (\<lambda>k. None))) (Some (map_of d1)) = Inr t2"
proof -
  have "compat keccak map_of (map_nodes (assign [1] [2] (\<lambda>k. None))) (Some [])"
    using map_nodes_eq [OF ptrie_of_one, of "[2]" "[1]"] by (simp add: one_encs compat_def)
  from CommitTo_New [OF holds_update [OF holds_empty] map_sized_one this] show ?thesis by blast
qed

section \<open>Merkle proofs\<close>

text \<open>
  C9. A Merkle proof that \<open>VerifyProof\<close> accepts against the root hash of a non-empty map tells the truth:
  its result is the value of the key in the map, or nil for an absent key. The elements of the proof
  may not collide with nodes of the trie.
\<close>

theorem VerifyProof_truthful:
  assumes "holds keccak db t m" "map_sized m" "m k0 \<noteq> None"
    "\<forall>buf \<in> set pf. \<forall>x \<in> map_nodes m. keccak buf = keccak x \<longrightarrow> buf = x"
    "VerifyProof keccak (map_root m) key pf = Inr r"
  shows "r = m key"
proof -
  obtain p where p: "ptrie_of p m" using assms(1) by (auto simp: holds_def)
  then have "wfp p" using assms(3) by (auto simp: ptrie_of_def)
  then have "r = plookup p (compactHexDecode key)"
    using kt.VerifyProof_sound [of p pf key r] p assms(2,4,5) map_root_eq [OF p] map_nodes_eq [OF p]
    by (auto simp: map_sized_def)
  then show ?thesis using p by (simp add: ptrie_of_def)
qed

text \<open>
  C26. The proof that \<open>Prove\<close> builds for a key of the trie is accepted by \<open>VerifyProof\<close> with the value of
  the key.
\<close>

theorem Prove_accepted:
  assumes "holds keccak db t m" "map_sized m" "m key = Some v"
  shows "\<exists>pf. Prove keccak db t key = Inr (Some pf) \<and> VerifyProof keccak (map_root m) key pf = Inr (Some v)"
proof -
  obtain p where p: "ptrie_of p m" "repr keccak db True (root t) p" using assms(1) by (auto simp: holds_def)
  have l: "plookup p (compactHexDecode key) = Some v" using p(1) assms(3) by (simp add: ptrie_of_def)
  then have "wfp p" using p(1) by (auto simp: ptrie_of_def)
  moreover have "\<not> stuck p (compactHexDecode key)" using stuck_lookup [OF ptrie_of_fits [OF p(1)]] l by auto
  moreover have "sized keccak p" using p(1) assms(2) by (simp add: map_sized_def)
  ultimately show ?thesis
    using kt.VerifyProof_Prove [OF _ p(2), of key] l map_root_eq [OF p(1)] by simp
qed

text \<open>
  C27. Among keys of one length, as the hashed keys of a secure trie are, the proof that \<open>Prove\<close> builds
  for an absent key of that length is accepted by \<open>VerifyProof\<close> with the result nil.
\<close>

theorem Prove_absent_accepted:
  assumes "holds keccak db t m" "map_sized m" "m key = None" "m k0 \<noteq> None"
    "\<forall>k. m k \<noteq> None \<longrightarrow> length k = length key"
  shows "\<exists>pf. Prove keccak db t key = Inr (Some pf) \<and> VerifyProof keccak (map_root m) key pf = Inr None"
proof -
  obtain p where p: "ptrie_of p m" "repr keccak db True (root t) p" using assms(1) by (auto simp: holds_def)
  have w: "wfp p" using p(1) assms(4) by (auto simp: ptrie_of_def)
  have "\<not> stuck p (compactHexDecode key)"
  proof
    assume "stuck p (compactHexDecode key)"
    then obtain k v where k: "plookup p k = Some v" "length (compactHexDecode key) < length k"
      using stuck_prefix [OF ptrie_of_fits [OF p(1)] w] by blast
    then obtain b where "k = compactHexDecode b" "m b = Some v" using p(1) unfolding ptrie_of_def by (metis option.distinct(1))
    then show False using k(2) assms(5) by (auto simp: length_compactHexDecode)
  qed
  moreover have "sized keccak p" using p(1) assms(2) by (simp add: map_sized_def)
  moreover have "plookup p (compactHexDecode key) = None" using p(1) assms(3) by (simp add: ptrie_of_def)
  ultimately show ?thesis
    using kt.VerifyProof_Prove [OF w p(2), of key] map_root_eq [OF p(1)] by simp
qed

theorem VerifyProof_truthful_witness:
  "VerifyProof keccak (map_root (assign [1] [2] (\<lambda>k. None))) [1] [[0xC4, 0x82, 0x20, 1, 2]] = Inr (Some [2])"
proof -
  let ?p = "PShort (compactHexDecode [1]) (PVal [2])" and ?m = "assign [1] [2] (\<lambda>k. None)"
  have p: "ptrie_of ?p ?m" using ptrie_of_one [of "[2]" "[1]"] by simp
  have w: "wfp ?p" using p by (auto simp: ptrie_of_def)
  have enc: "penc keccak ?p = [0xC4, 0x82, 0x20, 1, 2]" using one_encs by simp
  have "map (penc keccak) (?p # filter (big keccak) (tl (chain ?p (compactHexDecode [1])))) = [[0xC4, 0x82, 0x20, 1, 2]]"
    by code_simp
  moreover have "\<not> stuck ?p (compactHexDecode [1])" by code_simp
  ultimately have "VerifyProof keccak (map_root ?m) [1] [[0xC4, 0x82, 0x20, 1, 2]] = Inr (plookup ?p (compactHexDecode [1]))"
    using kt.verify_complete [OF w ptrie_of_fits [OF p], of 0 "[1]"] map_sized_one p map_root_eq [OF p]
    by (simp add: map_sized_def root_hash_def VerifyProof_def del: wfp.simps)
  moreover from this have "plookup ?p (compactHexDecode [1]) = ?m [1]"
    using map_nodes_eq [OF p]
    by (intro VerifyProof_truthful [OF holds_update [OF holds_empty] map_sized_one, of "[1]" "[[0xC4, 0x82, 0x20, 1, 2]]"])
      (simp_all add: enc assign_def)
  ultimately show ?thesis by (simp add: assign_def)
qed

theorem Prove_accepted_witness:
  "\<exists>pf. Prove keccak Map.empty (snd (TryUpdate Map.empty [1] [2] empty_trie)) [1] = Inr (Some pf) \<and>
    VerifyProof keccak (map_root (assign [1] [2] (\<lambda>k. None))) [1] pf = Inr (Some [2])"
  by (rule Prove_accepted [OF holds_update [OF holds_empty] map_sized_one]) (simp add: assign_def)

theorem Prove_absent_accepted_witness:
  "\<exists>pf. Prove keccak Map.empty (snd (TryUpdate Map.empty [1] [2] empty_trie)) [9] = Inr (Some pf) \<and>
    VerifyProof keccak (map_root (assign [1] [2] (\<lambda>k. None))) [9] pf = Inr None"
  by (rule Prove_absent_accepted [OF holds_update [OF holds_empty] map_sized_one, of _ "[1]"]) (simp_all add: assign_def)

text \<open>
  C38. With keys of different lengths the verifier panics on an honest proof of absence: in the trie of the
  keys 0x1234 and 0x1256 the key 0x12 ends at a branch without a value.
\<close>

theorem Prove_absent_panics:
  "\<exists>t pf. run_ops (TryGet db) (TryUpdate db) (TryDelete db) [Assign [0x12, 0x34] [1], Assign [0x12, 0x56] [2]] empty_trie = (Inr [], t) \<and>
    Prove keccak db t [0x12] = Inr (Some pf) \<and>
    VerifyProof keccak (map_root (snd (run_map (\<lambda>k. k) [Assign [0x12, 0x34] [1], Assign [0x12, 0x56] [2]] (\<lambda>k. None)))) [0x12] pf =
      Inl ProofPanic"
proof -
  let ?m = "assign [0x12, 0x56] [2] (assign [0x12, 0x34] [1] (\<lambda>k. None))"
  define p where "p = pinsert (PShort (compactHexDecode [0x12, 0x34]) (PVal [1])) (compactHexDecode [0x12, 0x56]) (PVal [2])"
  have p: "ptrie_of p ?m" unfolding p_def by (intro ptrie_of_insert ptrie_of_one) simp_all
  obtain t where t: "run_ops (TryGet db) (TryUpdate db) (TryDelete db) [Assign [0x12, 0x34] [1], Assign [0x12, 0x56] [2]] empty_trie = (Inr [], t)"
    "holds keccak db t ?m"
    using ktrie.run_rep [OF holds_empty, of db "[Assign [0x12, 0x34] [1], Assign [0x12, 0x56] [2]]"] by auto
  obtain p' where p': "ptrie_of p' ?m" "repr keccak db True (root t) p'" using t(2) by (auto simp: holds_def)
  then have r: "repr keccak db True (root t) p" using ptrie_of_unique [OF p'(1) p] by simp
  have "p \<noteq> PNil" unfolding p_def by code_simp
  then have w: "wfp p" using p by (simp add: ptrie_of_def)
  have "list_all (\<lambda>x. length x < 100) (encs keccak p)" unfolding p_def by code_simp
  then have s: "sized keccak p" by (auto simp: sized_def list_all_iff)
  have "stuck p (compactHexDecode [0x12])" unfolding p_def by code_simp
  then show ?thesis using kt.VerifyProof_Prove [OF w r s, of "[0x12]"] t(1) map_root_eq [OF p] by auto
qed

end
