(* ===== verification/Trie_Secure.thy ===== *)
theory Trie_Secure
  imports Trie_Map
begin

text \<open>
  The secure trie (\<open>trie/secure_trie.go\<close>): a trie under hashed keys, with a cache of the keys'
  preimages that \<open>CommitTo\<close> writes to the database beside the nodes.
\<close>

section \<open>Operations\<close>

definition secureKeyPrefix :: bytes where
  \<comment> \<open>\<open>secure-key-\<close>\<close>
  "secureKeyPrefix = [115, 101, 99, 117, 114, 101, 45, 107, 101, 121, 45]"

text \<open>
  The pointer \<open>secKeyCacheOwner\<close> is only compared with the receiver. A trie has an address \<open>self\<close>; a copy of
  the struct has another one, and the owner it was copied with. The cache is an association list; Go
  visits it in an unspecified order.
\<close>

record SecureTrie =
  sec_trie :: trie
  secKeyCache :: "kv list"
  secKeyCacheOwner :: "nat option"
  self :: nat

definition NewSecure :: "nat \<Rightarrow> bytes \<Rightarrow> trie_db option \<Rightarrow> uint16 \<Rightarrow> trie_error + SecureTrie" where
  "NewSecure addr rootHash odb limit =
     (case odb of
        None \<Rightarrow> Inl TriePanic
      | Some g \<Rightarrow>
          (case New rootHash (Some g) of
             Inl e \<Rightarrow> Inl e
           | Inr t \<Rightarrow>
               Inr \<lparr>sec_trie = SetCacheLimit limit t, secKeyCache = [], secKeyCacheOwner = None, self = addr\<rparr>))"

definition hashKey :: "bytes \<Rightarrow> bytes" where
  "hashKey key = keccak key"

definition secKey :: "bytes \<Rightarrow> bytes" where
  "secKey key = secureKeyPrefix @ key"

definition getSecKeyCache :: "SecureTrie \<Rightarrow> SecureTrie" where
  \<comment> \<open>the cache is the field \<open>secKeyCache\<close> afterwards\<close>
  "getSecKeyCache t =
     (if Some (self t) \<noteq> secKeyCacheOwner t then t\<lparr>secKeyCacheOwner := Some (self t), secKeyCache := []\<rparr> else t)"

definition sec_TryGet :: "trie_db \<Rightarrow> bytes \<Rightarrow> SecureTrie \<Rightarrow> (trie_error + bytes option) \<times> SecureTrie" where
  "sec_TryGet g key t =
     (case TryGet g (hashKey key) (sec_trie t) of (r, t') \<Rightarrow> (r, t\<lparr>sec_trie := t'\<rparr>))"

definition sec_Get :: "trie_db \<Rightarrow> bytes \<Rightarrow> SecureTrie \<Rightarrow> (trie_error + bytes option) \<times> SecureTrie" where
  "sec_Get g key t =
     (case sec_TryGet g key t of
        (Inl e, t') \<Rightarrow> (case unless_panic e of Some p \<Rightarrow> Inl p | None \<Rightarrow> Inr None, t')
      | (Inr v, t') \<Rightarrow> (Inr v, t'))"

definition sec_TryUpdate :: "trie_db \<Rightarrow> bytes \<Rightarrow> bytes \<Rightarrow> SecureTrie \<Rightarrow> trie_error option \<times> SecureTrie" where
  "sec_TryUpdate g key value t =
     (case TryUpdate g (hashKey key) value (sec_trie t) of
        (Some e, t') \<Rightarrow> (Some e, t\<lparr>sec_trie := t'\<rparr>)
      | (None, t') \<Rightarrow>
          let t = getSecKeyCache (t\<lparr>sec_trie := t'\<rparr>)
          in (None, t\<lparr>secKeyCache := put_entry (hashKey key) key (secKeyCache t)\<rparr>))"

definition sec_Update :: "trie_db \<Rightarrow> bytes \<Rightarrow> bytes \<Rightarrow> SecureTrie \<Rightarrow> trie_error option \<times> SecureTrie" where
  "sec_Update g key value t = (case sec_TryUpdate g key value t of (err, t') \<Rightarrow> (Option.bind err unless_panic, t'))"

definition sec_TryDelete :: "trie_db \<Rightarrow> bytes \<Rightarrow> SecureTrie \<Rightarrow> trie_error option \<times> SecureTrie" where
  "sec_TryDelete g key t =
     (let t = getSecKeyCache t;
          t = t\<lparr>secKeyCache := AList.delete (hashKey key) (secKeyCache t)\<rparr>
      in case TryDelete g (hashKey key) (sec_trie t) of (r, t') \<Rightarrow> (r, t\<lparr>sec_trie := t'\<rparr>))"

definition sec_Delete :: "trie_db \<Rightarrow> bytes \<Rightarrow> SecureTrie \<Rightarrow> trie_error option \<times> SecureTrie" where
  "sec_Delete g key t = (case sec_TryDelete g key t of (err, t') \<Rightarrow> (Option.bind err unless_panic, t'))"

definition GetKey :: "trie_db \<Rightarrow> bytes \<Rightarrow> SecureTrie \<Rightarrow> bytes option \<times> SecureTrie" where
  "GetKey g shaKey t =
     (let t = getSecKeyCache t
      in case map_of (secKeyCache t) shaKey of
           Some key \<Rightarrow> (Some key, t)
         | None \<Rightarrow> (g (secKey shaKey), t))"

fun put_preimages :: "'d writer \<Rightarrow> kv list \<Rightarrow> 'd \<Rightarrow> trie_error option \<times> 'd" where
  "put_preimages put [] d = (None, d)"
| "put_preimages put ((hk, key) # kvs) d =
     (case put (secKey hk) key d of (Some e, d) \<Rightarrow> (Some e, d) | (None, d) \<Rightarrow> put_preimages put kvs d)"

definition sec_CommitTo :: "'d writer \<Rightarrow> SecureTrie \<Rightarrow> 'd \<Rightarrow> (trie_error + bytes) \<times> SecureTrie \<times> 'd option" where
  "sec_CommitTo put t d =
     (let t = getSecKeyCache t
      in case put_preimages put (secKeyCache t) d of
           (Some e, d) \<Rightarrow> (Inl e, t, Some d)
         | (None, d) \<Rightarrow>
             let t = t\<lparr>secKeyCache := []\<rparr>
             in (case CommitTo keccak put (sec_trie t) d of (r, t', d) \<Rightarrow> (r, t\<lparr>sec_trie := t'\<rparr>, d)))"

definition sec_Commit :: "'d writer \<Rightarrow> SecureTrie \<Rightarrow> 'd \<Rightarrow> (trie_error + bytes) \<times> SecureTrie \<times> 'd option" where
  \<comment> \<open>to the database of the trie, which is not nil\<close>
  "sec_Commit put t d = sec_CommitTo put t d"

definition sec_Hash :: "SecureTrie \<Rightarrow> (trie_error + bytes) \<times> SecureTrie" where
  "sec_Hash t = (case Hash keccak (sec_trie t) of (r, t') \<Rightarrow> (r, t\<lparr>sec_trie := t'\<rparr>))"

definition sec_Root :: "SecureTrie \<Rightarrow> (trie_error + bytes) \<times> SecureTrie" where
  "sec_Root t = (case Root keccak (sec_trie t) of (r, t') \<Rightarrow> (r, t\<lparr>sec_trie := t'\<rparr>))"

section \<open>A map under hashed keys\<close>

definition sec_holds :: "trie_db \<Rightarrow> SecureTrie \<Rightarrow> (bytes \<Rightarrow> bytes option) \<Rightarrow> bool" where
  \<comment> \<open>\<open>m\<close> is the map from hashed keys\<close>
  "sec_holds g t m \<longleftrightarrow> holds keccak g (sec_trie t) m"

definition cache_ok :: "SecureTrie \<Rightarrow> bool" where
  \<comment> \<open>the cache the trie owns maps digests to their preimages\<close>
  "cache_ok t \<longleftrightarrow> (\<forall>(hk, k) \<in> set (secKeyCache (getSecKeyCache t)). hk = keccak k) \<and>
     distinct (map fst (secKeyCache (getSecKeyCache t)))"

lemma getSecKeyCache_simps [simp]:
  "sec_trie (getSecKeyCache t) = sec_trie t" "self (getSecKeyCache t) = self t"
  "secKeyCacheOwner (getSecKeyCache t) = Some (self t)" "getSecKeyCache (getSecKeyCache t) = getSecKeyCache t"
  "getSecKeyCache (t\<lparr>sec_trie := u\<rparr>) = (getSecKeyCache t)\<lparr>sec_trie := u\<rparr>"
  by (auto simp: getSecKeyCache_def)

lemma getSecKeyCache_owner: "secKeyCacheOwner t = Some (self t) \<Longrightarrow> getSecKeyCache t = t"
  by (simp add: getSecKeyCache_def)

lemma set_put_entry: "set (put_entry k v m) \<subseteq> Set.insert (k, v) (set m)"
  by (induction m) (auto simp: put_entry_def)

lemma set_delete_entry: "set (AList.delete k m) \<subseteq> set m"
  by (auto simp: AList.delete_eq)

interpretation secure: byte_map "sec_TryGet g" "sec_TryUpdate g" "sec_TryDelete g" keccak "sec_holds g" for g
proof unfold_locales
  fix t m k v
  assume h: "sec_holds g t m"
  then have h: "holds keccak g (sec_trie t) m" by (simp add: sec_holds_def)
  show "\<exists>t'. sec_TryGet g k t = (Inr (m (keccak k)), t') \<and> sec_holds g t' m"
    using ktrie.get_rep [OF h, of "keccak k"] by (auto simp: sec_TryGet_def hashKey_def sec_holds_def)
  show "\<exists>t'. sec_TryUpdate g k v t = (None, t') \<and> sec_holds g t' (assign (keccak k) v m)"
    using ktrie.upd_rep [OF h, of "keccak k" v] by (auto simp: sec_TryUpdate_def hashKey_def sec_holds_def Let_def)
  show "\<exists>t'. sec_TryDelete g k t = (None, t') \<and> sec_holds g t' (assign (keccak k) [] m)"
    using ktrie.del_rep [OF h, of "keccak k"] by (auto simp: sec_TryDelete_def hashKey_def sec_holds_def Let_def)
qed

text \<open>
  C34. A secure trie answers any sequence of lookups, updates and deletions like a map under the Keccak
  digests of the keys.
\<close>

theorem secure_refines_map:
  assumes "sec_holds g t m"
  shows "\<exists>t'. run_ops (sec_TryGet g) (sec_TryUpdate g) (sec_TryDelete g) ops t = (Inr (fst (run_map keccak ops m)), t') \<and>
    sec_holds g t' (snd (run_map keccak ops m))"
  by (rule secure.run_rep [OF assms])

lemma NewSecure_zero:
  "\<exists>t. NewSecure a (replicate 32 0) (Some g) l = Inr t \<and> sec_holds g t (\<lambda>k. None) \<and> secKeyCache t = []"
proof -
  have "holds keccak g (SetCacheLimit l empty_trie) (\<lambda>k. None)"
    using holds_new [of keccak g "SetCacheLimit l empty_trie"] by (simp add: SetCacheLimit_def empty_trie_def)
  then show ?thesis by (auto simp: NewSecure_def New_zero sec_holds_def)
qed

theorem secure_refines_map_witness:
  "\<exists>t t'. NewSecure 0 (replicate 32 0) (Some Map.empty) 0 = Inr t \<and>
     run_ops (sec_TryGet Map.empty) (sec_TryUpdate Map.empty) (sec_TryDelete Map.empty) [Assign [1, 2] [7], Lookup [1, 2]] t = (Inr [Some [7]], t')"
proof -
  obtain t where t: "NewSecure 0 (replicate 32 0) (Some Map.empty) 0 = Inr t" "sec_holds Map.empty t (\<lambda>k. None)"
    using NewSecure_zero by blast
  then show ?thesis using secure_refines_map [OF t(2), of "[Assign [1, 2] [7], Lookup [1, 2]]"] by (auto simp: assign_def)
qed

lemma sec_holds_ops:
  assumes "sec_holds g t m"
  shows "\<exists>t'. sec_Get g k t = (Inr (m (keccak k)), t') \<and> sec_holds g t' m"
    and "\<exists>t'. sec_Update g k v t = (None, t') \<and> sec_holds g t' (assign (keccak k) v m)"
    and "\<exists>t'. sec_Delete g k t = (None, t') \<and> sec_holds g t' (assign (keccak k) [] m)"
  using secure.get_rep [OF assms, of k] secure.upd_rep [OF assms, of k v] secure.del_rep [OF assms, of k]
  by (auto simp: sec_Get_def sec_Update_def sec_Delete_def)

section \<open>Preimages\<close>

lemma cache_ok_owned:
  "secKeyCacheOwner t = Some (self t) \<Longrightarrow>
   cache_ok t \<longleftrightarrow> (\<forall>(hk, k) \<in> set (secKeyCache t). hk = keccak k) \<and> distinct (map fst (secKeyCache t))"
  by (simp add: cache_ok_def getSecKeyCache_owner)

lemma cache_ok_put:
  assumes "cache_ok t"
  shows "cache_ok ((getSecKeyCache t)\<lparr>sec_trie := u, secKeyCache := put_entry (keccak k) k (secKeyCache (getSecKeyCache t))\<rparr>)"
  using assms set_put_entry [of "keccak k" k "secKeyCache (getSecKeyCache t)"]
  by (auto simp: cache_ok_owned cache_ok_def [of t] distinct_put_entry)

lemma cache_ok_delete:
  assumes "cache_ok t"
  shows "cache_ok ((getSecKeyCache t)\<lparr>secKeyCache := AList.delete hk (secKeyCache (getSecKeyCache t)), sec_trie := u\<rparr>)"
  using assms set_delete_entry [of hk "secKeyCache (getSecKeyCache t)"]
  by (auto simp: cache_ok_owned cache_ok_def [of t] distinct_delete_entry)

lemma cache_ok_trie [simp]: "cache_ok (t\<lparr>sec_trie := u\<rparr>) \<longleftrightarrow> cache_ok t" "cache_ok (getSecKeyCache t) \<longleftrightarrow> cache_ok t"
  by (simp_all add: cache_ok_def)

lemma cache_ok_copy: "cache_ok (t\<lparr>self := a\<rparr>) \<or> Some a = secKeyCacheOwner t"
  by (auto simp: cache_ok_def getSecKeyCache_def)

text \<open>
  C35. Every operation keeps the invariant that the cache a secure trie owns maps Keccak digests to their
  preimages, one entry per digest, whatever the trie operations return; and so does copying the
  struct to another address.
\<close>

theorem cache_ok_invariant:
  assumes "cache_ok t"
  shows "cache_ok (snd (sec_TryGet g key t)) \<and> cache_ok (snd (sec_TryUpdate g key value t)) \<and>
    cache_ok (snd (sec_TryDelete g key t)) \<and> cache_ok (snd (GetKey g key t)) \<and>
    cache_ok (fst (snd (sec_CommitTo put t d))) \<and> cache_ok (snd (sec_Hash t)) \<and>
    (secKeyCacheOwner t \<noteq> Some a \<longrightarrow> cache_ok (t\<lparr>self := a\<rparr>))"
proof (intro conjI)
  show "cache_ok (snd (sec_TryUpdate g key value t))"
    using assms cache_ok_put [OF assms]
    by (auto simp: sec_TryUpdate_def hashKey_def Let_def split: prod.split option.split)
  show "cache_ok (snd (sec_TryDelete g key t))"
    using cache_ok_delete [OF assms] by (auto simp: sec_TryDelete_def Let_def split: prod.split)
  show "cache_ok (fst (snd (sec_CommitTo put t d)))"
    using assms by (auto simp: sec_CommitTo_def Let_def cache_ok_owned cache_ok_def [of t] split: prod.split option.split)
  show "secKeyCacheOwner t \<noteq> Some a \<longrightarrow> cache_ok (t\<lparr>self := a\<rparr>)"
    using cache_ok_copy by metis
qed (use assms in \<open>auto simp: sec_TryGet_def sec_Hash_def GetKey_def Let_def split: prod.split option.split\<close>)

theorem cache_ok_invariant_witness:
  "\<exists>t. NewSecure 0 (replicate 32 0) (Some Map.empty) 0 = Inr t \<and> cache_ok (snd (sec_TryUpdate Map.empty [1] [2] t))"
proof -
  obtain t where t: "NewSecure 0 (replicate 32 0) (Some Map.empty) 0 = Inr t" "secKeyCache t = []" using NewSecure_zero by blast
  then have "cache_ok t" by (simp add: cache_ok_def getSecKeyCache_def)
  then show ?thesis using cache_ok_invariant [of t Map.empty "[1]" "[2]" map_put] t(1) by blast
qed

subsection \<open>Committing\<close>

text \<open>A trie only reads the database at digests.\<close>

definition agree :: "(bytes \<Rightarrow> bytes) \<Rightarrow> trie_db \<Rightarrow> trie_db \<Rightarrow> bool" where
  "agree H g g' \<longleftrightarrow> (\<forall>x. g' (H x) = g (H x))"

lemma saved_agree: "agree H g g' \<Longrightarrow> saved H g' p \<longleftrightarrow> saved H g p"
  by (simp add: agree_def saved_def)

lemma stored_agree: "agree H g g' \<Longrightarrow> stored H g' p \<longleftrightarrow> stored H g p"
  by (induction p) (auto simp: list_all_iff saved_agree)

lemma flag_ok_agree: "agree H g g' \<Longrightarrow> flag_ok H g' tp fl p \<longleftrightarrow> flag_ok H g tp fl p"
  by (simp only: flag_ok_def saved_agree stored_agree)

lemma repr_agree: "repr H g tp n p \<Longrightarrow> agree H g g' \<Longrightarrow> repr H g' tp n p"
proof (induction rule: repr.induct)
  case (repr_full cs ps tp fl)
  then have "list_all2 (repr H g' False) cs ps" by (auto elim: list_all2_mono)
  then show ?case using repr_full repr.repr_full flag_ok_agree by blast
qed (auto intro: repr.intros simp: flag_ok_agree saved_agree stored_agree)

abbreviation mem_put :: "bytes \<Rightarrow> bytes \<Rightarrow> kv list \<Rightarrow> trie_error option \<times> kv list" where
  "mem_put \<equiv> \<lambda>k v m. (None, put_entry k v m)"

lemma secKey_inj [simp]: "secKey a = secKey b \<longleftrightarrow> a = b"
  by (simp add: secKey_def)

lemma secKey_not_digest: "length hk = 32 \<Longrightarrow> secKey hk \<noteq> keccak x"
proof
  assume "length hk = 32" "secKey hk = keccak x"
  then have "length (secKey hk) = 32" by (simp add: kt.length_H)
  then show False using \<open>length hk = 32\<close> by (simp add: secKey_def secureKeyPrefix_def)
qed

lemma put_preimages_mem:
  assumes "distinct (map fst kvs)" "\<forall>(hk, k) \<in> set kvs. length hk = 32"
  shows "\<exists>d'. put_preimages mem_put kvs d = (None, d') \<and> agree keccak (map_of d) (map_of d') \<and>
    (\<forall>(hk, k) \<in> set kvs. map_of d' (secKey hk) = Some k) \<and>
    (\<forall>hk. hk \<notin> fst ` set kvs \<longrightarrow> map_of d' (secKey hk) = map_of d (secKey hk))"
  using assms
proof (induction kvs arbitrary: d)
  case Nil
  then show ?case by (simp add: agree_def)
next
  case (Cons kv kvs)
  obtain hk k where kv: "kv = (hk, k)" by fastforce
  define d0 where "d0 = put_entry (secKey hk) k d"
  obtain d' where d': "put_preimages mem_put kvs d0 = (None, d')" "agree keccak (map_of d0) (map_of d')"
    "\<forall>(hk, k) \<in> set kvs. map_of d' (secKey hk) = Some k"
    "\<forall>hk. hk \<notin> fst ` set kvs \<longrightarrow> map_of d' (secKey hk) = map_of d0 (secKey hk)"
    using Cons.IH [of d0] Cons.prems by auto
  have "agree keccak (map_of d) (map_of d0)"
    using Cons.prems(2) secKey_not_digest [of hk] by (auto simp: agree_def d0_def kv dest: sym)
  then have "agree keccak (map_of d) (map_of d')" using d'(2) by (simp add: agree_def)
  moreover have "hk \<notin> fst ` set kvs" using Cons.prems(1) by (simp add: kv)
  ultimately show ?case using d' by (auto simp: kv d0_def)
qed

lemma NewSecure_stored:
  assumes "ptrie_of p m" "stored keccak g p" "p \<noteq> PNil \<Longrightarrow> saved keccak g p"
  shows "\<exists>t. NewSecure a (map_root m) (Some g) l = Inr t \<and> secKeyCache t = [] \<and>
    (if map_root m \<in> {replicate 32 0, emptyRoot} then root (sec_trie t) = NilNode else sec_holds g t m)"
proof -
  obtain t where t: "New (map_root m) (Some g) = Inr t"
    "if map_root m \<in> {replicate 32 0, emptyRoot} then root t = NilNode else holds keccak g t m"
    using New_stored [OF assms] by blast
  then have "NewSecure a (map_root m) (Some g) l = Inr \<lparr>sec_trie = SetCacheLimit l t, secKeyCache = [], secKeyCacheOwner = None, self = a\<rparr>"
    by (simp add: NewSecure_def)
  then show ?thesis using t(2) by (cases "map_root m \<in> {replicate 32 0, emptyRoot}") (simp_all add: sec_holds_def holds_def SetCacheLimit_def)
qed

text \<open>
  C36. Committing a secure trie to the in-memory database returns the root hash of its map and leaves a
  database with the nodes and the preimages: \<open>NewSecure\<close>, given that hash, opens a trie that holds the same
  map (the empty trie when the hash is one of the two that stand for it), and both tries find every cached
  preimage, although the cache is empty. The node encodings may not collide with each other or with the
  keys in use.
\<close>

theorem sec_CommitTo_preimages:
  assumes "sec_holds (map_of d) t m" "cache_ok t" "map_sized m" "compat keccak map_of (map_nodes m) (Some d)"
  shows "\<exists>t1 d1 t2. sec_CommitTo mem_put t d = (Inr (map_root m), t1, Some d1) \<and> sec_holds (map_of d1) t1 m \<and>
    NewSecure a (map_root m) (Some (map_of d1)) l = Inr t2 \<and>
    (if map_root m \<in> {replicate 32 0, emptyRoot} then root (sec_trie t2) = NilNode else sec_holds (map_of d1) t2 m) \<and>
    secKeyCache t1 = [] \<and>
    (\<forall>(hk, k) \<in> set (secKeyCache (getSecKeyCache t)).
       hk = keccak k \<and> fst (GetKey (map_of d1) hk t1) = Some k \<and> fst (GetKey (map_of d1) hk t2) = Some k)"
proof -
  let ?c = "secKeyCache (getSecKeyCache t)"
  have c: "distinct (map fst ?c)" "\<forall>(hk, k) \<in> set ?c. length hk = 32" "\<forall>(hk, k) \<in> set ?c. hk = keccak k"
    using assms(2) by (auto simp: cache_ok_def kt.length_H)
  obtain d' where d': "put_preimages mem_put ?c d = (None, d')" "agree keccak (map_of d) (map_of d')"
    "\<forall>(hk, k) \<in> set ?c. map_of d' (secKey hk) = Some k"
    using put_preimages_mem [OF c(1,2)] by blast
  obtain p where p: "ptrie_of p m" "repr keccak (map_of d) True (root (sec_trie t)) p"
    using assms(1) by (auto simp: sec_holds_def holds_def)
  have w: "p = PNil \<or> wfp p" "sized keccak p" using p(1) assms(3) by (auto simp: ptrie_of_def map_sized_def)
  have co: "compat keccak map_of (set (encs keccak p)) (Some d')"
    using assms(4) map_nodes_eq [OF p(1)] d'(2) by (auto simp: compat_def agree_def)
  obtain n d1 where r: "CommitTo keccak mem_put (sec_trie t) d' =
      (Inr (root_hash keccak p), (sec_trie t)\<lparr>root := n, cachegen := cachegen (sec_trie t) + 1\<rparr>, Some d1)"
    "repr keccak (map_of d1) True n p" "extends (map_of d') (map_of d1)" "stored keccak (map_of d1) p"
    "p \<noteq> PNil \<Longrightarrow> saved keccak (map_of d1) p"
    using kmem.CommitTo_repr [OF w(1) repr_agree [OF p(2) d'(2)] w(2) co] by blast
  define t1 where "t1 = (getSecKeyCache t)\<lparr>secKeyCache := [],
      sec_trie := (sec_trie t)\<lparr>root := n, cachegen := cachegen (sec_trie t) + 1\<rparr>\<rparr>"
  have "sec_CommitTo mem_put t d = (Inr (map_root m), t1, Some d1)"
    using d'(1) r(1) map_root_eq [OF p(1)] by (simp add: sec_CommitTo_def Let_def t1_def)
  moreover have "sec_holds (map_of d1) t1 m" using p(1) r(2) by (auto simp: sec_holds_def holds_def t1_def)
  moreover obtain t2 where t2: "NewSecure a (map_root m) (Some (map_of d1)) l = Inr t2" "secKeyCache t2 = []"
    "if map_root m \<in> {replicate 32 0, emptyRoot} then root (sec_trie t2) = NilNode else sec_holds (map_of d1) t2 m"
    using NewSecure_stored [OF p(1) r(4,5)] by blast
  moreover have "map_of d1 (secKey hk) = Some k" if "(hk, k) \<in> set ?c" for hk k
    using that d'(3) r(3) unfolding extends_def by fast
  moreover have "secKeyCache (getSecKeyCache t1) = []" "secKeyCache (getSecKeyCache t2) = []"
    using t2(2) by (simp_all add: t1_def getSecKeyCache_def)
  ultimately show ?thesis using c(3) by (fastforce simp: t1_def GetKey_def Let_def)
qed

theorem sec_CommitTo_preimages_witness:
  "\<exists>t1 d1 t2. sec_CommitTo mem_put
       \<lparr>sec_trie = snd (TryUpdate (map_of []) [1] [2] empty_trie), secKeyCache = [(keccak [5], [5])],
        secKeyCacheOwner = Some 0, self = 0\<rparr> [] =
      (Inr (map_root (assign [1] [2] (\<lambda>k. None))), t1, Some d1) \<and>
     NewSecure 1 (map_root (assign [1] [2] (\<lambda>k. None))) (Some (map_of d1)) 0 = Inr t2 \<and>
     fst (GetKey (map_of d1) (keccak [5]) t2) = Some [5]"
proof -
  define t where "t = \<lparr>sec_trie = snd (TryUpdate (map_of []) [1] [2] empty_trie), secKeyCache = [(keccak [5], [5 :: byte])],
    secKeyCacheOwner = Some 0, self = 0\<rparr>"
  have h: "sec_holds (map_of []) t (assign [1] [2] (\<lambda>k. None))"
    using holds_update [OF holds_empty] by (simp add: sec_holds_def t_def)
  have o: "getSecKeyCache t = t" by (simp add: t_def getSecKeyCache_def)
  then have "cache_ok t" unfolding cache_ok_def by (simp add: t_def)
  moreover have "compat keccak map_of (map_nodes (assign [1] [2] (\<lambda>k. None))) (Some [])"
    using map_nodes_eq [OF ptrie_of_one, of "[2]" "[1]"] by (simp add: one_encs compat_def)
  ultimately show ?thesis
    using sec_CommitTo_preimages [OF h _ map_sized_one, of 1 0] unfolding o by (auto simp: t_def)
qed

end
