(* ===== verification/Trie_Size.thy ===== *)
theory Trie_Size
  imports Trie_Secure
begin

text \<open>
  Sizes: keys and values of less than four gigabytes keep the encoding of every node of a trie far
  below \<open>2^64\<close> bytes, so that no size computed by the encoder wraps around.
\<close>

definition small_map :: "(bytes \<Rightarrow> bytes option) \<Rightarrow> bool" where
  "small_map m \<longleftrightarrow> (\<forall>k v. m k = Some v \<longrightarrow> length k < 2 ^ 32 \<and> length v < 2 ^ 32)"

fun pbound :: "nat \<Rightarrow> nat \<Rightarrow> ptrie \<Rightarrow> bool" where
  "pbound K V PNil \<longleftrightarrow> True"
| "pbound K V (PVal v) \<longleftrightarrow> length v \<le> V"
| "pbound K V (PShort k p) \<longleftrightarrow> k \<noteq> [] \<and> length k \<le> K \<and> pbound K V p"
| "pbound K V (PFull ps) \<longleftrightarrow> length ps = 17 \<and> (\<forall>p \<in> set ps. pbound K V p)"

lemma length_puthead_le: "length (puthead s l sz) \<le> 9"
  using length_putint [of sz] by (simp add: puthead_def Let_def)

lemma length_rlp_str_le: "length (rlp_str b) \<le> length b + 9"
  by (simp add: rlp_str_def length_puthead_le)

lemma length_rlp_lst_le: "length (rlp_lst b) \<le> length b + 9"
  by (simp add: rlp_lst_def length_puthead_le)

lemma length_pairs_le: "length (pairs ns) \<le> length ns"
  by (induction ns rule: pairs.induct) auto

lemma length_compactEncode: "k \<noteq> [] \<Longrightarrow> length (the (compactEncode k)) \<le> length k + 1"
  using length_pairs_le [of "butlast k"] length_pairs_le [of k] length_pairs_le [of "tl k"] length_pairs_le [of "tl (butlast k)"]
  by (auto simp: compactEncode_nibbles Let_def)

lemma length_child:
  assumes "pbound K V c" "\<And>x. length (H x) = 32"
  shows "length (rlp (child_item H c (citem H c))) \<le> V + 41"
proof (cases "inner c")
  case True
  then show ?thesis using length_rlp_str_le [of "H (rlp (citem H c))"] assms(2) by (auto simp: child_item_def)
next
  case False
  then show ?thesis using assms(1) length_rlp_str_le [of "case c of PVal v \<Rightarrow> v | _ \<Rightarrow> []"]
    by (cases c) (auto simp: child_item_def)
qed

lemma length_concat_le: "(\<And>x. x \<in> set xs \<Longrightarrow> length x \<le> n) \<Longrightarrow> length (concat xs) \<le> length xs * n"
  by (induction xs) force+

lemma pbound_encs:
  assumes "\<And>x. length (H x) = 32"
  shows "pbound K V p \<Longrightarrow> x \<in> set (encs H p) \<Longrightarrow> length x \<le> K + 17 * (V + 41) + 19"
proof (induction p)
  case (PShort k c)
  show ?case
  proof (cases "x \<in> set (encs H c)")
    case False
    then have x: "x = rlp_lst (rlp_str (the (compactEncode k)) @ rlp (child_item H c (citem H c)))"
      using PShort.prems(2) by (simp add: penc_def)
    show ?thesis
      using length_rlp_lst_le [of "rlp_str (the (compactEncode k)) @ rlp (child_item H c (citem H c))"]
        length_rlp_str_le [of "the (compactEncode k)"] length_compactEncode [of k] length_child [of K V c H] assms PShort.prems(1)
      by (simp add: x)
  qed (use PShort in auto)
next
  case (PFull ps)
  show ?case
  proof (cases "x \<in> set (concat (map (encs H) ps))")
    case True
    then obtain p where "p \<in> set ps" "x \<in> set (encs H p)" by auto
    then show ?thesis using PFull by auto
  next
    case False
    define b where "b = concat (map (\<lambda>c. rlp (child_item H c (citem H c))) ps)"
    have x: "x = rlp_lst b" using False PFull.prems(2) by (simp add: penc_def b_def comp_def)
    have "length b \<le> length (map (\<lambda>c. rlp (child_item H c (citem H c))) ps) * (V + 41)"
      unfolding b_def using PFull.prems(1) length_child [of K V _ H] assms by (intro length_concat_le) auto
    then have "length b \<le> 17 * (V + 41)" using PFull.prems(1) by simp
    then show ?thesis using length_rlp_lst_le [of b] x by simp
  qed
qed auto

lemma wfp_pbound:
  "p = PNil \<or> is_val p \<or> wfp p \<Longrightarrow> (\<And>key v. plookup p key = Some v \<Longrightarrow> length key \<le> K \<and> length v \<le> V) \<Longrightarrow> pbound K V p"
proof (induction p)
  case (PShort k c)
  have w: "wfp (PShort k c)" using PShort.prems(1) by simp
  obtain r where r: "is_key (k @ r)" using is_key_extends [OF w] by blast
  have c: "fits_key c r" "c \<noteq> PNil" using fits_short [OF w r] by simp_all
  then obtain l v where "plookup c l = Some v" using wfp_has_key by blast
  then have "length k \<le> K" using PShort.prems(2) [of "k @ l" v] by simp
  moreover have "pbound K V c"
  proof (rule PShort.IH)
    show "c = PNil \<or> is_val c \<or> wfp c" using w by auto
    show "length key \<le> K \<and> length v \<le> V" if "plookup c key = Some v" for key v
      using PShort.prems(2) [of "k @ key" v] that by auto
  qed
  ultimately show ?case using w by auto
next
  case (PFull ps)
  have w: "length ps = 17" "\<forall>p \<in> set ps. p = PNil \<or> is_val p \<or> wfp p" using PFull.prems(1) by (simp_all add: wfp.simps)
  have "pbound K V p" if p: "p \<in> set ps" for p
  proof (rule PFull.IH [OF p])
    show "p = PNil \<or> is_val p \<or> wfp p" using w(2) p by blast
    obtain i where i: "i < 17" "p = ps ! i" using p w(1) by (metis in_set_conv_nth)
    show "length key \<le> K \<and> length v \<le> V" if "plookup p key = Some v" for key v
      using PFull.prems(2) [of "of_nat i # key" v] that i w(1) by (simp add: unat_of_nat)
  qed
  then show ?case using w(1) by simp
next
  case (PVal v)
  then show ?case using PVal.prems(2) [of "[]" v] by simp
qed simp

lemma small_map_nodes:
  assumes "small_map m" "ptrie_of p m" "x \<in> set (encs keccak p)"
  shows "length x \<le> 2 ^ 33 + 17 * (2 ^ 32 + 41) + 19"
proof -
  have "length key \<le> 2 ^ 33 \<and> length v \<le> 2 ^ 32" if l: "plookup p key = Some v" for key v
  proof -
    obtain b where b: "key = compactHexDecode b" using assms(2) l by (fastforce simp: ptrie_of_def)
    then have "m b = Some v" using assms(2) l by (simp add: ptrie_of_def)
    then show ?thesis using assms(1) b by (fastforce simp: small_map_def length_compactHexDecode)
  qed
  then have "pbound (2 ^ 33) (2 ^ 32) p" using assms(2) by (intro wfp_pbound) (auto simp: ptrie_of_def)
  then show ?thesis by (rule pbound_encs [OF kt.length_H _ assms(3)])
qed

lemma map_sized_small: "small_map m \<Longrightarrow> map_sized m"
  using small_map_nodes by (fastforce simp: map_sized_def sized_def)

lemma small_assign: "small_map m \<Longrightarrow> length k < 2 ^ 32 \<Longrightarrow> length v < 2 ^ 32 \<Longrightarrow> small_map (assign k v m)"
  by (auto simp: small_map_def assign_def)

lemma length_keccak [simp]: "length (keccak x) = 32"
  by (rule kt.length_H)

lemma length_map_root: "length (map_root m) = 32"
  by (simp add: map_root_def root_hash_def)

lemma sec_Hash_holds:
  assumes "sec_holds g t m" "map_sized m"
  shows "\<exists>t'. sec_Hash t = (Inr (map_root m), t') \<and> sec_holds g t' m"
  using Hash_holds [of g "sec_trie t" m] assms by (auto simp: sec_holds_def sec_Hash_def)

text \<open>
  C4. Node encodings are bounded. If the keys and values of a map are shorter than \<open>2^32\<close> bytes, every
  node of its trie encodes to at most \<open>2^33 + 17 * (2^32 + 41) + 19\<close> bytes, whatever the number of
  entries, and hashing any trie that holds the map returns the root hash of the map.
\<close>

theorem node_sizes_bounded:
  assumes "small_map m" "holds keccak db t m"
  shows "(\<forall>x \<in> map_nodes m. length x \<le> 2 ^ 33 + 17 * (2 ^ 32 + 41) + 19) \<and>
    (\<exists>t'. Hash keccak t = (Inr (map_root m), t') \<and> holds keccak db t' m)"
  using small_map_nodes [OF assms(1)] Hash_holds [OF assms(2) map_sized_small [OF assms(1)]] by (auto simp: map_nodes_def)

theorem node_sizes_bounded_witness:
  "map_nodes (assign [1] [2] (\<lambda>k. None)) \<subseteq> {x. length x \<le> 2 ^ 33 + 17 * (2 ^ 32 + 41) + 19} \<and>
   (\<exists>t'. Hash keccak (snd (TryUpdate Map.empty [1] [2] empty_trie)) = (Inr (map_root (assign [1] [2] (\<lambda>k. None))), t'))"
proof -
  have "small_map (assign [1] [2] (\<lambda>k. None))" by (simp add: small_map_def assign_def)
  from node_sizes_bounded [OF this holds_update [OF holds_empty]] show ?thesis by blast
qed

end
