(* ===== verification/State_Object.thy ===== *)
theory State_Object
  imports Trie_Size
begin

text \<open>
  State objects (\<open>blockchainCore/state/state_object.go\<close>): an account with its code and its storage
  trie, loaded on demand. The database that the node reads is the parameter \<open>g\<close>; the methods that also
  write to the journal of the state database are in the theory of that database.
\<close>

section \<open>Accounts and objects\<close>

text \<open>What a Go panic on the way looks like, and the errors that an object remembers in \<open>dbErr\<close>.\<close>

datatype state_panic = TriePanicked | SplitPanicked | NilObject | BadRevision | LogBounds | EncodeFailed

datatype state_error = CannotCreateTrie trie_error | CannotSplit rlp_error | CannotLoadCode bytes | CommitError trie_error

record Account =
  acc_Nonce :: uint64
  acc_Balance :: int
  acc_Root :: bytes
  acc_CodeHash :: bytes

record StateObject =
  address :: bytes
  data :: Account
  dbErr :: "state_error option"
  so_trie :: "SecureTrie option"
  code :: "bytes option"
  cachedStorage :: "kv list"
  dirtyStorage :: "kv list"
  dirtyCode :: bool
  suicided :: bool
  deleted :: bool
  onDirty :: bool

definition zero_hash :: bytes where
  "zero_hash = replicate 32 0"

definition emptyCodeHash :: bytes where
  "emptyCodeHash = Keccak256 [[]]"

definition empty :: "StateObject \<Rightarrow> bool" where
  "empty s \<longleftrightarrow> acc_Nonce (data s) = 0 \<and> acc_Balance (data s) = 0 \<and> acc_CodeHash (data s) = emptyCodeHash"

definition newObject :: "bytes \<Rightarrow> Account option \<Rightarrow> StateObject" where
  \<comment> \<open>\<open>None\<close> is \<open>Account{}\<close>, whose nil balance and code hash are replaced; decoded accounts have both\<close>
  "newObject addr d =
     \<lparr>address = addr,
      data = (case d of
                None \<Rightarrow> \<lparr>acc_Nonce = 0, acc_Balance = 0, acc_Root = zero_hash, acc_CodeHash = emptyCodeHash\<rparr>
              | Some a \<Rightarrow> a),
      dbErr = None, so_trie = None, code = None, cachedStorage = [], dirtyStorage = [],
      dirtyCode = False, suicided = False, deleted = False, onDirty = True\<rparr>"

definition account_type :: gotype where
  "account_type =
     TStruct [(no_tags, TUint 64), (no_tags, TPtr TBig), (no_tags, TArray 32 (TUint 8)), (no_tags, TSlice (TUint 8))]"

definition account_val :: "Account \<Rightarrow> goval" where
  "account_val a =
     GList [GUint (acc_Nonce a), GPtr (GBig (acc_Balance a)), GBytes (acc_Root a), GBytes (acc_CodeHash a)]"

definition EncodeRLP :: "StateObject \<Rightarrow> rlp_error + bytes" where
  "EncodeRLP s = EncodeToBytes account_type (account_val (data s))"

definition decode_account :: "bytes \<Rightarrow> rlp_error + Account" where
  \<comment> \<open>\<open>rlp.DecodeBytes(enc, &data)\<close>\<close>
  "decode_account enc =
     (case DecodeBytes (decode_fuel account_type (length enc)) enc account_type of
        Inl e \<Rightarrow> Inl e
      | Inr (GList [GUint n, GPtr (GBig b), GBytes r, GBytes h]) \<Rightarrow>
          Inr \<lparr>acc_Nonce = n, acc_Balance = b, acc_Root = r, acc_CodeHash = h\<rparr>
      | Inr _ \<Rightarrow> Inl Panic)"

definition setError :: "state_error \<Rightarrow> StateObject \<Rightarrow> StateObject" where
  "setError e s = (if dbErr s = None then s\<lparr>dbErr := Some e\<rparr> else s)"

section \<open>Storage\<close>

definition getTrie :: "trie_db \<Rightarrow> StateObject \<Rightarrow> state_panic + SecureTrie \<times> StateObject" where
  "getTrie g c =
     (case so_trie c of
        Some t \<Rightarrow> Inr (t, c)
      | None \<Rightarrow>
          (case NewSecure 0 (acc_Root (data c)) (Some g) 0 of
             Inr t \<Rightarrow> Inr (t, c\<lparr>so_trie := Some t\<rparr>)
           | Inl e \<Rightarrow>
               if e = TriePanic then Inl TriePanicked
               else
                 (case NewSecure 0 zero_hash (Some g) 0 of
                    Inl e' \<Rightarrow> Inl TriePanicked
                  | Inr t \<Rightarrow> Inr (t, setError (CannotCreateTrie e) (c\<lparr>so_trie := Some t\<rparr>)))))"

definition storage_value :: "bytes option \<Rightarrow> state_panic + bytes \<times> rlp_error option" where
  \<comment> \<open>the value of an entry of the storage trie, and the error of \<open>rlp.Split\<close>\<close>
  "storage_value v =
     (case v of
        None \<Rightarrow> Inr (zero_hash, None)
      | Some enc \<Rightarrow>
          if enc = [] then Inr (zero_hash, None)
          else case Split enc of
            Inl e \<Rightarrow> if e = Panic then Inl SplitPanicked else Inr (zero_hash, Some e)
          | Inr (k, content, rest) \<Rightarrow> Inr (BytesToHash content, None))"

definition obj_GetState :: "trie_db \<Rightarrow> bytes \<Rightarrow> StateObject \<Rightarrow> state_panic + bytes \<times> StateObject" where
  "obj_GetState g key c =
     (case map_of (cachedStorage c) key of
        Some value \<Rightarrow> Inr (value, c)
      | None \<Rightarrow>
          res_bind (getTrie g c) (\<lambda>(t, c).
            case sec_Get g key t of
              (Inl e, t) \<Rightarrow> Inl TriePanicked
            | (Inr v, t) \<Rightarrow>
                let c = c\<lparr>so_trie := Some t\<rparr>
                in res_bind (storage_value v) (\<lambda>(value, err).
                     let c = (case err of None \<Rightarrow> c | Some e \<Rightarrow> setError (CannotSplit e) c)
                     in Inr (value,
                          if value \<noteq> zero_hash then c\<lparr>cachedStorage := put_entry key value (cachedStorage c)\<rparr> else c))))"

definition store_entry :: "trie_db \<Rightarrow> bytes \<Rightarrow> bytes \<Rightarrow> SecureTrie \<Rightarrow> state_panic + SecureTrie" where
  \<comment> \<open>one turn of the loop of \<open>updateTrie\<close>\<close>
  "store_entry g key value t =
     (let (err, t') =
        (if value = zero_hash then sec_Delete g key t
         else sec_Update g key
           (case EncodeToBytes (TSlice (TUint 8)) (GBytes (dropWhile (\<lambda>b. b = 0) value)) of Inl e \<Rightarrow> [] | Inr v \<Rightarrow> v) t)
      in case err of Some e \<Rightarrow> Inl TriePanicked | None \<Rightarrow> Inr t')"

fun store_entries :: "trie_db \<Rightarrow> kv list \<Rightarrow> SecureTrie \<Rightarrow> state_panic + SecureTrie" where
  "store_entries g [] t = Inr t"
| "store_entries g ((key, value) # kvs) t = res_bind (store_entry g key value t) (store_entries g kvs)"

definition updateTrie :: "trie_db \<Rightarrow> StateObject \<Rightarrow> state_panic + StateObject" where
  "updateTrie g c =
     res_bind (getTrie g c) (\<lambda>(t, c).
       map_ok (\<lambda>t. c\<lparr>so_trie := Some t, dirtyStorage := []\<rparr>) (store_entries g (dirtyStorage c) t))"

definition updateRoot :: "trie_db \<Rightarrow> StateObject \<Rightarrow> state_panic + StateObject" where
  "updateRoot g c =
     res_bind (updateTrie g c) (\<lambda>c.
       case so_trie c of
         None \<Rightarrow> Inl NilObject
       | Some t \<Rightarrow>
           (case sec_Hash t of
              (Inl e, t) \<Rightarrow> Inl TriePanicked
            | (Inr h, t) \<Rightarrow> Inr (c\<lparr>so_trie := Some t, data := (data c)\<lparr>acc_Root := h\<rparr>\<rparr>)))"

definition CommitTrie :: "trie_db \<Rightarrow> 'd writer \<Rightarrow> StateObject \<Rightarrow> 'd \<Rightarrow> state_panic + state_error option \<times> StateObject \<times> 'd" where
  "CommitTrie g put c d =
     res_bind (updateTrie g c) (\<lambda>c.
       case dbErr c of
         Some e \<Rightarrow> Inr (Some e, c, d)
       | None \<Rightarrow>
           (case so_trie c of
              None \<Rightarrow> Inl NilObject
            | Some t \<Rightarrow>
                (case sec_CommitTo put t d of
                   (Inl e, t, d') \<Rightarrow>
                     if e = TriePanic then Inl TriePanicked
                     else Inr (Some (CommitError e), c\<lparr>so_trie := Some t\<rparr>, case d' of None \<Rightarrow> d | Some d \<Rightarrow> d)
                 | (Inr rt, t, d') \<Rightarrow>
                     Inr (None, c\<lparr>so_trie := Some t, data := (data c)\<lparr>acc_Root := rt\<rparr>\<rparr>,
                       case d' of None \<Rightarrow> d | Some d \<Rightarrow> d))))"

section \<open>Code and copies\<close>

definition obj_Code :: "trie_db \<Rightarrow> StateObject \<Rightarrow> bytes option \<times> StateObject" where
  "obj_Code g c =
     (if code c \<noteq> None then (code c, c)
      else if acc_CodeHash (data c) = emptyCodeHash then (None, c)
      else case g (acc_CodeHash (data c)) of
        None \<Rightarrow> (None, setError (CannotLoadCode (acc_CodeHash (data c))) c)
      | Some b \<Rightarrow> (Some b, c\<lparr>code := Some b\<rparr>))"

definition deepCopy :: "StateObject \<Rightarrow> StateObject" where
  "deepCopy c =
     (newObject (address c) (Some (data c)))
       \<lparr>so_trie := so_trie c, code := code c, dirtyStorage := dirtyStorage c, cachedStorage := dirtyStorage c,
        suicided := suicided c, dirtyCode := dirtyCode c, deleted := deleted c\<rparr>"

section \<open>Accounts are read back as they are written\<close>

definition account_ok :: "Account \<Rightarrow> bool" where
  \<comment> \<open>the balance is a 256-bit number, root and code hash are hashes\<close>
  "account_ok a \<longleftrightarrow> 0 \<le> acc_Balance a \<and> acc_Balance a < 2 ^ 256 \<and> length (acc_Root a) = 32 \<and> length (acc_CodeHash a) = 32"

lemma account_items:
  assumes "0 \<le> acc_Balance a"
  shows "items account_type no_tags (account_val a) =
    Inr [Lst [Str (nat_bytes (unat (acc_Nonce a))), Str (nat_bytes (nat (acc_Balance a))), Str (acc_Root a), Str (acc_CodeHash a)]]"
  using assms by (simp add: account_type_def account_val_def isByte_def big_item_def numeral_3_eq_3)

lemma length_account_payload:
  assumes "account_ok a"
  shows "length (rlp_str (nat_bytes (unat (acc_Nonce a))) @ rlp_str (nat_bytes (nat (acc_Balance a))) @
    rlp_str (acc_Root a) @ rlp_str (acc_CodeHash a)) \<le> 108"
proof -
  have n: "length (nat_bytes (unat (acc_Nonce a))) \<le> 8" using length_nat_bytes_le [of "unat (acc_Nonce a)" 8] unsigned_less [of "acc_Nonce a"] by simp
  have "nat (acc_Balance a) < 256 ^ 32" using assms by (simp add: account_ok_def nat_less_iff)
  then have b: "length (nat_bytes (nat (acc_Balance a))) \<le> 32" by (rule length_nat_bytes_le)
  show ?thesis
    using assms n b length_rlp_str_small [of "nat_bytes (unat (acc_Nonce a))"] length_rlp_str_small [of "nat_bytes (nat (acc_Balance a))"]
      length_rlp_str_small [of "acc_Root a"] length_rlp_str_small [of "acc_CodeHash a"]
    by (simp add: account_ok_def)
qed

lemma account_canon: "account_ok a \<Longrightarrow> canon account_type no_tags (account_val a)"
  by (auto simp: account_ok_def account_type_def account_val_def isByte_def no_tags_def)

lemma account_type_ok: "returning account_type" "genTypeInfo account_type = Inr ()"
  by (simp_all add: account_type_def isByte_def parseStructTag_def no_tags_def)

lemma account_roundtrip:
  assumes "account_ok a"
  shows "\<exists>enc. EncodeToBytes account_type (account_val a) = Inr enc \<and> decode_account enc = Inr a \<and> length enc \<le> 110 \<and> enc \<noteq> []"
proof -
  define p where "p = rlp_str (nat_bytes (unat (acc_Nonce a))) @ rlp_str (nat_bytes (nat (acc_Balance a))) @
    rlp_str (acc_Root a) @ rlp_str (acc_CodeHash a)"
  have p: "length p \<le> 108" using length_account_payload [OF assms] by (simp add: p_def)
  have it: "items account_type no_tags (account_val a) =
    Inr [Lst [Str (nat_bytes (unat (acc_Nonce a))), Str (nat_bytes (nat (acc_Balance a))), Str (acc_Root a), Str (acc_CodeHash a)]]"
    using assms account_items by (simp add: account_ok_def)
  have enc: "rlps [Lst [Str (nat_bytes (unat (acc_Nonce a))), Str (nat_bytes (nat (acc_Balance a))), Str (acc_Root a), Str (acc_CodeHash a)]] = rlp_lst p"
    by (simp add: rlps_def p_def)
  have "drop_bit 8 (of_nat (length p) :: uint64) = 0"
    using p by (intro word_unat_eq_iff [THEN iffD2]) (simp add: unat_drop_bit_div)
  then have "length (puthead 0xC0 0xF7 (of_nat (length p))) \<in> {1, 2}"
    using p length_puthead [of "length p"] by (simp add: hbytes_def intsize_def intsize_from.simps Let_def)
  then have len: "length (rlp_lst p) \<le> 110" "rlp_lst p \<noteq> []" using p by (auto simp: rlp_lst_def)
  have "EncodeToBytes account_type (account_val a) = Inr (rlp_lst p) \<and>
      DecodeBytes (decode_fuel account_type (length (rlp_lst p))) (rlp_lst p) account_type = Inr (account_val a)"
    using DecodeBytes_roundtrip [OF account_canon [OF assms] account_type_ok it, unfolded enc, OF _ order_refl] len(1) by simp
  then show ?thesis using len by (auto simp: decode_account_def account_val_def)
qed

end
