(* ===== verification/State_DB.thy ===== *)
theory State_DB
  imports State_Object
begin

text \<open>
  The state database (\<open>blockchainCore/state/statedb.go\<close>) and its journal (\<open>journal.go\<close>): live objects
  over the account trie, the journaled setters, snapshots, and writing the objects back. \<open>g\<close> is the
  database that is read, \<open>sn\<close> the package variable \<open>StartingNonce\<close>.
\<close>

section \<open>State\<close>

record Log =
  log_Address :: bytes
  log_Topics :: "bytes list"
  log_Data :: bytes
  log_BlockNumber :: uint64
  log_TxHash :: bytes
  log_TxIndex :: nat
  log_BlockHash :: bytes
  log_Index :: nat

datatype journalEntry =
    CreateObjectChange bytes
  | ResetObjectChange StateObject
  | SuicideChange bytes bool int
  | BalanceChange bytes int
  | NonceChange bytes uint64
  | StorageChange bytes bytes bytes
  | CodeChange bytes "bytes option" bytes
  | RefundChange int
  | AddLogChange bytes

text \<open>
  The past tries are pointers. One that points to the trie in use is \<open>Current\<close>, so that both change
  together; the others are kept by value. The size cache of the code, an external LRU cache, is left
  out, as is the mutex.
\<close>

datatype trie_ref = Current | Past SecureTrie

record StateDB =
  st_trie :: SecureTrie
  pastTries :: "trie_ref list"
  stateObjects :: "(bytes \<times> StateObject) list"
  stateObjectsDirty :: "bytes list"
  refund :: int
  thash :: bytes
  bhash :: bytes
  txIndex :: nat
  logs :: "(bytes \<times> Log list) list"
  logSize :: nat
  journal :: "journalEntry list"
  validRevisions :: "(nat \<times> nat) list"
  nextRevisionId :: nat

definition MaxTrieCacheGen :: uint16 where
  "MaxTrieCacheGen = 120"

definition fresh_state :: "SecureTrie \<Rightarrow> StateDB" where
  "fresh_state t =
     \<lparr>st_trie = t, pastTries = [], stateObjects = [], stateObjectsDirty = [], refund = 0, thash = zero_hash,
      bhash = zero_hash, txIndex = 0, logs = [], logSize = 0, journal = [], validRevisions = [], nextRevisionId = 0\<rparr>"

definition state_New :: "bytes \<Rightarrow> trie_db \<Rightarrow> trie_error + StateDB" where
  "state_New rt g = map_ok fresh_state (NewSecure 0 rt (Some g) MaxTrieCacheGen)"

definition clearJournalAndRefund :: "StateDB \<Rightarrow> StateDB" where
  "clearJournalAndRefund s = s\<lparr>journal := [], validRevisions := [], refund := 0\<rparr>"

fun find_past :: "bytes \<Rightarrow> SecureTrie \<Rightarrow> trie_ref list \<Rightarrow> trie_error + SecureTrie option \<times> SecureTrie \<times> trie_ref list" where
  \<comment> \<open>the loop of \<open>openTrie\<close>, newest trie first; a match is copied to a new address\<close>
  "find_past rt cur [] = Inr (None, cur, [])"
| "find_past rt cur (r # rs) =
     (case sec_Hash (case r of Current \<Rightarrow> cur | Past t \<Rightarrow> t) of
        (Inl e, _) \<Rightarrow> Inl e
      | (Inr h, t) \<Rightarrow>
          let cur = (case r of Current \<Rightarrow> t | Past _ \<Rightarrow> cur);
              r = (case r of Current \<Rightarrow> Current | Past _ \<Rightarrow> Past t)
          in if h = rt then Inr (Some (t\<lparr>self := Suc (self t)\<rparr>), cur, r # rs)
             else map_ok (\<lambda>(found, cur, rs). (found, cur, r # rs)) (find_past rt cur rs))"

definition openTrie :: "trie_db \<Rightarrow> bytes \<Rightarrow> StateDB \<Rightarrow> trie_error + SecureTrie \<times> StateDB" where
  "openTrie g rt s =
     res_bind (find_past rt (st_trie s) (rev (pastTries s))) (\<lambda>(found, cur, rs).
       let s = s\<lparr>st_trie := cur, pastTries := rev rs\<rparr>
       in case found of
            Some t \<Rightarrow> Inr (t, s)
          | None \<Rightarrow> map_ok (\<lambda>t. (t, s)) (NewSecure 0 rt (Some g) MaxTrieCacheGen))"

definition pushTrie :: "StateDB \<Rightarrow> StateDB" where
  \<comment> \<open>pushes the trie in use; \<open>maxPastTries\<close> is 12\<close>
  "pushTrie s = s\<lparr>pastTries := (if 12 \<le> length (pastTries s) then tl (pastTries s) else pastTries s) @ [Current]\<rparr>"

definition method_New :: "trie_db \<Rightarrow> bytes \<Rightarrow> StateDB \<Rightarrow> trie_error + StateDB \<times> StateDB" where
  \<comment> \<open>the new state and the receiver\<close>
  "method_New g rt s = map_ok (\<lambda>(t, s). (fresh_state t, s)) (openTrie g rt s)"

definition state_Reset :: "trie_db \<Rightarrow> bytes \<Rightarrow> StateDB \<Rightarrow> trie_error + StateDB" where
  "state_Reset g rt s =
     map_ok (\<lambda>(t, s).
        clearJournalAndRefund
          (s\<lparr>st_trie := t, pastTries := map (\<lambda>r. case r of Current \<Rightarrow> Past (st_trie s) | Past u \<Rightarrow> Past u) (pastTries s),
             stateObjects := [], stateObjectsDirty := [], thash := zero_hash, bhash := zero_hash, txIndex := 0,
             logs := [], logSize := 0\<rparr>))
       (openTrie g rt s)"

definition StartRecord :: "bytes \<Rightarrow> bytes \<Rightarrow> nat \<Rightarrow> StateDB \<Rightarrow> StateDB" where
  "StartRecord th bh ti s = s\<lparr>thash := th, bhash := bh, txIndex := ti\<rparr>"

section \<open>Objects\<close>

definition append_journal :: "journalEntry \<Rightarrow> StateDB \<Rightarrow> StateDB" where
  "append_journal e s = s\<lparr>journal := journal s @ [e]\<rparr>"

definition setStateObject :: "StateObject \<Rightarrow> StateDB \<Rightarrow> StateDB" where
  "setStateObject obj s = s\<lparr>stateObjects := AList.update (address obj) obj (stateObjects s)\<rparr>"

definition MarkStateObjectDirty :: "bytes \<Rightarrow> StateDB \<Rightarrow> StateDB" where
  "MarkStateObjectDirty addr s = s\<lparr>stateObjectsDirty := List.insert addr (stateObjectsDirty s)\<rparr>"

definition touch :: "StateObject \<Rightarrow> StateDB \<Rightarrow> StateDB" where
  \<comment> \<open>store a modified object and run its callback: \<open>if onDirty != nil { onDirty(addr); onDirty = nil }\<close>\<close>
  "touch obj s =
     (if onDirty obj then setStateObject (obj\<lparr>onDirty := False\<rparr>) (MarkStateObjectDirty (address obj) s)
      else setStateObject obj s)"

definition GetStateObject :: "trie_db \<Rightarrow> bytes \<Rightarrow> StateDB \<Rightarrow> state_panic + StateObject option \<times> StateDB" where
  "GetStateObject g addr s =
     (case map_of (stateObjects s) addr of
        Some obj \<Rightarrow> Inr (if deleted obj then None else Some obj, s)
      | None \<Rightarrow>
          (case sec_Get g addr (st_trie s) of
             (Inl e, t) \<Rightarrow> Inl TriePanicked
           | (Inr v, t) \<Rightarrow>
               let s = s\<lparr>st_trie := t\<rparr>
               in case v of
                    None \<Rightarrow> Inr (None, s)
                  | Some enc \<Rightarrow>
                      if enc = [] then Inr (None, s)
                      else case decode_account enc of
                        Inl e \<Rightarrow> if e = Panic then Inl TriePanicked else Inr (None, s)
                      | Inr a \<Rightarrow>
                          let obj = newObject addr (Some a)
                          in Inr (Some obj, setStateObject obj s)))"

definition createObject :: "trie_db \<Rightarrow> uint64 \<Rightarrow> bytes \<Rightarrow> StateDB \<Rightarrow> state_panic + StateObject \<times> StateObject option \<times> StateDB" where
  \<comment> \<open>\<open>setNonce\<close> marks the new object dirty before it is journaled and stored\<close>
  "createObject g sn addr s =
     res_bind (GetStateObject g addr s) (\<lambda>(prev, s).
       let newobj = newObject addr None;
           newobj = newobj\<lparr>data := (data newobj)\<lparr>acc_Nonce := sn\<rparr>, onDirty := False\<rparr>;
           s = MarkStateObjectDirty addr s;
           s = append_journal (case prev of None \<Rightarrow> CreateObjectChange addr | Some p \<Rightarrow> ResetObjectChange p) s
       in Inr (newobj, prev, setStateObject newobj s))"

definition GetOrNewStateObject :: "trie_db \<Rightarrow> uint64 \<Rightarrow> bytes \<Rightarrow> StateDB \<Rightarrow> state_panic + StateObject \<times> StateDB" where
  "GetOrNewStateObject g sn addr s =
     res_bind (GetStateObject g addr s) (\<lambda>(obj, s).
       case obj of
         None \<Rightarrow> map_ok (\<lambda>(newobj, prev, s). (newobj, s)) (createObject g sn addr s)
       | Some obj \<Rightarrow>
           if deleted obj then map_ok (\<lambda>(newobj, prev, s). (newobj, s)) (createObject g sn addr s) else Inr (obj, s))"

definition CreateAccount :: "trie_db \<Rightarrow> uint64 \<Rightarrow> bytes \<Rightarrow> StateDB \<Rightarrow> state_panic + StateDB" where
  "CreateAccount g sn addr s =
     map_ok (\<lambda>(newobj, prev, s).
        case prev of
          None \<Rightarrow> s
        | Some p \<Rightarrow> touch (newobj\<lparr>data := (data newobj)\<lparr>acc_Balance := acc_Balance (data p)\<rparr>\<rparr>) s)
       (createObject g sn addr s)"

section \<open>Journaled changes of an object\<close>

definition obj_setBalance :: "int \<Rightarrow> StateObject \<Rightarrow> StateDB \<Rightarrow> StateDB" where
  "obj_setBalance amount obj s = touch (obj\<lparr>data := (data obj)\<lparr>acc_Balance := amount\<rparr>\<rparr>) s"

definition obj_setNonce :: "uint64 \<Rightarrow> StateObject \<Rightarrow> StateDB \<Rightarrow> StateDB" where
  "obj_setNonce n obj s = touch (obj\<lparr>data := (data obj)\<lparr>acc_Nonce := n\<rparr>\<rparr>) s"

definition obj_setCode :: "bytes \<Rightarrow> bytes option \<Rightarrow> StateObject \<Rightarrow> StateDB \<Rightarrow> StateDB" where
  "obj_setCode codeHash c obj s =
     touch (obj\<lparr>code := c, data := (data obj)\<lparr>acc_CodeHash := codeHash\<rparr>, dirtyCode := True\<rparr>) s"

definition obj_setState :: "bytes \<Rightarrow> bytes \<Rightarrow> StateObject \<Rightarrow> StateDB \<Rightarrow> StateDB" where
  "obj_setState key value obj s =
     touch (obj\<lparr>cachedStorage := put_entry key value (cachedStorage obj),
                dirtyStorage := put_entry key value (dirtyStorage obj)\<rparr>) s"

definition obj_SetBalance :: "int \<Rightarrow> StateObject \<Rightarrow> StateDB \<Rightarrow> StateDB" where
  "obj_SetBalance amount obj s =
     obj_setBalance amount obj (append_journal (BalanceChange (address obj) (acc_Balance (data obj))) s)"

definition obj_AddBalance :: "int \<Rightarrow> StateObject \<Rightarrow> StateDB \<Rightarrow> StateDB" where
  "obj_AddBalance amount obj s =
     (if amount = 0 \<and> \<not> empty obj then s else obj_SetBalance (acc_Balance (data obj) + amount) obj s)"

definition obj_SubBalance :: "int \<Rightarrow> StateObject \<Rightarrow> StateDB \<Rightarrow> StateDB" where
  "obj_SubBalance amount obj s =
     (if amount = 0 then s else obj_SetBalance (acc_Balance (data obj) - amount) obj s)"

definition obj_SetNonce :: "uint64 \<Rightarrow> StateObject \<Rightarrow> StateDB \<Rightarrow> StateDB" where
  "obj_SetNonce n obj s = obj_setNonce n obj (append_journal (NonceChange (address obj) (acc_Nonce (data obj))) s)"

definition obj_SetCode :: "trie_db \<Rightarrow> bytes \<Rightarrow> bytes option \<Rightarrow> StateObject \<Rightarrow> StateDB \<Rightarrow> StateDB" where
  "obj_SetCode g codeHash c obj s =
     (let (prevcode, obj) = obj_Code g obj
      in obj_setCode codeHash c obj (append_journal (CodeChange (address obj) prevcode (acc_CodeHash (data obj))) s))"

definition obj_SetState :: "trie_db \<Rightarrow> bytes \<Rightarrow> bytes \<Rightarrow> StateObject \<Rightarrow> StateDB \<Rightarrow> state_panic + StateDB" where
  "obj_SetState g key value obj s =
     map_ok (\<lambda>(prevalue, obj). obj_setState key value obj (append_journal (StorageChange (address obj) key prevalue) s))
       (obj_GetState g key obj)"

section \<open>Getters and setters\<close>

definition Exist :: "trie_db \<Rightarrow> bytes \<Rightarrow> StateDB \<Rightarrow> state_panic + bool \<times> StateDB" where
  "Exist g addr s = map_ok (\<lambda>(obj, s). (obj \<noteq> None, s)) (GetStateObject g addr s)"

definition Empty :: "trie_db \<Rightarrow> bytes \<Rightarrow> StateDB \<Rightarrow> state_panic + bool \<times> StateDB" where
  "Empty g addr s =
     map_ok (\<lambda>(obj, s). (case obj of None \<Rightarrow> True | Some c \<Rightarrow> empty c, s)) (GetStateObject g addr s)"

definition GetBalance :: "trie_db \<Rightarrow> bytes \<Rightarrow> StateDB \<Rightarrow> state_panic + int \<times> StateDB" where
  "GetBalance g addr s =
     map_ok (\<lambda>(obj, s). (case obj of None \<Rightarrow> 0 | Some c \<Rightarrow> acc_Balance (data c), s)) (GetStateObject g addr s)"

definition GetNonce :: "trie_db \<Rightarrow> uint64 \<Rightarrow> bytes \<Rightarrow> StateDB \<Rightarrow> state_panic + uint64 \<times> StateDB" where
  "GetNonce g sn addr s =
     map_ok (\<lambda>(obj, s). (case obj of None \<Rightarrow> sn | Some c \<Rightarrow> acc_Nonce (data c), s)) (GetStateObject g addr s)"

definition GetCode :: "trie_db \<Rightarrow> bytes \<Rightarrow> StateDB \<Rightarrow> state_panic + bytes option \<times> StateDB" where
  "GetCode g addr s =
     map_ok (\<lambda>(obj, s).
        case obj of
          None \<Rightarrow> (None, s)
        | Some c \<Rightarrow> (let (b, c) = obj_Code g c in (b, setStateObject c s)))
       (GetStateObject g addr s)"

definition GetCodeHash :: "trie_db \<Rightarrow> bytes \<Rightarrow> StateDB \<Rightarrow> state_panic + bytes \<times> StateDB" where
  "GetCodeHash g addr s =
     map_ok (\<lambda>(obj, s). (case obj of None \<Rightarrow> zero_hash | Some c \<Rightarrow> BytesToHash (acc_CodeHash (data c)), s)) (GetStateObject g addr s)"

definition GetState :: "trie_db \<Rightarrow> bytes \<Rightarrow> bytes \<Rightarrow> StateDB \<Rightarrow> state_panic + bytes \<times> StateDB" where
  "GetState g addr key s =
     res_bind (GetStateObject g addr s) (\<lambda>(obj, s).
       case obj of
         None \<Rightarrow> Inr (zero_hash, s)
       | Some c \<Rightarrow> map_ok (\<lambda>(v, c). (v, setStateObject c s)) (obj_GetState g key c))"

definition HasSuicided :: "trie_db \<Rightarrow> bytes \<Rightarrow> StateDB \<Rightarrow> state_panic + bool \<times> StateDB" where
  "HasSuicided g addr s =
     map_ok (\<lambda>(obj, s). (case obj of None \<Rightarrow> False | Some c \<Rightarrow> suicided c, s)) (GetStateObject g addr s)"

definition AddBalance :: "trie_db \<Rightarrow> uint64 \<Rightarrow> bytes \<Rightarrow> int \<Rightarrow> StateDB \<Rightarrow> state_panic + StateDB" where
  "AddBalance g sn addr amount s = map_ok (\<lambda>(c, s). obj_AddBalance amount c s) (GetOrNewStateObject g sn addr s)"

definition SetBalance :: "trie_db \<Rightarrow> uint64 \<Rightarrow> bytes \<Rightarrow> int \<Rightarrow> StateDB \<Rightarrow> state_panic + StateDB" where
  "SetBalance g sn addr amount s = map_ok (\<lambda>(c, s). obj_SetBalance amount c s) (GetOrNewStateObject g sn addr s)"

definition SetNonce :: "trie_db \<Rightarrow> uint64 \<Rightarrow> bytes \<Rightarrow> uint64 \<Rightarrow> StateDB \<Rightarrow> state_panic + StateDB" where
  "SetNonce g sn addr n s = map_ok (\<lambda>(c, s). obj_SetNonce n c s) (GetOrNewStateObject g sn addr s)"

definition SetCode :: "trie_db \<Rightarrow> uint64 \<Rightarrow> bytes \<Rightarrow> bytes option \<Rightarrow> StateDB \<Rightarrow> state_panic + StateDB" where
  "SetCode g sn addr c s =
     map_ok (\<lambda>(obj, s). obj_SetCode g (Keccak256Hash [case c of None \<Rightarrow> [] | Some b \<Rightarrow> b]) c obj s) (GetOrNewStateObject g sn addr s)"

definition SetState :: "trie_db \<Rightarrow> uint64 \<Rightarrow> bytes \<Rightarrow> bytes \<Rightarrow> bytes \<Rightarrow> StateDB \<Rightarrow> state_panic + StateDB" where
  "SetState g sn addr key value s =
     res_bind (GetOrNewStateObject g sn addr s) (\<lambda>(c, s). obj_SetState g key value c s)"

definition Suicide :: "trie_db \<Rightarrow> bytes \<Rightarrow> StateDB \<Rightarrow> state_panic + bool \<times> StateDB" where
  "Suicide g addr s =
     map_ok (\<lambda>(obj, s).
        case obj of
          None \<Rightarrow> (False, s)
        | Some c \<Rightarrow>
            (True, touch (c\<lparr>suicided := True, data := (data c)\<lparr>acc_Balance := 0\<rparr>\<rparr>)
                    (append_journal (SuicideChange addr (suicided c) (acc_Balance (data c))) s)))
       (GetStateObject g addr s)"

definition AddRefund :: "int \<Rightarrow> StateDB \<Rightarrow> StateDB" where
  "AddRefund gas s = (append_journal (RefundChange (refund s)) s)\<lparr>refund := refund s + gas\<rparr>"

definition GetRefund :: "StateDB \<Rightarrow> int" where
  "GetRefund s = refund s"

definition GetLogs :: "bytes \<Rightarrow> StateDB \<Rightarrow> Log list" where
  "GetLogs h s = (case map_of (logs s) h of None \<Rightarrow> [] | Some ls \<Rightarrow> ls)"

definition AddLog :: "Log \<Rightarrow> StateDB \<Rightarrow> StateDB" where
  "AddLog log s =
     (let s = append_journal (AddLogChange (thash s)) s;
          log = log\<lparr>log_TxHash := thash s, log_BlockHash := bhash s, log_TxIndex := txIndex s, log_Index := logSize s\<rparr>
      in s\<lparr>logs := AList.update (thash s) (GetLogs (thash s) s @ [log]) (logs s), logSize := logSize s + 1\<rparr>)"

definition Logs :: "StateDB \<Rightarrow> Log list" where
  "Logs s = concat (map snd (logs s))"

section \<open>Snapshots\<close>

definition undo :: "trie_db \<Rightarrow> journalEntry \<Rightarrow> StateDB \<Rightarrow> state_panic + StateDB" where
  "undo g ch s =
     (case ch of
        CreateObjectChange a \<Rightarrow>
          res_bind (GetStateObject g a s) (\<lambda>(obj, s).
            case obj of
              None \<Rightarrow> Inl NilObject
            | Some c \<Rightarrow>
                Inr (s\<lparr>stateObjects := AList.delete a (stateObjects s), stateObjectsDirty := removeAll a (stateObjectsDirty s)\<rparr>))
      | ResetObjectChange prev \<Rightarrow> Inr (setStateObject prev s)
      | SuicideChange a prev prevbalance \<Rightarrow>
          map_ok (\<lambda>(obj, s).
             case obj of None \<Rightarrow> s | Some c \<Rightarrow> obj_setBalance prevbalance (c\<lparr>suicided := prev\<rparr>) s)
            (GetStateObject g a s)
      | BalanceChange a prev \<Rightarrow>
          res_bind (GetStateObject g a s) (\<lambda>(obj, s).
            case obj of None \<Rightarrow> Inl NilObject | Some c \<Rightarrow> Inr (obj_setBalance prev c s))
      | NonceChange a prev \<Rightarrow>
          res_bind (GetStateObject g a s) (\<lambda>(obj, s).
            case obj of None \<Rightarrow> Inl NilObject | Some c \<Rightarrow> Inr (obj_setNonce prev c s))
      | CodeChange a prevcode prevhash \<Rightarrow>
          res_bind (GetStateObject g a s) (\<lambda>(obj, s).
            case obj of None \<Rightarrow> Inl NilObject | Some c \<Rightarrow> Inr (obj_setCode (BytesToHash prevhash) prevcode c s))
      | StorageChange a key prevalue \<Rightarrow>
          res_bind (GetStateObject g a s) (\<lambda>(obj, s).
            case obj of None \<Rightarrow> Inl NilObject | Some c \<Rightarrow> Inr (obj_setState key prevalue c s))
      | RefundChange prev \<Rightarrow> Inr (s\<lparr>refund := prev\<rparr>)
      | AddLogChange h \<Rightarrow>
          let ls = GetLogs h s
          in if length ls = 1 then Inr (s\<lparr>logs := AList.delete h (logs s)\<rparr>)
             else if ls = [] then Inl LogBounds
             else Inr (s\<lparr>logs := AList.update h (butlast ls) (logs s)\<rparr>))"

fun undo_all :: "trie_db \<Rightarrow> journalEntry list \<Rightarrow> StateDB \<Rightarrow> state_panic + StateDB" where
  "undo_all g [] s = Inr s"
| "undo_all g (ch # chs) s = res_bind (undo g ch s) (undo_all g chs)"

definition Snapshot :: "StateDB \<Rightarrow> nat \<times> StateDB" where
  "Snapshot s =
     (nextRevisionId s,
      s\<lparr>nextRevisionId := nextRevisionId s + 1,
        validRevisions := validRevisions s @ [(nextRevisionId s, length (journal s))]\<rparr>)"

function sort_search :: "(nat \<Rightarrow> bool) \<Rightarrow> nat \<Rightarrow> nat \<Rightarrow> nat" where
  \<comment> \<open>the loop of \<open>sort.Search\<close>\<close>
  "sort_search f i j =
     (if i < j then (let h = i + (j - i) div 2 in if \<not> f h then sort_search f (h + 1) j else sort_search f i h) else i)"
  by pat_completeness auto
termination
  by (relation "measure (\<lambda>(f, i, j). j - i)") auto

declare sort_search.simps [simp del]

definition RevertToSnapshot :: "trie_db \<Rightarrow> nat \<Rightarrow> StateDB \<Rightarrow> state_panic + StateDB" where
  "RevertToSnapshot g revid s =
     (let idx = sort_search (\<lambda>i. revid \<le> fst (validRevisions s ! i)) 0 (length (validRevisions s))
      in if idx = length (validRevisions s) \<or> fst (validRevisions s ! idx) \<noteq> revid then Inl BadRevision
         else
           let snap = snd (validRevisions s ! idx)
           in map_ok (\<lambda>s. s\<lparr>journal := take snap (journal s), validRevisions := take idx (validRevisions s)\<rparr>)
                (undo_all g (rev (drop snap (journal s))) s))"

section \<open>Writing back\<close>

definition updateStateObject :: "trie_db \<Rightarrow> StateObject \<Rightarrow> StateDB \<Rightarrow> state_panic + StateDB" where
  "updateStateObject g obj s =
     (case EncodeRLP obj of
        Inl e \<Rightarrow> Inl EncodeFailed
      | Inr enc \<Rightarrow>
          (case sec_Update g (address obj) enc (st_trie s) of
             (Some e, t) \<Rightarrow> Inl TriePanicked
           | (None, t) \<Rightarrow> Inr (s\<lparr>st_trie := t\<rparr>)))"

definition deleteStateObject :: "trie_db \<Rightarrow> StateObject \<Rightarrow> StateDB \<Rightarrow> state_panic + StateDB" where
  "deleteStateObject g obj s =
     (let s = setStateObject (obj\<lparr>deleted := True\<rparr>) s
      in case sec_Delete g (address obj) (st_trie s) of
           (Some e, t) \<Rightarrow> Inl TriePanicked
         | (None, t) \<Rightarrow> Inr (s\<lparr>st_trie := t\<rparr>))"

fun root_loop :: "trie_db \<Rightarrow> bool \<Rightarrow> bytes list \<Rightarrow> StateDB \<Rightarrow> state_panic + StateDB" where
  \<comment> \<open>the loop of \<open>IntermediateRoot\<close> over the dirty addresses\<close>
  "root_loop g deleteEmptyObjects [] s = Inr s"
| "root_loop g deleteEmptyObjects (addr # addrs) s =
     (case map_of (stateObjects s) addr of
        None \<Rightarrow> Inl NilObject
      | Some obj \<Rightarrow>
          res_bind
            (if suicided obj \<or> deleteEmptyObjects \<and> empty obj then deleteStateObject g obj s
             else res_bind (updateRoot g obj) (\<lambda>obj. updateStateObject g obj (setStateObject obj s)))
            (root_loop g deleteEmptyObjects addrs))"

definition IntermediateRoot :: "trie_db \<Rightarrow> bool \<Rightarrow> StateDB \<Rightarrow> state_panic + bytes \<times> StateDB" where
  "IntermediateRoot g deleteEmptyObjects s =
     res_bind (root_loop g deleteEmptyObjects (stateObjectsDirty s) s) (\<lambda>s.
       let s = clearJournalAndRefund s
       in case sec_Hash (st_trie s) of
            (Inl e, t) \<Rightarrow> Inl TriePanicked
          | (Inr h, t) \<Rightarrow> Inr (h, s\<lparr>st_trie := t\<rparr>))"

definition flag_suicides :: "StateDB \<Rightarrow> bytes list \<Rightarrow> state_panic + StateDB" where
  "flag_suicides s addrs =
     fold (\<lambda>addr r. res_bind r (\<lambda>s.
        case map_of (stateObjects s) addr of
          None \<Rightarrow> Inl NilObject
        | Some obj \<Rightarrow>
            let s = (if suicided obj then setStateObject (obj\<lparr>deleted := True\<rparr>) s else s)
            in Inr (s\<lparr>stateObjectsDirty := removeAll addr (stateObjectsDirty s)\<rparr>))) addrs (Inr s)"

definition DeleteSuicides :: "StateDB \<Rightarrow> state_panic + StateDB" where
  "DeleteSuicides s = (let s = clearJournalAndRefund s in flag_suicides s (stateObjectsDirty s))"

definition commit_object :: "trie_db \<Rightarrow> 'd writer \<Rightarrow> bool \<Rightarrow> bytes \<Rightarrow> StateObject \<Rightarrow> StateDB \<Rightarrow> 'd \<Rightarrow>
    state_panic + state_error option \<times> StateDB \<times> 'd" where
  \<comment> \<open>one turn of the loop of \<open>commit\<close>\<close>
  "commit_object g put deleteEmptyObjects addr obj s d =
     (let isDirty = (addr \<in> set (stateObjectsDirty s));
          finish = (\<lambda>(err, s, d). (err, if err = None then s\<lparr>stateObjectsDirty := removeAll addr (stateObjectsDirty s)\<rparr> else s, d))
      in map_ok finish
           (if suicided obj \<or> isDirty \<and> deleteEmptyObjects \<and> empty obj
            then map_ok (\<lambda>s. (None, s, d)) (deleteStateObject g obj s)
            else if isDirty then
              (let (perr, obj, d) =
                 (case code obj of
                    Some b \<Rightarrow>
                      if dirtyCode obj
                      then (case put (acc_CodeHash (data obj)) b d of
                              (Some e, d) \<Rightarrow> (Some e, obj, d)
                            | (None, d) \<Rightarrow> (None, obj\<lparr>dirtyCode := False\<rparr>, d))
                      else (None, obj, d)
                  | None \<Rightarrow> (None, obj, d))
               in case perr of
                    Some e \<Rightarrow> Inr (Some (CommitError e), setStateObject obj s, d)
                  | None \<Rightarrow>
                      res_bind (CommitTrie g put obj d) (\<lambda>(terr, obj, d).
                        case terr of
                          Some e \<Rightarrow> Inr (Some e, setStateObject obj s, d)
                        | None \<Rightarrow> map_ok (\<lambda>s. (None, s, d)) (updateStateObject g obj (setStateObject obj s))))
            else Inr (None, s, d)))"

fun commit_loop :: "trie_db \<Rightarrow> 'd writer \<Rightarrow> bool \<Rightarrow> bytes list \<Rightarrow> StateDB \<Rightarrow> 'd \<Rightarrow>
    state_panic + state_error option \<times> StateDB \<times> 'd" where
  "commit_loop g put deleteEmptyObjects [] s d = Inr (None, s, d)"
| "commit_loop g put deleteEmptyObjects (addr # addrs) s d =
     (case map_of (stateObjects s) addr of
        None \<Rightarrow> commit_loop g put deleteEmptyObjects addrs s d
      | Some obj \<Rightarrow>
          res_bind (commit_object g put deleteEmptyObjects addr obj s d) (\<lambda>(err, s, d).
            case err of
              Some e \<Rightarrow> Inr (Some e, s, d)
            | None \<Rightarrow> commit_loop g put deleteEmptyObjects addrs s d))"

definition commit :: "trie_db \<Rightarrow> 'd writer \<Rightarrow> bool \<Rightarrow> StateDB \<Rightarrow> 'd \<Rightarrow>
    state_panic + (state_error + bytes) \<times> StateDB \<times> 'd" where
  "commit g put deleteEmptyObjects s d =
     map_ok (\<lambda>(r, s, d). (r, clearJournalAndRefund s, d))
       (res_bind (commit_loop g put deleteEmptyObjects (map fst (stateObjects s)) s d) (\<lambda>(err, s, d).
          case err of
            Some e \<Rightarrow> Inr (Inl e, s, d)
          | None \<Rightarrow>
              (case sec_CommitTo put (st_trie s) d of
                 (Inl e, t, d') \<Rightarrow>
                   if e = TriePanic then Inl TriePanicked
                   else Inr (Inl (CommitError e), s\<lparr>st_trie := t\<rparr>, case d' of None \<Rightarrow> d | Some d \<Rightarrow> d)
               | (Inr rt, t, d') \<Rightarrow> Inr (Inr rt, pushTrie (s\<lparr>st_trie := t\<rparr>), case d' of None \<Rightarrow> d | Some d \<Rightarrow> d))))"

definition CommitBatch :: "trie_db \<Rightarrow> bool \<Rightarrow> StateDB \<Rightarrow> state_panic + bytes \<times> StateDB \<times> memBatch" where
  \<comment> \<open>a batch of the in-memory database; the error of \<open>commit\<close> is dropped, with the zero hash or the root\<close>
  "CommitBatch g deleteEmptyObjects s =
     map_ok (\<lambda>(r, s, b). (case r of Inl e \<Rightarrow> zero_hash | Inr rt \<Rightarrow> rt, s, b))
       (commit g (\<lambda>k v b. (None, case batch_Put k v b of None \<Rightarrow> b | Some b \<Rightarrow> b)) deleteEmptyObjects s NewBatch)"

definition state_Commit :: "bool \<Rightarrow> StateDB \<Rightarrow> MemDatabase \<Rightarrow> (state_panic + bytes \<times> StateDB \<times> MemDatabase) option" where
  \<comment> \<open>on the in-memory database; \<open>None\<close>: waits for its lock\<close>
  "state_Commit deleteEmptyObjects s d =
     (case CommitBatch (map_of (mem_db d)) deleteEmptyObjects s of
        Inl e \<Rightarrow> Some (Inl e)
      | Inr (rt, s, b) \<Rightarrow> map_option (\<lambda>(b, d). Inr (rt, s, d)) (batch_Write b d))"

end
