(* ===== verification/State_Spec.thy ===== *)
theory State_Spec
  imports State_DB
begin

text \<open>
  What the journal is for: reverting to a snapshot restores every account, the refund counter and
  the logs. The state database refines an abstract machine on plain accounts, and the property of
  reverting is proved once on that machine.
\<close>

section \<open>The abstract machine\<close>

record aacct =
  v_nonce :: uint64
  v_balance :: int
  v_root :: bytes
  v_codehash :: bytes
  v_code :: "bytes option"
  v_suicided :: bool
  v_storage :: "bytes \<Rightarrow> bytes"

datatype aentry =
    ACreate bytes
  | AReset bytes aacct
  | ASuicide bytes bool int
  | ABalance bytes int
  | ANonce bytes uint64
  | AStorage bytes bytes bytes
  | ACode bytes "bytes option" bytes
  | ARefund int
  | ALog bytes

record astate =
  accts :: "bytes \<Rightarrow> aacct option"
  arefund :: int
  alogs :: "bytes \<Rightarrow> Log list"
  ajournal :: "aentry list"

definition aset :: "bytes \<Rightarrow> (aacct \<Rightarrow> aacct) \<Rightarrow> astate \<Rightarrow> astate option" where
  "aset a f w = (case accts w a of None \<Rightarrow> None | Some v \<Rightarrow> Some (w\<lparr>accts := (accts w)(a \<mapsto> f v)\<rparr>))"

definition aundo :: "aentry \<Rightarrow> astate \<Rightarrow> astate option" where
  "aundo e w =
     (case e of
        ACreate a \<Rightarrow> if accts w a = None then None else Some (w\<lparr>accts := (accts w)(a := None)\<rparr>)
      | AReset a v \<Rightarrow> Some (w\<lparr>accts := (accts w)(a \<mapsto> v)\<rparr>)
      | ASuicide a p b \<Rightarrow> aset a (\<lambda>v. v\<lparr>v_suicided := p, v_balance := b\<rparr>) w
      | ABalance a b \<Rightarrow> aset a (\<lambda>v. v\<lparr>v_balance := b\<rparr>) w
      | ANonce a n \<Rightarrow> aset a (\<lambda>v. v\<lparr>v_nonce := n\<rparr>) w
      | AStorage a k x \<Rightarrow> aset a (\<lambda>v. v\<lparr>v_storage := (v_storage v)(k := x)\<rparr>) w
      | ACode a c h \<Rightarrow> aset a (\<lambda>v. v\<lparr>v_code := c, v_codehash := h\<rparr>) w
      | ARefund r \<Rightarrow> Some (w\<lparr>arefund := r\<rparr>)
      | ALog h \<Rightarrow> if alogs w h = [] then None else Some (w\<lparr>alogs := (alogs w)(h := butlast (alogs w h))\<rparr>))"

fun aundo_all :: "aentry list \<Rightarrow> astate \<Rightarrow> astate option" where
  "aundo_all [] w = Some w"
| "aundo_all (e # es) w = (case aundo e w of None \<Rightarrow> None | Some w \<Rightarrow> aundo_all es w)"

definition ajot :: "aentry \<Rightarrow> astate \<Rightarrow> astate" where
  "ajot e w = w\<lparr>ajournal := ajournal w @ [e]\<rparr>"

definition new_acct :: "uint64 \<Rightarrow> aacct" where
  "new_acct sn = \<lparr>v_nonce = sn, v_balance = 0, v_root = zero_hash, v_codehash = emptyCodeHash, v_code = None,
     v_suicided = False, v_storage = \<lambda>k. zero_hash\<rparr>"

text \<open>The change of one account, journaled; a missing account is created first.\<close>

definition acreate :: "uint64 \<Rightarrow> bytes \<Rightarrow> astate \<Rightarrow> astate" where
  "acreate sn a w =
     (let e = (case accts w a of None \<Rightarrow> ACreate a | Some v \<Rightarrow> AReset a v)
      in (ajot e w)\<lparr>accts := (accts w)(a \<mapsto> new_acct sn)\<rparr>)"

definition aensure :: "uint64 \<Rightarrow> bytes \<Rightarrow> astate \<Rightarrow> astate" where
  "aensure sn a w = (if accts w a = None then acreate sn a w else w)"

datatype change =
    ChBalance int
  | ChAddBalance int
  | ChNonce uint64
  | ChStorage bytes bytes
  | ChCode "bytes option"

definition is_empty :: "aacct \<Rightarrow> bool" where
  "is_empty v \<longleftrightarrow> v_nonce v = 0 \<and> v_balance v = 0 \<and> v_codehash v = emptyCodeHash"

fun achange :: "bytes \<Rightarrow> change \<Rightarrow> aacct \<Rightarrow> (aentry \<times> aacct) option" where
  \<comment> \<open>the journal entry and the new account, unless nothing changes\<close>
  "achange a (ChBalance b) v = Some (ABalance a (v_balance v), v\<lparr>v_balance := b\<rparr>)"
| "achange a (ChAddBalance b) v =
     (if b = 0 \<and> \<not> is_empty v then None else Some (ABalance a (v_balance v), v\<lparr>v_balance := v_balance v + b\<rparr>))"
| "achange a (ChNonce n) v = Some (ANonce a (v_nonce v), v\<lparr>v_nonce := n\<rparr>)"
| "achange a (ChStorage k x) v = Some (AStorage a k (v_storage v k), v\<lparr>v_storage := (v_storage v)(k := x)\<rparr>)"
| "achange a (ChCode c) v =
     Some (ACode a (v_code v) (v_codehash v), v\<lparr>v_code := c, v_codehash := Keccak256Hash [case c of None \<Rightarrow> [] | Some b \<Rightarrow> b]\<rparr>)"

definition aapply :: "uint64 \<Rightarrow> bytes \<Rightarrow> change \<Rightarrow> astate \<Rightarrow> astate" where
  "aapply sn a ch w =
     (let w = aensure sn a w
      in case accts w a of
           None \<Rightarrow> w
         | Some v \<Rightarrow> (case achange a ch v of None \<Rightarrow> w | Some (e, v) \<Rightarrow> (ajot e w)\<lparr>accts := (accts w)(a \<mapsto> v)\<rparr>))"

definition acreate_account :: "uint64 \<Rightarrow> bytes \<Rightarrow> astate \<Rightarrow> astate" where
  "acreate_account sn a w =
     (let w' = acreate sn a w
      in case accts w a of
           None \<Rightarrow> w'
         | Some v \<Rightarrow> w'\<lparr>accts := (accts w)(a \<mapsto> (new_acct sn)\<lparr>v_balance := v_balance v\<rparr>)\<rparr>)"

definition asuicide :: "bytes \<Rightarrow> astate \<Rightarrow> astate" where
  "asuicide a w =
     (case accts w a of
        None \<Rightarrow> w
      | Some v \<Rightarrow> (ajot (ASuicide a (v_suicided v) (v_balance v)) w)\<lparr>accts := (accts w)(a \<mapsto> v\<lparr>v_suicided := True, v_balance := 0\<rparr>)\<rparr>)"

definition aadd_refund :: "int \<Rightarrow> astate \<Rightarrow> astate" where
  "aadd_refund n w = (ajot (ARefund (arefund w)) w)\<lparr>arefund := arefund w + n\<rparr>"

definition aadd_log :: "bytes \<Rightarrow> Log \<Rightarrow> astate \<Rightarrow> astate" where
  "aadd_log h l w = (ajot (ALog h) w)\<lparr>alogs := (alogs w)(h := alogs w h @ [l])\<rparr>"

text \<open>Two states agree if they differ in the journal only.\<close>

definition same :: "astate \<Rightarrow> astate \<Rightarrow> bool" where
  "same w w' \<longleftrightarrow> w'\<lparr>ajournal := []\<rparr> = w\<lparr>ajournal := []\<rparr>"

definition extended :: "astate \<Rightarrow> astate \<Rightarrow> bool" where
  \<comment> \<open>\<open>w'\<close> extends the journal of \<open>w\<close> with entries whose undoing gives back \<open>w\<close>\<close>
  "extended w w' \<longleftrightarrow>
     (\<exists>es u. ajournal w' = ajournal w @ es \<and> aundo_all (rev es) w' = Some u \<and> same w u)"

lemma same_simps: "same w w' \<longleftrightarrow> accts w' = accts w \<and> arefund w' = arefund w \<and> alogs w' = alogs w"
  by (cases w; cases w') (auto simp: same_def)

lemma aundo_same:
  assumes "same w w'" "aundo e w = Some u"
  shows "\<exists>u'. aundo e w' = Some u' \<and> same u u'"
  using assms by (cases e) (auto simp: same_simps aundo_def aset_def split: option.splits if_splits)

lemma aundo_all_same: "same w w' \<Longrightarrow> aundo_all es w = Some u \<Longrightarrow> \<exists>u'. aundo_all es w' = Some u' \<and> same u u'"
proof (induction es arbitrary: w w')
  case (Cons e es)
  then obtain w1 where w1: "aundo e w = Some w1" "aundo_all es w1 = Some u" by (auto split: option.splits)
  obtain w2 where "aundo e w' = Some w2" "same w1 w2" using aundo_same [OF Cons.prems(1) w1(1)] by blast
  then show ?case using Cons.IH [of w1 w2] w1(2) by simp
qed simp

lemma same_refl [simp]: "same w w"
  by (simp add: same_def)

lemma same_trans: "same u v \<Longrightarrow> same v w \<Longrightarrow> same u w"
  by (simp add: same_simps)

lemma aundo_all_append: "aundo_all (es @ fs) w = Option.bind (aundo_all es w) (aundo_all fs)"
  by (induction es arbitrary: w) (auto split: option.split)

lemma extended_refl [simp]: "extended w w"
  by (auto simp: extended_def intro!: exI [of _ "[]"])

lemma extended_trans:
  assumes "extended u v" "extended v w"
  shows "extended u w"
proof -
  obtain es x where es: "ajournal v = ajournal u @ es" "aundo_all (rev es) v = Some x" "same u x"
    using assms(1) by (auto simp: extended_def)
  obtain fs y where fs: "ajournal w = ajournal v @ fs" "aundo_all (rev fs) w = Some y" "same v y"
    using assms(2) by (auto simp: extended_def)
  obtain z where "aundo_all (rev es) y = Some z" "same x z" using aundo_all_same [OF fs(3) es(2)] by blast
  then have "aundo_all (rev (es @ fs)) w = Some z \<and> same u z"
    using fs(2) same_trans [OF es(3)] by (simp add: aundo_all_append)
  then show ?thesis using es(1) fs(1) by (auto simp: extended_def intro!: exI [of _ "es @ fs"])
qed

lemmas undo_defs = extended_def ajot_def aundo_def aset_def same_simps fun_upd_idem

lemma extended_acreate: "extended w (acreate sn a w)"
  by (cases "accts w a") (auto simp: undo_defs acreate_def Let_def intro!: exI [of _ "[_]"])

lemma extended_change:
  assumes "accts w a = Some v" "achange a ch v = Some (e, v')"
  shows "extended w ((ajot e w)\<lparr>accts := (accts w)(a \<mapsto> v')\<rparr>)"
  using assms
  by (cases ch) (auto simp: undo_defs split: if_splits intro!: exI [of _ "[_]"])

lemma extended_aapply: "extended w (aapply sn a ch w)"
proof -
  have e: "extended w (aensure sn a w)" by (simp add: aensure_def extended_acreate)
  show ?thesis
    using e extended_trans [OF e] extended_change [of "aensure sn a w" a _ ch]
    by (auto simp: aapply_def Let_def split: option.split)
qed

lemma extended_create_account: "extended w (acreate_account sn a w)"
  by (cases "accts w a")
    (auto simp: acreate_account_def Let_def extended_acreate, auto simp: undo_defs acreate_def Let_def intro!: exI [of _ "[_]"])

lemma extended_asuicide: "extended w (asuicide a w)"
  by (cases "accts w a") (auto simp: asuicide_def undo_defs intro!: exI [of _ "[_]"])

lemma extended_aadd_refund: "extended w (aadd_refund n w)"
  by (auto simp: aadd_refund_def undo_defs intro!: exI [of _ "[_]"])

lemma extended_aadd_log: "extended w (aadd_log h l w)"
  by (auto simp: aadd_log_def undo_defs intro!: exI [of _ "[_]"])

end
