(* ===== verification/State_Refine.thy ===== *)
theory State_Refine
  imports State_Spec
begin

text \<open>
  The state database refines the abstract machine: an object stands for the account that its fields,
  its caches, its storage trie and the code in the database make up, a journal entry for the abstract
  entry, and every operation and every \<open>undo\<close> keeps the correspondence.
\<close>

section \<open>The refinement relation\<close>

definition storage_ok :: "(bytes \<Rightarrow> bytes option) \<Rightarrow> bool" where
  "storage_ok mo \<longleftrightarrow> (\<forall>k e. storage_value (mo (keccak k)) \<noteq> Inl e)"

definition stored_at :: "(bytes \<Rightarrow> bytes option) \<Rightarrow> bytes \<Rightarrow> bytes" where
  "stored_at mo k = (case storage_value (mo (keccak k)) of Inl e \<Rightarrow> zero_hash | Inr (v, _) \<Rightarrow> v)"

definition storage_rep :: "trie_db \<Rightarrow> StateObject \<Rightarrow> (bytes \<Rightarrow> bytes option) \<Rightarrow> bool" where
  \<comment> \<open>the storage trie of the object, opened or not, holds \<open>mo\<close>\<close>
  "storage_rep g c mo \<longleftrightarrow>
     storage_ok mo \<and>
     (case so_trie c of
        Some t \<Rightarrow> sec_holds g t mo
      | None \<Rightarrow> \<exists>t. NewSecure 0 (acc_Root (data c)) (Some g) 0 = Inr t \<and> sec_holds g t mo)"

definition obj_view :: "trie_db \<Rightarrow> (bytes \<Rightarrow> bytes option) \<Rightarrow> StateObject \<Rightarrow> aacct" where
  "obj_view g mo c =
     \<lparr>v_nonce = acc_Nonce (data c), v_balance = acc_Balance (data c), v_root = acc_Root (data c),
      v_codehash = acc_CodeHash (data c), v_code = fst (obj_Code g c), v_suicided = suicided c,
      v_storage = \<lambda>k. case map_of (cachedStorage c) k of Some v \<Rightarrow> v | None \<Rightarrow> stored_at mo k\<rparr>"

definition obj_rel :: "trie_db \<Rightarrow> StateObject \<Rightarrow> aacct \<Rightarrow> bool" where
  "obj_rel g c v \<longleftrightarrow> length (acc_CodeHash (data c)) = 32 \<and> (\<exists>mo. storage_rep g c mo \<and> v = obj_view g mo c)"

definition load :: "(bytes \<Rightarrow> bytes option) \<Rightarrow> bytes \<Rightarrow> Account option" where
  \<comment> \<open>the account of an address in the account trie\<close>
  "load m addr =
     (case m (keccak addr) of
        None \<Rightarrow> None
      | Some enc \<Rightarrow> if enc = [] then None else (case decode_account enc of Inl e \<Rightarrow> None | Inr a \<Rightarrow> Some a))"

definition trie_ok :: "trie_db \<Rightarrow> (bytes \<Rightarrow> bytes option) \<Rightarrow> bool" where
  \<comment> \<open>the accounts of the trie have complete storage tries\<close>
  "trie_ok g m \<longleftrightarrow>
     (\<forall>addr enc. m (keccak addr) = Some enc \<longrightarrow> decode_account enc \<noteq> Inl Panic) \<and>
     (\<forall>addr a. load m addr = Some a \<longrightarrow> (\<exists>v. obj_rel g (newObject addr (Some a)) v))"

definition acct_rel :: "trie_db \<Rightarrow> (bytes \<Rightarrow> bytes option) \<Rightarrow> StateDB \<Rightarrow> bytes \<Rightarrow> aacct option \<Rightarrow> bool" where
  "acct_rel g m s addr V \<longleftrightarrow>
     (case map_of (stateObjects s) addr of
        Some c \<Rightarrow> address c = addr \<and> (if deleted c then V = None \<and> load m addr = None else \<exists>v. V = Some v \<and> obj_rel g c v)
      | None \<Rightarrow> (case load m addr of None \<Rightarrow> V = None | Some a \<Rightarrow> \<exists>v. V = Some v \<and> obj_rel g (newObject addr (Some a)) v))"

fun entry_rel :: "trie_db \<Rightarrow> (bytes \<Rightarrow> bytes option) \<Rightarrow> journalEntry \<Rightarrow> aentry \<Rightarrow> bool" where
  "entry_rel g m (CreateObjectChange a) e \<longleftrightarrow> e = ACreate a \<and> load m a = None"
| "entry_rel g m (ResetObjectChange p) e \<longleftrightarrow> (\<exists>v. e = AReset (address p) v \<and> obj_rel g p v \<and> \<not> deleted p)"
| "entry_rel g m (SuicideChange a p b) e \<longleftrightarrow> e = ASuicide a p b"
| "entry_rel g m (BalanceChange a b) e \<longleftrightarrow> e = ABalance a b"
| "entry_rel g m (NonceChange a n) e \<longleftrightarrow> e = ANonce a n"
| "entry_rel g m (StorageChange a k x) e \<longleftrightarrow> e = AStorage a k x"
| "entry_rel g m (CodeChange a c h) e \<longleftrightarrow> e = ACode a c h \<and> length h = 32 \<and> (c = None \<longrightarrow> h = emptyCodeHash \<or> g h = None)"
| "entry_rel g m (RefundChange r) e \<longleftrightarrow> e = ARefund r"
| "entry_rel g m (AddLogChange h) e \<longleftrightarrow> e = ALog h"

definition refines :: "trie_db \<Rightarrow> (bytes \<Rightarrow> bytes option) \<Rightarrow> StateDB \<Rightarrow> astate \<Rightarrow> bool" where
  "refines g m s w \<longleftrightarrow>
     sec_holds g (st_trie s) m \<and> trie_ok g m \<and> (\<forall>addr. acct_rel g m s addr (accts w addr)) \<and>
     arefund w = refund s \<and> (\<forall>h. alogs w h = GetLogs h s) \<and> list_all2 (entry_rel g m) (journal s) (ajournal w)"

definition frame :: "StateDB \<Rightarrow> StateDB \<Rightarrow> bool" where
  \<comment> \<open>nothing changes but the live objects and the nodes the trie has loaded\<close>
  "frame s s' \<longleftrightarrow>
     pastTries s' = pastTries s \<and> stateObjectsDirty s' = stateObjectsDirty s \<and> refund s' = refund s \<and> thash s' = thash s \<and>
     bhash s' = bhash s \<and> txIndex s' = txIndex s \<and> logs s' = logs s \<and> logSize s' = logSize s \<and> journal s' = journal s \<and>
     validRevisions s' = validRevisions s \<and> nextRevisionId s' = nextRevisionId s"

lemma frame_refl [simp]: "frame s s"
  by (simp add: frame_def)

lemma frame_trans: "frame s t \<Longrightarrow> frame t u \<Longrightarrow> frame s u"
  by (simp add: frame_def)

lemma obj_Code_view: "obj_Code g (c\<lparr>onDirty := b\<rparr>) = apsnd (\<lambda>c. c\<lparr>onDirty := b\<rparr>) (obj_Code g c)"
  by (auto simp: obj_Code_def setError_def split: option.split)

lemma obj_rel_onDirty [simp]: "obj_rel g (c\<lparr>onDirty := b\<rparr>) v \<longleftrightarrow> obj_rel g c v"
  by (cases "so_trie c") (simp_all add: obj_rel_def storage_rep_def obj_view_def obj_Code_view)

lemma GetLogs_simps [simp]:
  "GetLogs h (s\<lparr>st_trie := t\<rparr>) = GetLogs h s" "GetLogs h (s\<lparr>stateObjects := os\<rparr>) = GetLogs h s"
  "GetLogs h (s\<lparr>stateObjectsDirty := ds\<rparr>) = GetLogs h s" "GetLogs h (s\<lparr>journal := j\<rparr>) = GetLogs h s"
  "GetLogs h (s\<lparr>refund := r\<rparr>) = GetLogs h s" "GetLogs h (s\<lparr>validRevisions := v\<rparr>) = GetLogs h s"
  "GetLogs h (s\<lparr>nextRevisionId := n\<rparr>) = GetLogs h s"
  by (simp_all add: GetLogs_def)

lemma refines_trie: "refines g m s w \<Longrightarrow> sec_holds g t m \<Longrightarrow> refines g m (s\<lparr>st_trie := t\<rparr>) w"
  by (simp add: refines_def acct_rel_def)

lemma refines_setStateObject:
  assumes "refines g m s w" "obj_rel g c v" "\<not> deleted c"
  shows "refines g m (setStateObject c s) (w\<lparr>accts := (accts w)(address c \<mapsto> v)\<rparr>)"
  using assms by (auto simp: refines_def setStateObject_def acct_rel_def update_conv')

lemma refines_dirty: "refines g m s w \<Longrightarrow> refines g m (MarkStateObjectDirty a s) w"
  by (simp add: refines_def MarkStateObjectDirty_def acct_rel_def)

lemma refines_touch:
  assumes "refines g m s w" "obj_rel g c v" "\<not> deleted c"
  shows "refines g m (touch c s) (w\<lparr>accts := (accts w)(address c \<mapsto> v)\<rparr>)"
  using refines_setStateObject [OF refines_dirty [OF assms(1)], of "c\<lparr>onDirty := False\<rparr>" v "address c"]
    refines_setStateObject [OF assms] assms(2,3)
  by (simp add: touch_def)

lemma refines_journal:
  assumes "refines g m s w" "entry_rel g m e e'"
  shows "refines g m (append_journal e s) (ajot e' w)"
  using assms by (auto simp: refines_def append_journal_def ajot_def acct_rel_def list_all2_appendI)

lemma GetStateObject_refines:
  assumes r: "refines g m s w"
  shows "\<exists>obj s'. GetStateObject g addr s = Inr (obj, s') \<and> refines g m s' w \<and> frame s s' \<and>
    (case obj of
       None \<Rightarrow> accts w addr = None \<and> load m addr = None
     | Some c \<Rightarrow> map_of (stateObjects s') addr = Some c \<and> \<not> deleted c \<and> address c = addr \<and>
         (\<exists>v. accts w addr = Some v \<and> obj_rel g c v))"
proof -
  have a: "acct_rel g m s addr (accts w addr)" and h: "sec_holds g (st_trie s) m" and tk: "trie_ok g m"
    using r by (simp_all add: refines_def)
  show ?thesis
  proof (cases "map_of (stateObjects s) addr")
    case (Some c)
    then show ?thesis using a r by (auto simp: GetStateObject_def acct_rel_def split: if_splits)
  next
    case None
    obtain t where t: "sec_Get g addr (st_trie s) = (Inr (m (keccak addr)), t)" "sec_holds g t m"
      using sec_holds_ops(1) [OF h] by blast
    have rt: "refines g m (s\<lparr>st_trie := t\<rparr>) w" using refines_trie [OF r t(2)] .
    have fr: "frame s (s\<lparr>st_trie := t\<rparr>)" "\<And>os. frame s (s\<lparr>st_trie := t, stateObjects := os\<rparr>)"
      by (simp_all add: frame_def)
    show ?thesis
    proof (cases "load m addr")
      case None
      then have "GetStateObject g addr s = Inr (None, s\<lparr>st_trie := t\<rparr>)"
        using \<open>map_of (stateObjects s) addr = None\<close> t(1) tk
        by (auto simp: GetStateObject_def load_def trie_ok_def Let_def split: option.splits sum.splits if_splits)
      then show ?thesis using a None rt fr(1) \<open>map_of (stateObjects s) addr = None\<close> by (auto simp: acct_rel_def)
    next
      case (Some ac)
      then obtain v where v: "accts w addr = Some v" "obj_rel g (newObject addr (Some ac)) v"
        using a \<open>map_of (stateObjects s) addr = None\<close> by (auto simp: acct_rel_def)
      have g1: "GetStateObject g addr s = Inr (Some (newObject addr (Some ac)), setStateObject (newObject addr (Some ac)) (s\<lparr>st_trie := t\<rparr>))"
        using \<open>map_of (stateObjects s) addr = None\<close> Some t(1)
        by (auto simp: GetStateObject_def load_def Let_def split: option.splits sum.splits if_splits)
      have "refines g m (setStateObject (newObject addr (Some ac)) (s\<lparr>st_trie := t\<rparr>)) w"
        using refines_setStateObject [OF rt v(2)] v(1) by (simp add: newObject_def fun_upd_idem)
      then show ?thesis using g1 v fr(2) by (auto simp: setStateObject_def newObject_def update_conv')
    qed
  qed
qed

subsection \<open>Objects\<close>

lemma obj_relI:
  assumes "storage_rep g c mo" "so_trie c' = so_trie c" "acc_Root (data c') = acc_Root (data c)"
    "length (acc_CodeHash (data c')) = 32"
  shows "obj_rel g c' (obj_view g mo c')"
proof -
  have "storage_rep g c' mo" using assms by (simp add: storage_rep_def cong: option.case_cong)
  then show ?thesis using assms(4) by (auto simp: obj_rel_def)
qed

lemma obj_Code_cong:
  "code c' = code c \<Longrightarrow> acc_CodeHash (data c') = acc_CodeHash (data c) \<Longrightarrow> fst (obj_Code g c') = fst (obj_Code g c)"
  by (auto simp: obj_Code_def split: option.split)

lemma newObject_zero_rel:
  "obj_rel g ((newObject addr None)\<lparr>data := (data (newObject addr None))\<lparr>acc_Nonce := sn\<rparr>, onDirty := b\<rparr>) (new_acct sn)"
proof -
  have "length emptyCodeHash = 32" by (simp add: emptyCodeHash_def)
  moreover obtain t where "NewSecure 0 zero_hash (Some g) 0 = Inr t" "sec_holds g t (\<lambda>k. None)"
    using NewSecure_zero [of 0 g 0] by (auto simp: zero_hash_def)
  ultimately show ?thesis
    by (auto simp: obj_rel_def storage_rep_def obj_view_def newObject_def new_acct_def obj_Code_def storage_ok_def
      storage_value_def stored_at_def intro!: exI [of _ "\<lambda>k. None"])
qed

lemma obj_rel_data:
  assumes "obj_rel g c v"
  shows "acc_Nonce (data c) = v_nonce v" "acc_Balance (data c) = v_balance v" "acc_CodeHash (data c) = v_codehash v"
    "suicided c = v_suicided v" "fst (obj_Code g c) = v_code v" "length (v_codehash v) = 32" "empty c = is_empty v"
  using assms by (auto simp: obj_rel_def obj_view_def empty_def is_empty_def)

lemma obj_Code_fields [simp]:
  "data (snd (obj_Code g c)) = data c" "so_trie (snd (obj_Code g c)) = so_trie c"
  "cachedStorage (snd (obj_Code g c)) = cachedStorage c" "suicided (snd (obj_Code g c)) = suicided c"
  "deleted (snd (obj_Code g c)) = deleted c" "address (snd (obj_Code g c)) = address c"
  "dirtyStorage (snd (obj_Code g c)) = dirtyStorage c"
  by (auto simp: obj_Code_def setError_def split: option.split)

lemma obj_Code_again: "fst (obj_Code g (snd (obj_Code g c))) = fst (obj_Code g c)"
  by (auto simp: obj_Code_def setError_def split: option.split)

lemma obj_Code_rel: "obj_rel g c v \<Longrightarrow> obj_rel g (snd (obj_Code g c)) v"
  by (simp add: obj_rel_def storage_rep_def obj_view_def obj_Code_again cong: option.case_cong)

lemma setError_rel [simp]: "obj_rel g (setError e c) v \<longleftrightarrow> obj_rel g c v"
proof -
  have "fst (obj_Code g (setError e c)) = fst (obj_Code g c)" "so_trie (setError e c) = so_trie c"
    "data (setError e c) = data c" "cachedStorage (setError e c) = cachedStorage c" "suicided (setError e c) = suicided c"
    by (auto simp: obj_Code_def setError_def split: option.split)
  then show ?thesis by (simp add: obj_rel_def storage_rep_def obj_view_def cong: option.case_cong)
qed

lemma obj_GetState_rel:
  assumes "obj_rel g c v"
  shows "\<exists>c'. obj_GetState g key c = Inr (v_storage v key, c') \<and> obj_rel g c' v \<and> address c' = address c \<and> deleted c' = deleted c"
proof -
  obtain mo where mo: "storage_rep g c mo" "v = obj_view g mo c" and ch: "length (acc_CodeHash (data c)) = 32"
    using assms by (auto simp: obj_rel_def)
  show ?thesis
  proof (cases "map_of (cachedStorage c) key")
    case (Some x)
    then show ?thesis using assms mo(2) by (simp add: obj_GetState_def obj_view_def)
  next
    case None
    obtain t where t: "getTrie g c = Inr (t, c\<lparr>so_trie := Some t\<rparr>)" "sec_holds g t mo"
      using mo(1) by (auto simp: getTrie_def storage_rep_def split: option.splits)
    obtain t' where t': "sec_Get g key t = (Inr (mo (keccak key)), t')" "sec_holds g t' mo"
      using sec_holds_ops(1) [OF t(2)] by blast
    obtain x e where x: "storage_value (mo (keccak key)) = Inr (x, e)"
      using mo(1) by (cases "storage_value (mo (keccak key))") (auto simp: storage_rep_def storage_ok_def)
    have vx: "v_storage v key = x" using None mo(2) x by (simp add: obj_view_def stored_at_def)
    define c1 where "c1 = (case e of None \<Rightarrow> c\<lparr>so_trie := Some t'\<rparr> | Some e \<Rightarrow> setError (CannotSplit e) (c\<lparr>so_trie := Some t'\<rparr>))"
    have c1f: "address c1 = address c" "deleted c1 = deleted c"
      by (auto simp: c1_def setError_def split: option.split)
    have "obj_rel g (c\<lparr>so_trie := Some t'\<rparr>) v"
      using mo t'(2) ch by (auto simp: obj_rel_def storage_rep_def obj_view_def obj_Code_def setError_def split: option.split intro!: exI [of _ mo])
    then have c1: "obj_rel g c1 v" by (simp add: c1_def split: option.split)
    have eq: "obj_GetState g key c =
        Inr (x, if x \<noteq> zero_hash then c1\<lparr>cachedStorage := put_entry key x (cachedStorage c1)\<rparr> else c1)"
      using None t(1) t'(1) x by (cases e) (simp_all add: obj_GetState_def Let_def c1_def)
    have "obj_rel g (c1\<lparr>cachedStorage := put_entry key x (cachedStorage c1)\<rparr>) v"
    proof -
      obtain m1 where m1: "storage_rep g c1 m1" "v = obj_view g m1 c1" "length (acc_CodeHash (data c1)) = 32"
        using c1 by (auto simp: obj_rel_def)
      have "obj_view g m1 (c1\<lparr>cachedStorage := put_entry key x (cachedStorage c1)\<rparr>) = obj_view g m1 c1"
        using m1(2) vx by (auto simp: obj_view_def obj_Code_def setError_def fun_eq_iff split: option.split)
      then show ?thesis using m1 obj_relI [OF m1(1), of "c1\<lparr>cachedStorage := put_entry key x (cachedStorage c1)\<rparr>"] by simp
    qed
    then show ?thesis using eq vx c1 c1f by auto
  qed
qed

lemma obj_rel_updates:
  assumes "obj_rel g c v"
  shows "obj_rel g (c\<lparr>data := (data c)\<lparr>acc_Balance := b\<rparr>\<rparr>) (v\<lparr>v_balance := b\<rparr>)"
    "obj_rel g (c\<lparr>data := (data c)\<lparr>acc_Nonce := n\<rparr>\<rparr>) (v\<lparr>v_nonce := n\<rparr>)"
    "obj_rel g (c\<lparr>suicided := p\<rparr>) (v\<lparr>v_suicided := p\<rparr>)"
    "obj_rel g (c\<lparr>cachedStorage := put_entry k x (cachedStorage c), dirtyStorage := ds\<rparr>) (v\<lparr>v_storage := (v_storage v)(k := x)\<rparr>)"
proof -
  obtain mo where mo: "storage_rep g c mo" "v = obj_view g mo c" "length (acc_CodeHash (data c)) = 32"
    using assms by (auto simp: obj_rel_def)
  show "obj_rel g (c\<lparr>data := (data c)\<lparr>acc_Balance := b\<rparr>\<rparr>) (v\<lparr>v_balance := b\<rparr>)"
    using obj_relI [OF mo(1), of "c\<lparr>data := (data c)\<lparr>acc_Balance := b\<rparr>\<rparr>"] mo(2,3)
      obj_Code_cong [of "c\<lparr>data := (data c)\<lparr>acc_Balance := b\<rparr>\<rparr>" c g] by (simp add: obj_view_def)
  show "obj_rel g (c\<lparr>data := (data c)\<lparr>acc_Nonce := n\<rparr>\<rparr>) (v\<lparr>v_nonce := n\<rparr>)"
    using obj_relI [OF mo(1), of "c\<lparr>data := (data c)\<lparr>acc_Nonce := n\<rparr>\<rparr>"] mo(2,3)
      obj_Code_cong [of "c\<lparr>data := (data c)\<lparr>acc_Nonce := n\<rparr>\<rparr>" c g] by (simp add: obj_view_def)
  show "obj_rel g (c\<lparr>suicided := p\<rparr>) (v\<lparr>v_suicided := p\<rparr>)"
    using obj_relI [OF mo(1), of "c\<lparr>suicided := p\<rparr>"] mo(2,3) obj_Code_cong [of "c\<lparr>suicided := p\<rparr>" c g] by (simp add: obj_view_def)
  let ?c = "c\<lparr>cachedStorage := put_entry k x (cachedStorage c), dirtyStorage := ds\<rparr>"
  have "obj_view g mo ?c = v\<lparr>v_storage := (v_storage v)(k := x)\<rparr>"
    using mo(2) obj_Code_cong [of ?c c g] by (simp add: obj_view_def fun_eq_iff)
  then show "obj_rel g ?c (v\<lparr>v_storage := (v_storage v)(k := x)\<rparr>)"
    using obj_relI [OF mo(1), of ?c] mo(3) by simp
qed

lemma obj_rel_code:
  assumes "obj_rel g c v" "length h = 32" "x = None \<longrightarrow> h = emptyCodeHash \<or> g h = None"
  shows "obj_rel g (c\<lparr>code := x, data := (data c)\<lparr>acc_CodeHash := h\<rparr>, dirtyCode := True\<rparr>) (v\<lparr>v_code := x, v_codehash := h\<rparr>)"
proof -
  obtain mo where mo: "storage_rep g c mo" "v = obj_view g mo c" using assms by (auto simp: obj_rel_def)
  let ?c = "c\<lparr>code := x, data := (data c)\<lparr>acc_CodeHash := h\<rparr>, dirtyCode := True\<rparr>"
  have "fst (obj_Code g ?c) = x" using assms(3) by (auto simp: obj_Code_def split: option.split)
  then have "obj_view g mo ?c = v\<lparr>v_code := x, v_codehash := h\<rparr>" using mo(2) by (simp add: obj_view_def)
  then show ?thesis using obj_relI [OF mo(1), of ?c] assms(2) by simp
qed

section \<open>Every operation refines its abstract counterpart\<close>

definition keeps :: "StateDB \<Rightarrow> StateDB \<Rightarrow> bool" where
  \<comment> \<open>the transaction that is recorded and the snapshots stay\<close>
  "keeps s s' \<longleftrightarrow>
     thash s' = thash s \<and> bhash s' = bhash s \<and> txIndex s' = txIndex s \<and>
     validRevisions s' = validRevisions s \<and> nextRevisionId s' = nextRevisionId s"

lemma keeps_refl [simp]: "keeps s s"
  by (simp add: keeps_def)

lemma keeps_trans: "keeps s t \<Longrightarrow> keeps t u \<Longrightarrow> keeps s u"
  by (simp add: keeps_def)

lemma keeps_frame: "frame s s' \<Longrightarrow> keeps s s'"
  by (simp add: keeps_def frame_def)

lemma keeps_simps [simp]:
  "keeps s (touch c s') \<longleftrightarrow> keeps s s'" "keeps s (append_journal e s') \<longleftrightarrow> keeps s s'"
  "keeps s (setStateObject c s') \<longleftrightarrow> keeps s s'" "keeps s (MarkStateObjectDirty a s') \<longleftrightarrow> keeps s s'"
  by (simp_all add: keeps_def touch_def append_journal_def setStateObject_def MarkStateObjectDirty_def)

lemma accts_ajot [simp]: "accts (ajot e w) = accts w"
  by (simp add: ajot_def)

definition gives :: "trie_db \<Rightarrow> (bytes \<Rightarrow> bytes option) \<Rightarrow> StateDB \<Rightarrow> state_panic + StateDB \<Rightarrow> astate \<Rightarrow> bool" where
  \<comment> \<open>the operation returns, in a state that refines \<open>w'\<close>\<close>
  "gives g m s r w' \<longleftrightarrow> (\<exists>s'. r = Inr s' \<and> refines g m s' w' \<and> keeps s s')"

lemma createObject_refines:
  assumes "refines g m s w"
  shows "\<exists>c prev s'. createObject g sn a s = Inr (c, prev, s') \<and> refines g m s' (acreate sn a w) \<and> keeps s s' \<and>
    obj_rel g c (new_acct sn) \<and> address c = a \<and> \<not> deleted c \<and>
    (case prev of None \<Rightarrow> accts w a = None | Some p \<Rightarrow> \<exists>v. accts w a = Some v \<and> obj_rel g p v)"
proof -
  obtain prev s1 where g1: "GetStateObject g a s = Inr (prev, s1)" "refines g m s1 w" "frame s s1"
    and p: "case prev of None \<Rightarrow> accts w a = None \<and> load m a = None
      | Some c \<Rightarrow> map_of (stateObjects s1) a = Some c \<and> \<not> deleted c \<and> address c = a \<and> (\<exists>v. accts w a = Some v \<and> obj_rel g c v)"
    using GetStateObject_refines [OF assms] by blast
  define c where "c = (newObject a None)\<lparr>data := (data (newObject a None))\<lparr>acc_Nonce := sn\<rparr>, onDirty := False\<rparr>"
  have c: "obj_rel g c (new_acct sn)" "address c = a" "\<not> deleted c"
    using newObject_zero_rel [where addr = a and g = g and sn = sn and b = False] by (auto simp: c_def newObject_def)
  define e where "e = (case prev of None \<Rightarrow> CreateObjectChange a | Some p \<Rightarrow> ResetObjectChange p)"
  define e' where "e' = (case accts w a of None \<Rightarrow> ACreate a | Some v \<Rightarrow> AReset a v)"
  have "entry_rel g m e e'" using p by (auto simp: e_def e'_def split: option.splits)
  then have "refines g m (append_journal e (MarkStateObjectDirty a s1)) (ajot e' w)"
    by (rule refines_journal [OF refines_dirty [OF g1(2)]])
  from refines_setStateObject [OF this c(1,3)]
  have r: "refines g m (setStateObject c (append_journal e (MarkStateObjectDirty a s1))) (acreate sn a w)"
    by (simp add: acreate_def Let_def e'_def c(2))
  have "createObject g sn a s = Inr (c, prev, setStateObject c (append_journal e (MarkStateObjectDirty a s1)))"
    using g1(1) by (simp add: createObject_def Let_def c_def e_def)
  then show ?thesis using r c p keeps_frame [OF g1(3)] by (auto split: option.splits)
qed

lemma GetOrNewStateObject_refines:
  assumes "refines g m s w"
  shows "\<exists>c s' v. GetOrNewStateObject g sn a s = Inr (c, s') \<and> refines g m s' (aensure sn a w) \<and> keeps s s' \<and>
    accts (aensure sn a w) a = Some v \<and> obj_rel g c v \<and> address c = a \<and> \<not> deleted c"
proof -
  obtain obj s1 where g1: "GetStateObject g a s = Inr (obj, s1)" "refines g m s1 w" "frame s s1"
    and p: "case obj of None \<Rightarrow> accts w a = None \<and> load m a = None
      | Some c \<Rightarrow> map_of (stateObjects s1) a = Some c \<and> \<not> deleted c \<and> address c = a \<and> (\<exists>v. accts w a = Some v \<and> obj_rel g c v)"
    using GetStateObject_refines [OF assms] by blast
  show ?thesis
  proof (cases obj)
    case (Some c)
    then show ?thesis using g1 p keeps_frame [OF g1(3)] by (auto simp: GetOrNewStateObject_def aensure_def)
  next
    case None
    obtain c prev s2 where "createObject g sn a s1 = Inr (c, prev, s2)" "refines g m s2 (acreate sn a w)" "keeps s1 s2"
      "obj_rel g c (new_acct sn)" "address c = a" "\<not> deleted c"
      using createObject_refines [OF g1(2), of sn a] by blast
    moreover have "accts (acreate sn a w) a = Some (new_acct sn)" by (simp add: acreate_def Let_def)
    ultimately show ?thesis
      using None p g1(1) keeps_trans [OF keeps_frame [OF g1(3)]] by (auto simp: GetOrNewStateObject_def aensure_def)
  qed
qed

lemma CreateAccount_refines:
  assumes "refines g m s w"
  shows "gives g m s (CreateAccount g sn a s) (acreate_account sn a w)"
proof -
  obtain c prev s1 where c: "createObject g sn a s = Inr (c, prev, s1)" "refines g m s1 (acreate sn a w)" "keeps s s1"
    "obj_rel g c (new_acct sn)" "address c = a" "\<not> deleted c"
    and p: "case prev of None \<Rightarrow> accts w a = None | Some p \<Rightarrow> \<exists>v. accts w a = Some v \<and> obj_rel g p v"
    using createObject_refines [OF assms, of sn a] by blast
  show ?thesis
  proof (cases prev)
    case None
    then show ?thesis using c p by (simp add: gives_def CreateAccount_def acreate_account_def Let_def)
  next
    case (Some q)
    then obtain v where v: "accts w a = Some v" "obj_rel g q v" using p by auto
    show ?thesis
      using refines_touch [OF c(2) obj_rel_updates(1) [OF c(4), of "v_balance v"]] c v Some
      by (simp add: gives_def CreateAccount_def acreate_account_def Let_def obj_rel_data acreate_def)
  qed
qed

lemma journaled_touch:
  assumes "refines g m s w" "entry_rel g m e e'" "obj_rel g c v'" "\<not> deleted c" "address c = a"
  shows "refines g m (touch c (append_journal e s)) ((ajot e' w)\<lparr>accts := (accts w)(a \<mapsto> v')\<rparr>)"
  using refines_touch [OF refines_journal [OF assms(1,2)] assms(3,4)] assms(5) by simp

lemma aapply_eq:
  "accts (aensure sn a w) a = Some v \<Longrightarrow> achange a ch v = Some (e, v') \<Longrightarrow>
   aapply sn a ch w = (ajot e (aensure sn a w))\<lparr>accts := (accts (aensure sn a w))(a \<mapsto> v')\<rparr>"
  by (simp add: aapply_def Let_def)

lemma SetBalance_refines:
  assumes "refines g m s w"
  shows "gives g m s (SetBalance g sn a b s) (aapply sn a (ChBalance b) w)"
proof -
  obtain c s1 v where c: "GetOrNewStateObject g sn a s = Inr (c, s1)" "refines g m s1 (aensure sn a w)" "keeps s s1"
    "accts (aensure sn a w) a = Some v" "obj_rel g c v" "address c = a" "\<not> deleted c"
    using GetOrNewStateObject_refines [OF assms] by blast
  show ?thesis
    using journaled_touch [OF c(2) _ obj_rel_updates(1) [OF c(5)], where e = "BalanceChange a (v_balance v)" and e' = "ABalance a (v_balance v)" and a = a and b1 = b]
      aapply_eq [OF c(4)] c
    by (simp add: gives_def SetBalance_def obj_SetBalance_def obj_setBalance_def obj_rel_data)
qed

lemma AddBalance_refines:
  assumes "refines g m s w"
  shows "gives g m s (AddBalance g sn a b s) (aapply sn a (ChAddBalance b) w)"
proof -
  obtain c s1 v where c: "GetOrNewStateObject g sn a s = Inr (c, s1)" "refines g m s1 (aensure sn a w)" "keeps s s1"
    "accts (aensure sn a w) a = Some v" "obj_rel g c v" "address c = a" "\<not> deleted c"
    using GetOrNewStateObject_refines [OF assms] by blast
  show ?thesis
  proof (cases "b = 0 \<and> \<not> is_empty v")
    case True
    then show ?thesis using c by (simp add: gives_def AddBalance_def obj_AddBalance_def obj_rel_data aapply_def Let_def)
  next
    case False
    then show ?thesis
      using journaled_touch [OF c(2) _ obj_rel_updates(1) [OF c(5)],
          where e = "BalanceChange a (v_balance v)" and e' = "ABalance a (v_balance v)" and a = a and b1 = "v_balance v + b"]
        aapply_eq [OF c(4), of "ChAddBalance b"] c
      by (auto simp: gives_def AddBalance_def obj_AddBalance_def obj_SetBalance_def obj_setBalance_def obj_rel_data)
  qed
qed

lemma SetNonce_refines:
  assumes "refines g m s w"
  shows "gives g m s (SetNonce g sn a n s) (aapply sn a (ChNonce n) w)"
proof -
  obtain c s1 v where c: "GetOrNewStateObject g sn a s = Inr (c, s1)" "refines g m s1 (aensure sn a w)" "keeps s s1"
    "accts (aensure sn a w) a = Some v" "obj_rel g c v" "address c = a" "\<not> deleted c"
    using GetOrNewStateObject_refines [OF assms] by blast
  show ?thesis
    using journaled_touch [OF c(2) _ obj_rel_updates(2) [OF c(5)], where e = "NonceChange a (v_nonce v)" and e' = "ANonce a (v_nonce v)" and a = a and n1 = n]
      aapply_eq [OF c(4)] c
    by (simp add: gives_def SetNonce_def obj_SetNonce_def obj_setNonce_def obj_rel_data)
qed

lemma SetState_refines:
  assumes "refines g m s w"
  shows "gives g m s (SetState g sn a k x s) (aapply sn a (ChStorage k x) w)"
proof -
  obtain c s1 v where c: "GetOrNewStateObject g sn a s = Inr (c, s1)" "refines g m s1 (aensure sn a w)" "keeps s s1"
    "accts (aensure sn a w) a = Some v" "obj_rel g c v" "address c = a" "\<not> deleted c"
    using GetOrNewStateObject_refines [OF assms] by blast
  obtain c' where c': "obj_GetState g k c = Inr (v_storage v k, c')" "obj_rel g c' v" "address c' = a" "\<not> deleted c'"
    using obj_GetState_rel [OF c(5)] c(6,7) by blast
  show ?thesis
    using journaled_touch [OF c(2) _ obj_rel_updates(4) [OF c'(2)],
        where e = "StorageChange a k (v_storage v k)" and e' = "AStorage a k (v_storage v k)" and a = a and k1 = k and x1 = x and ds1 = "put_entry k x (dirtyStorage c')"]
      aapply_eq [OF c(4)] c c'
    by (simp add: gives_def SetState_def obj_SetState_def obj_setState_def)
qed

lemma no_code: "obj_rel g c v \<Longrightarrow> v_code v = None \<Longrightarrow> v_codehash v = emptyCodeHash \<or> g (v_codehash v) = None"
  by (auto simp: obj_rel_def obj_view_def obj_Code_def split: option.splits if_splits)

lemma SetCode_refines:
  assumes "refines g m s w"
  shows "gives g m s (SetCode g sn a b s) (aapply sn a (ChCode b) w)"
proof -
  obtain c s1 v where c: "GetOrNewStateObject g sn a s = Inr (c, s1)" "refines g m s1 (aensure sn a w)" "keeps s s1"
    "accts (aensure sn a w) a = Some v" "obj_rel g c v" "address c = a" "\<not> deleted c"
    using GetOrNewStateObject_refines [OF assms] by blast
  define h where "h = Keccak256Hash [case b of None \<Rightarrow> [] | Some b \<Rightarrow> b]"
  define c' where "c' = snd (obj_Code g c)"
  have c': "obj_Code g c = (v_code v, c')" "obj_rel g c' v" "address c' = a" "\<not> deleted c'"
    using c obj_Code_rel [OF c(5)] obj_rel_data(5) [OF c(5)] by (auto simp: c'_def prod_eq_iff)
  have h: "length h = 32" "b = None \<longrightarrow> h = emptyCodeHash \<or> g h = None"
    by (auto simp: h_def Keccak256Hash_eq emptyCodeHash_def)
  have e: "entry_rel g m (CodeChange a (v_code v) (v_codehash v)) (ACode a (v_code v) (v_codehash v))"
    using no_code [OF c(5)] obj_rel_data(6) [OF c(5)] by simp
  have "refines g m (obj_SetCode g h b c s1) (aapply sn a (ChCode b) w)"
    using journaled_touch [OF c(2) e obj_rel_code [OF c'(2) h], of a] aapply_eq [OF c(4), of "ChCode b"] c'
      obj_rel_data(3) [OF c'(2)]
    by (simp add: obj_SetCode_def obj_setCode_def h_def)
  moreover have "keeps s (obj_SetCode g h b c s1)" using c(3) by (simp add: obj_SetCode_def obj_setCode_def c'(1))
  ultimately show ?thesis using c(1) by (simp add: gives_def SetCode_def h_def)
qed

lemma Suicide_refines:
  assumes "refines g m s w"
  shows "gives g m s (map_ok snd (Suicide g a s)) (asuicide a w)"
proof -
  obtain obj s1 where g1: "GetStateObject g a s = Inr (obj, s1)" "refines g m s1 w" "frame s s1"
    and p: "case obj of None \<Rightarrow> accts w a = None \<and> load m a = None
      | Some c \<Rightarrow> map_of (stateObjects s1) a = Some c \<and> \<not> deleted c \<and> address c = a \<and> (\<exists>v. accts w a = Some v \<and> obj_rel g c v)"
    using GetStateObject_refines [OF assms] by blast
  show ?thesis
  proof (cases obj)
    case None
    then show ?thesis using g1 p keeps_frame [OF g1(3)] by (auto simp: gives_def Suicide_def asuicide_def)
  next
    case (Some c)
    then obtain v where v: "accts w a = Some v" "obj_rel g c v" "\<not> deleted c" "address c = a" using p by auto
    have "obj_rel g (c\<lparr>suicided := True, data := (data c)\<lparr>acc_Balance := 0\<rparr>\<rparr>) (v\<lparr>v_suicided := True, v_balance := 0\<rparr>)"
      using obj_rel_updates(1) [OF obj_rel_updates(3) [OF v(2)]] by simp
    from journaled_touch [OF g1(2) _ this, of "SuicideChange a (v_suicided v) (v_balance v)" "ASuicide a (v_suicided v) (v_balance v)"]
    show ?thesis
      using Some g1(1) v keeps_frame [OF g1(3)] by (simp add: gives_def Suicide_def asuicide_def obj_rel_data)
  qed
qed

lemma AddRefund_refines: "refines g m s w \<Longrightarrow> refines g m (AddRefund n s) (aadd_refund n w)"
  using refines_journal [of g m s w "RefundChange (refund s)" "ARefund (refund s)"]
  by (auto simp: AddRefund_def aadd_refund_def refines_def acct_rel_def)

lemma AddLog_refines:
  assumes "refines g m s w"
  shows "\<exists>l. refines g m (AddLog log s) (aadd_log (thash s) l w)"
proof -
  define l where "l = log\<lparr>log_TxHash := thash s, log_BlockHash := bhash s, log_TxIndex := txIndex s, log_Index := logSize s\<rparr>"
  have "refines g m (append_journal (AddLogChange (thash s)) s) (ajot (ALog (thash s)) w)"
    using refines_journal [OF assms] by simp
  moreover have "AddLog log s = (append_journal (AddLogChange (thash s)) s)
      \<lparr>logs := AList.update (thash s) (GetLogs (thash s) s @ [l]) (logs s), logSize := logSize s + 1\<rparr>"
    by (simp add: AddLog_def Let_def l_def append_journal_def)
  ultimately have "refines g m (AddLog log s) (aadd_log (thash s) l w)"
    using assms by (simp add: refines_def aadd_log_def acct_rel_def GetLogs_def update_conv' append_journal_def ajot_def)
  then show ?thesis ..
qed

section \<open>Undoing refines undoing\<close>

lemma acct_rel_simps [simp]:
  "acct_rel g m (s\<lparr>refund := r\<rparr>) = acct_rel g m s" "acct_rel g m (s\<lparr>journal := j\<rparr>) = acct_rel g m s"
  "acct_rel g m (s\<lparr>validRevisions := v\<rparr>) = acct_rel g m s" "acct_rel g m (s\<lparr>nextRevisionId := i\<rparr>) = acct_rel g m s"
  "acct_rel g m (StartRecord th bh ti s) = acct_rel g m s"
  by (simp_all add: acct_rel_def StartRecord_def fun_eq_iff)

lemma aundo_journal: "aundo e w = Some u \<Longrightarrow> ajournal u = ajournal w"
  by (auto simp: aundo_def aset_def split: aentry.splits option.splits if_splits)

lemma aundo_all_journal: "aundo_all es w = Some u \<Longrightarrow> ajournal u = ajournal w"
  by (induction es arbitrary: w) (auto split: option.splits dest: aundo_journal)

lemma refines_delete:
  assumes "refines g m s w" "load m a = None"
  shows "refines g m (s\<lparr>stateObjects := AList.delete a (stateObjects s), stateObjectsDirty := ds\<rparr>) (w\<lparr>accts := (accts w)(a := None)\<rparr>)"
  using assms by (auto simp: refines_def acct_rel_def delete_conv')

lemma undo_touch:
  assumes "refines g m s w" "aset a f w = Some w'"
    and upd: "\<And>c v. obj_rel g c v \<Longrightarrow> obj_rel g (F c) (f v) \<and> address (F c) = address c \<and> deleted (F c) = deleted c"
  shows "\<exists>c s1. GetStateObject g a s = Inr (Some c, s1) \<and> refines g m (touch (F c) s1) w' \<and> keeps s s1"
proof -
  obtain obj s1 where g1: "GetStateObject g a s = Inr (obj, s1)" "refines g m s1 w" "frame s s1"
    and p: "case obj of None \<Rightarrow> accts w a = None \<and> load m a = None
      | Some c \<Rightarrow> map_of (stateObjects s1) a = Some c \<and> \<not> deleted c \<and> address c = a \<and> (\<exists>v. accts w a = Some v \<and> obj_rel g c v)"
    using GetStateObject_refines [OF assms(1)] by blast
  obtain v where v: "accts w a = Some v" "w' = w\<lparr>accts := (accts w)(a \<mapsto> f v)\<rparr>"
    using assms(2) by (auto simp: aset_def split: option.splits)
  then obtain c where c: "obj = Some c" "\<not> deleted c" "address c = a" "obj_rel g c v" using p by (auto split: option.splits)
  show ?thesis
    using refines_touch [OF g1(2), of "F c" "f v"] upd [OF c(4)] c g1(1) v(2) keeps_frame [OF g1(3)] by auto
qed

lemma undo_log_refines:
  assumes "refines g m s w" "alogs w h \<noteq> []"
  shows "\<exists>s'. undo g (AddLogChange h) s = Inr s' \<and> refines g m s' (w\<lparr>alogs := (alogs w)(h := butlast (alogs w h))\<rparr>) \<and> keeps s s'"
proof -
  define ls where "ls = GetLogs h s"
  have ls: "alogs w h = ls" "ls \<noteq> []" using assms by (auto simp: refines_def ls_def)
  show ?thesis
  proof (cases "length ls = 1")
    case True
    then have "butlast ls = []" by (cases ls) auto
    then show ?thesis using True assms(1) ls
      by (auto simp: undo_def ls_def Let_def refines_def acct_rel_def GetLogs_def delete_conv' keeps_def)
  next
    case False
    then show ?thesis using assms(1) ls
      by (auto simp: undo_def ls_def Let_def refines_def acct_rel_def GetLogs_def update_conv' keeps_def)
  qed
qed

lemma undo_refines:
  assumes "refines g m s w" "entry_rel g m e e'" "aundo e' w = Some w'"
  shows "gives g m s (undo g e s) w'"
proof (cases e)
  case (CreateObjectChange a)
  obtain obj s1 where g1: "GetStateObject g a s = Inr (obj, s1)" "refines g m s1 w" "frame s s1"
    and p: "case obj of None \<Rightarrow> accts w a = None \<and> load m a = None
      | Some c \<Rightarrow> map_of (stateObjects s1) a = Some c \<and> \<not> deleted c \<and> address c = a \<and> (\<exists>v. accts w a = Some v \<and> obj_rel g c v)"
    using GetStateObject_refines [OF assms(1)] by blast
  then show ?thesis using assms(2,3) CreateObjectChange refines_delete [OF g1(2)] keeps_frame [OF g1(3)]
    by (auto simp: aundo_def undo_def gives_def keeps_def split: if_splits option.splits)
next
  case (ResetObjectChange p)
  then show ?thesis using assms refines_setStateObject [OF assms(1)] by (auto simp: aundo_def undo_def gives_def)
next
  case (SuicideChange a p b)
  show ?thesis using SuicideChange assms obj_rel_updates(1) [OF obj_rel_updates(3)]
      undo_touch [OF assms(1), of a "\<lambda>v. v\<lparr>v_suicided := p, v_balance := b\<rparr>" w' "\<lambda>c. c\<lparr>suicided := p, data := (data c)\<lparr>acc_Balance := b\<rparr>\<rparr>"]
    by (fastforce simp: aundo_def undo_def gives_def obj_setBalance_def)
next
  case (BalanceChange a b)
  then show ?thesis using assms obj_rel_updates(1)
      undo_touch [OF assms(1), of a "\<lambda>v. v\<lparr>v_balance := b\<rparr>" w' "\<lambda>c. c\<lparr>data := (data c)\<lparr>acc_Balance := b\<rparr>\<rparr>"]
    by (fastforce simp: aundo_def undo_def gives_def obj_setBalance_def)
next
  case (NonceChange a n)
  then show ?thesis using assms obj_rel_updates(2)
      undo_touch [OF assms(1), of a "\<lambda>v. v\<lparr>v_nonce := n\<rparr>" w' "\<lambda>c. c\<lparr>data := (data c)\<lparr>acc_Nonce := n\<rparr>\<rparr>"]
    by (fastforce simp: aundo_def undo_def gives_def obj_setNonce_def)
next
  case (StorageChange a k x)
  then show ?thesis using assms obj_rel_updates(4)
      undo_touch [OF assms(1), of a "\<lambda>v. v\<lparr>v_storage := (v_storage v)(k := x)\<rparr>" w'
        "\<lambda>c. c\<lparr>cachedStorage := put_entry k x (cachedStorage c), dirtyStorage := put_entry k x (dirtyStorage c)\<rparr>"]
    by (fastforce simp: aundo_def undo_def gives_def obj_setState_def)
next
  case (CodeChange a b h)
  then have h: "length h = 32" "b = None \<longrightarrow> h = emptyCodeHash \<or> g h = None" "aset a (\<lambda>v. v\<lparr>v_code := b, v_codehash := h\<rparr>) w = Some w'"
    using assms(2,3) by (auto simp: aundo_def)
  show ?thesis using obj_rel_code [where g = g and h = h and x = b] h CodeChange
      undo_touch [OF assms(1) h(3), of "\<lambda>c. c\<lparr>code := b, data := (data c)\<lparr>acc_CodeHash := h\<rparr>, dirtyCode := True\<rparr>"]
    by (fastforce simp: undo_def gives_def obj_setCode_def BytesToHash_32)
next
  case (RefundChange r)
  then show ?thesis using assms by (auto simp: aundo_def undo_def gives_def refines_def keeps_def)
next
  case (AddLogChange h)
  then show ?thesis using assms undo_log_refines [OF assms(1), of h] by (auto simp: aundo_def gives_def split: if_splits)
qed

lemma undo_all_refines:
  "refines g m s w \<Longrightarrow> list_all2 (entry_rel g m) es es' \<Longrightarrow> aundo_all es' w = Some w' \<Longrightarrow> gives g m s (undo_all g es s) w'"
proof (induction es arbitrary: es' s w)
  case Nil
  then show ?case by (simp add: gives_def)
next
  case (Cons e es)
  then obtain f fs where f: "es' = f # fs" "entry_rel g m e f" "list_all2 (entry_rel g m) es fs" by (cases es') auto
  obtain w1 where w1: "aundo f w = Some w1" "aundo_all fs w1 = Some w'" using Cons.prems(3) f(1) by (auto split: option.splits)
  obtain s1 where s1: "undo g e s = Inr s1" "refines g m s1 w1" "keeps s s1"
    using undo_refines [OF Cons.prems(1) f(2) w1(1)] by (auto simp: gives_def)
  show ?case using Cons.IH [OF s1(2) f(3) w1(2)] s1 by (auto simp: gives_def intro: keeps_trans)
qed

section \<open>Reverting\<close>

lemma sort_search_least:
  assumes "i \<le> k" "k \<le> j" "\<And>x. i \<le> x \<Longrightarrow> x < j \<Longrightarrow> f x \<longleftrightarrow> k \<le> x"
  shows "sort_search f i j = k"
  using assms
proof (induction f i j rule: sort_search.induct)
  case (1 f i j)
  show ?case
  proof (cases "i < j")
    case False
    then show ?thesis using 1(3,4) by (subst sort_search.simps) simp
  next
    case True
    define h where "h = i + (j - i) div 2"
    have h: "i \<le> h" "h < j" using True by (auto simp: h_def)
    have eq: "sort_search f i j = (if \<not> f h then sort_search f (h + 1) j else sort_search f i h)"
      using True by (subst sort_search.simps) (simp add: h_def Let_def)
    show ?thesis
    proof (cases "f h")
      case True
      then show ?thesis using 1(2) [OF \<open>i < j\<close> h_def] 1(3-5) h eq by auto
    next
      case False
      then show ?thesis using 1(1) [OF \<open>i < j\<close> h_def] 1(3-5) h eq by auto
    qed
  qed
qed

lemma sort_search_le: "i \<le> j \<Longrightarrow> sort_search f i j \<le> j"
proof (induction f i j rule: sort_search.induct)
  case (1 f i j)
  then show ?case by (subst sort_search.simps) (auto simp: Let_def)
qed

lemma revision_found:
  assumes "sorted_wrt (<) (map fst rs)" "k < length rs" "fst (rs ! k) = (revid :: nat)"
  shows "sort_search (\<lambda>i. revid \<le> fst (rs ! i)) 0 (length rs) = k"
proof (rule sort_search_least)
  fix x
  assume "x < length rs"
  then show "revid \<le> fst (rs ! x) \<longleftrightarrow> k \<le> x"
    using assms sorted_wrt_nth_less [OF assms(1), of x k] sorted_wrt_nth_less [OF assms(1), of k x]
    by (cases "x < k"; cases "x = k") auto
qed (use assms in auto)

lemma RevertToSnapshot_refines:
  assumes r: "refines g m s w" and e: "extended w0 w"
    and k: "sorted_wrt (<) (map fst (validRevisions s))" "k < length (validRevisions s)"
      "validRevisions s ! k = (revid, length (ajournal w0))"
  shows "\<exists>s'. RevertToSnapshot g revid s = Inr s' \<and> refines g m s' w0 \<and> validRevisions s' = take k (validRevisions s) \<and>
    nextRevisionId s' = nextRevisionId s \<and> thash s' = thash s \<and> bhash s' = bhash s \<and> txIndex s' = txIndex s"
proof -
  obtain es u where es: "ajournal w = ajournal w0 @ es" "aundo_all (rev es) w = Some u" "same w0 u"
    using e by (auto simp: extended_def)
  have j: "list_all2 (entry_rel g m) (journal s) (ajournal w0 @ es)" using r es(1) by (simp add: refines_def)
  define n where "n = length (ajournal w0)"
  have j2: "list_all2 (entry_rel g m) (rev (drop n (journal s))) (rev es)"
    using list_all2_dropI [OF j, of n] by (simp add: n_def)
  obtain s1 where s1: "undo_all g (rev (drop n (journal s))) s = Inr s1" "refines g m s1 u" "keeps s s1"
    using undo_all_refines [OF r j2 es(2)] by (auto simp: gives_def)
  have eq: "RevertToSnapshot g revid s = Inr (s1\<lparr>journal := take n (journal s1), validRevisions := take k (validRevisions s1)\<rparr>)"
    using revision_found [OF k(1,2), of revid] k s1(1) by (simp add: RevertToSnapshot_def Let_def n_def)
  have "list_all2 (entry_rel g m) (journal s1) (ajournal w0 @ es)"
    using s1(2) aundo_all_journal [OF es(2)] es(1) by (simp add: refines_def)
  then have "list_all2 (entry_rel g m) (take n (journal s1)) (ajournal w0)"
    using list_all2_takeI [of "entry_rel g m" "journal s1" "ajournal w0 @ es" n] by (simp add: n_def)
  then have "refines g m (s1\<lparr>journal := take n (journal s1), validRevisions := take k (validRevisions s1)\<rparr>) w0"
    using s1(2) es(3) by (simp add: refines_def same_simps)
  then show ?thesis using eq s1(3) by (simp add: keeps_def)
qed

end
