(* ===== verification/State_Revert.thy ===== *)
theory State_Revert
  imports State_Refine "HOL-Library.Sublist"
begin

text \<open>
  Sequences of journaled operations on a state database, with snapshots and reverts nested in any way: what
  the getters show, and that reverting restores the state. \<open>IntermediateRoot\<close>, \<open>DeleteSuicides\<close> and \<open>Commit\<close>
  clear the journal and with it every snapshot; they are not among these operations.
\<close>

section \<open>Sequences of operations\<close>

datatype state_op =
    DoCreateAccount bytes
  | DoChange bytes change
  | DoSuicide bytes
  | DoAddRefund int
  | DoAddLog Log
  | DoStartRecord bytes bytes nat
  | DoGetState bytes bytes
  | DoGetCode bytes
  | DoSnapshot
  | DoRevert nat

definition do_change :: "trie_db \<Rightarrow> uint64 \<Rightarrow> bytes \<Rightarrow> change \<Rightarrow> StateDB \<Rightarrow> state_panic + StateDB" where
  "do_change g sn a ch s =
     (case ch of
        ChBalance b \<Rightarrow> SetBalance g sn a b s
      | ChAddBalance b \<Rightarrow> AddBalance g sn a b s
      | ChNonce n \<Rightarrow> SetNonce g sn a n s
      | ChStorage k x \<Rightarrow> SetState g sn a k x s
      | ChCode c \<Rightarrow> SetCode g sn a c s)"

definition state_step :: "trie_db \<Rightarrow> uint64 \<Rightarrow> state_op \<Rightarrow> StateDB \<Rightarrow> state_panic + StateDB" where
  "state_step g sn op s =
     (case op of
        DoCreateAccount a \<Rightarrow> CreateAccount g sn a s
      | DoChange a ch \<Rightarrow> do_change g sn a ch s
      | DoSuicide a \<Rightarrow> map_ok snd (Suicide g a s)
      | DoAddRefund n \<Rightarrow> Inr (AddRefund n s)
      | DoAddLog l \<Rightarrow> Inr (AddLog l s)
      | DoStartRecord th bh ti \<Rightarrow> Inr (StartRecord th bh ti s)
      | DoGetState a k \<Rightarrow> map_ok snd (GetState g a k s)
      | DoGetCode a \<Rightarrow> map_ok snd (GetCode g a s)
      | DoSnapshot \<Rightarrow> Inr (snd (Snapshot s))
      | DoRevert i \<Rightarrow> RevertToSnapshot g i s)"

fun run_state :: "trie_db \<Rightarrow> uint64 \<Rightarrow> state_op list \<Rightarrow> StateDB \<Rightarrow> state_panic + StateDB" where
  "run_state g sn [] s = Inr s"
| "run_state g sn (op # ops) s = res_bind (state_step g sn op s) (run_state g sn ops)"

text \<open>What the getters show of an address, on the state database and on the abstract machine.\<close>

definition observe :: "trie_db \<Rightarrow> uint64 \<Rightarrow> bytes \<Rightarrow> bytes \<Rightarrow> StateDB \<Rightarrow>
    (state_panic + bool) \<times> (state_panic + bool) \<times> (state_panic + int) \<times> (state_panic + uint64) \<times>
    (state_panic + bytes option) \<times> (state_panic + bytes) \<times> (state_panic + bytes) \<times> (state_panic + bool)" where
  "observe g sn a k s =
     (map_ok fst (Exist g a s), map_ok fst (Empty g a s), map_ok fst (GetBalance g a s), map_ok fst (GetNonce g sn a s),
      map_ok fst (GetCode g a s), map_ok fst (GetCodeHash g a s), map_ok fst (GetState g a k s), map_ok fst (HasSuicided g a s))"

definition aobserve :: "uint64 \<Rightarrow> bytes \<Rightarrow> bytes \<Rightarrow> astate \<Rightarrow>
    (state_panic + bool) \<times> (state_panic + bool) \<times> (state_panic + int) \<times> (state_panic + uint64) \<times>
    (state_panic + bytes option) \<times> (state_panic + bytes) \<times> (state_panic + bytes) \<times> (state_panic + bool)" where
  "aobserve sn a k w =
     (case accts w a of
        None \<Rightarrow> (Inr False, Inr True, Inr 0, Inr sn, Inr None, Inr zero_hash, Inr zero_hash, Inr False)
      | Some v \<Rightarrow> (Inr True, Inr (is_empty v), Inr (v_balance v), Inr (v_nonce v), Inr (v_code v), Inr (v_codehash v),
                   Inr (v_storage v k), Inr (v_suicided v)))"

lemma observe_refines:
  assumes "refines g m s w"
  shows "observe g sn a k s = aobserve sn a k w"
proof -
  obtain obj s1 where g1: "GetStateObject g a s = Inr (obj, s1)"
    and p: "case obj of None \<Rightarrow> accts w a = None \<and> load m a = None
      | Some c \<Rightarrow> map_of (stateObjects s1) a = Some c \<and> \<not> deleted c \<and> address c = a \<and> (\<exists>v. accts w a = Some v \<and> obj_rel g c v)"
    using GetStateObject_refines [OF assms] by blast
  note defs = observe_def aobserve_def Exist_def Empty_def GetBalance_def GetNonce_def GetCode_def GetCodeHash_def
    GetState_def HasSuicided_def g1
  show ?thesis
  proof (cases obj)
    case None
    then show ?thesis using p by (simp add: defs)
  next
    case (Some c)
    then obtain v where v: "accts w a = Some v" "obj_rel g c v" using p by auto
    obtain c' where "obj_GetState g k c = Inr (v_storage v k, c')" using obj_GetState_rel [OF v(2)] by blast
    then show ?thesis using Some v(1) obj_rel_data [OF v(2)] by (simp add: defs case_prod_beta BytesToHash_32)
  qed
qed

lemma reads_refine:
  assumes "refines g m s w"
  shows "gives g m s (map_ok snd (GetState g a k s)) w" "gives g m s (map_ok snd (GetCode g a s)) w"
proof -
  obtain obj s1 where g1: "GetStateObject g a s = Inr (obj, s1)" "refines g m s1 w" "frame s s1"
    and p: "case obj of None \<Rightarrow> accts w a = None \<and> load m a = None
      | Some c \<Rightarrow> map_of (stateObjects s1) a = Some c \<and> \<not> deleted c \<and> address c = a \<and> (\<exists>v. accts w a = Some v \<and> obj_rel g c v)"
    using GetStateObject_refines [OF assms] by blast
  have put: "gives g m s (Inr (setStateObject c' s1)) w"
    if "accts w a = Some v" "obj_rel g c' v" "\<not> deleted c'" "address c' = a" for c' v
    using refines_setStateObject [OF g1(2) that(2,3)] that(1,4) keeps_frame [OF g1(3)] by (simp add: gives_def fun_upd_idem)
  have "gives g m s (map_ok snd (GetState g a k s)) w \<and> gives g m s (map_ok snd (GetCode g a s)) w"
  proof (cases obj)
    case None
    then show ?thesis using g1 keeps_frame [OF g1(3)] by (simp add: gives_def GetState_def GetCode_def)
  next
    case (Some c)
    then obtain v where v: "accts w a = Some v" "obj_rel g c v" "\<not> deleted c" "address c = a" using p by auto
    obtain c' where c': "obj_GetState g k c = Inr (v_storage v k, c')" "obj_rel g c' v" "address c' = a" "\<not> deleted c'"
      using obj_GetState_rel [OF v(2)] v(3,4) by blast
    show ?thesis
      using put [OF v(1) c'(2,4,3)] put [OF v(1) obj_Code_rel [OF v(2)]] v(3,4) Some g1(1) c'(1)
      by (simp add: GetState_def GetCode_def case_prod_beta)
  qed
  then show "gives g m s (map_ok snd (GetState g a k s)) w" "gives g m s (map_ok snd (GetCode g a s)) w" by auto
qed

lemma do_change_refines: "refines g m s w \<Longrightarrow> gives g m s (do_change g sn a ch s) (aapply sn a ch w)"
  by (cases ch) (simp_all add: do_change_def SetBalance_refines AddBalance_refines SetNonce_refines SetState_refines SetCode_refines)

lemma StartRecord_refines: "refines g m s w \<Longrightarrow> refines g m (StartRecord th bh ti s) w"
  by (simp add: refines_def) (simp add: StartRecord_def GetLogs_def)

definition plain :: "state_op \<Rightarrow> bool" where
  "plain op \<longleftrightarrow> op \<noteq> DoSnapshot \<and> (\<forall>i. op \<noteq> DoRevert i)"

lemma plain_step:
  assumes "refines g m s w" "plain op"
  shows "\<exists>s' w'. state_step g sn op s = Inr s' \<and> refines g m s' w' \<and> extended w w' \<and>
    validRevisions s' = validRevisions s \<and> nextRevisionId s' = nextRevisionId s"
proof (cases op)
  case (DoCreateAccount a)
  then show ?thesis using CreateAccount_refines [OF assms(1), of sn a] extended_create_account [of w sn a]
    by (auto simp: state_step_def gives_def keeps_def)
next
  case (DoChange a ch)
  then show ?thesis using do_change_refines [OF assms(1), of sn a ch] extended_aapply [of w sn a ch]
    by (auto simp: state_step_def gives_def keeps_def)
next
  case (DoSuicide a)
  then show ?thesis using Suicide_refines [OF assms(1), of a] extended_asuicide [of w a]
    by (auto simp: state_step_def gives_def keeps_def)
next
  case (DoAddRefund n)
  then show ?thesis using AddRefund_refines [OF assms(1), of n] extended_aadd_refund [of w n]
    by (auto simp: state_step_def AddRefund_def append_journal_def)
next
  case (DoAddLog l)
  then show ?thesis using AddLog_refines [OF assms(1), of l] extended_aadd_log [of w "thash s"]
    by (auto simp: state_step_def AddLog_def append_journal_def Let_def)
next
  case (DoStartRecord th bh ti)
  then show ?thesis using StartRecord_refines [OF assms(1), of th bh ti]
    by (auto simp: state_step_def StartRecord_def intro: extended_refl)
next
  case (DoGetState a k)
  then show ?thesis using reads_refine(1) [OF assms(1), of a k]
    by (auto simp: state_step_def gives_def keeps_def intro: extended_refl)
next
  case (DoGetCode a)
  then show ?thesis using reads_refine(2) [OF assms(1), of a]
    by (auto simp: state_step_def gives_def keeps_def intro: extended_refl)
qed (use assms(2) in \<open>auto simp: plain_def\<close>)

section \<open>The snapshots\<close>

text \<open>
  With every valid revision goes the abstract state at the time of its snapshot; each of them is
  reached again by undoing.
\<close>

definition state_inv :: "trie_db \<Rightarrow> (bytes \<Rightarrow> bytes option) \<Rightarrow> StateDB \<Rightarrow> astate list \<Rightarrow> astate \<Rightarrow> bool" where
  "state_inv g m s gs w \<longleftrightarrow>
     refines g m s w \<and> list_all2 (\<lambda>r u. snd r = length (ajournal u)) (validRevisions s) gs \<and>
     sorted_wrt extended (gs @ [w]) \<and> sorted_wrt (<) (map fst (validRevisions s) @ [nextRevisionId s])"

lemma plain_step_inv:
  assumes "state_inv g m s gs w" "plain op"
  shows "\<exists>s' w'. state_step g sn op s = Inr s' \<and> state_inv g m s' gs w' \<and> validRevisions s' = validRevisions s"
proof -
  obtain s' w' where s': "state_step g sn op s = Inr s'" "refines g m s' w'" "extended w w'"
    "validRevisions s' = validRevisions s" "nextRevisionId s' = nextRevisionId s"
    using plain_step [OF _ assms(2), of g m s w sn] assms(1) by (auto simp: state_inv_def)
  have "\<forall>u\<in>set gs. extended u w'" using assms(1) s'(3) by (auto simp: state_inv_def sorted_wrt_append intro: extended_trans)
  then show ?thesis using s' assms(1) by (auto simp: state_inv_def sorted_wrt_append)
qed

lemma snapshot_inv:
  assumes "state_inv g m s gs w"
  shows "state_inv g m (snd (Snapshot s)) (gs @ [w]) w"
    "validRevisions (snd (Snapshot s)) = validRevisions s @ [(nextRevisionId s, length (ajournal w))]"
proof -
  have "length (journal s) = length (ajournal w)" using assms by (auto simp: state_inv_def refines_def dest: list_all2_lengthD)
  then show "validRevisions (snd (Snapshot s)) = validRevisions s @ [(nextRevisionId s, length (ajournal w))]"
    by (simp add: Snapshot_def)
  moreover have "refines g m (snd (Snapshot s)) w" using assms by (simp add: state_inv_def refines_def Snapshot_def)
  ultimately show "state_inv g m (snd (Snapshot s)) (gs @ [w]) w"
    using assms by (auto simp: state_inv_def sorted_wrt_append Snapshot_def list_all2_appendI)
qed

lemma revert_inv:
  assumes inv: "state_inv g m s gs w" and k: "k < length (validRevisions s)" "fst (validRevisions s ! k) = i"
  shows "\<exists>s'. RevertToSnapshot g i s = Inr s' \<and> state_inv g m s' (take k gs) (gs ! k) \<and> validRevisions s' = take k (validRevisions s)"
proof -
  have len: "length gs = length (validRevisions s)" using inv by (auto simp: state_inv_def dest: list_all2_lengthD)
  have "snd (validRevisions s ! k) = length (ajournal (gs ! k))"
    using inv k(1) by (auto simp: state_inv_def dest: list_all2_nthD)
  then have r: "validRevisions s ! k = (i, length (ajournal (gs ! k)))" using k(2) by (simp add: prod_eq_iff)
  have e: "extended (gs ! k) w" using inv k(1) len by (auto simp: state_inv_def sorted_wrt_append)
  have rf: "refines g m s w" and so: "sorted_wrt (<) (map fst (validRevisions s))"
    using inv by (auto simp: state_inv_def sorted_wrt_append)
  obtain s' where s': "RevertToSnapshot g i s = Inr s'" "refines g m s' (gs ! k)" "validRevisions s' = take k (validRevisions s)"
    "nextRevisionId s' = nextRevisionId s"
    using RevertToSnapshot_refines [OF rf e so k(1) r] by blast
  have "sorted_wrt extended (take (Suc k) gs)" "sorted_wrt (<) (take k (map fst (validRevisions s)))"
    using inv so by (simp_all add: state_inv_def sorted_wrt_append sorted_wrt_take del: take_map)
  moreover have "take (Suc k) gs = take k gs @ [gs ! k]" using k(1) len by (simp add: take_Suc_conv_app_nth)
  ultimately have "state_inv g m s' (take k gs) (gs ! k)"
    using s' inv by (auto simp: state_inv_def take_map sorted_wrt_append list_all2_takeI dest: in_set_takeD)
  then show ?thesis using s' by auto
qed

lemma bad_revision:
  assumes "i \<notin> fst ` set (validRevisions s)"
  shows "RevertToSnapshot g i s = Inl BadRevision"
proof -
  define n where "n = sort_search (\<lambda>j. i \<le> fst (validRevisions s ! j)) 0 (length (validRevisions s))"
  have "n < length (validRevisions s) \<Longrightarrow> fst (validRevisions s ! n) \<noteq> i"
    using assms nth_mem [of n "validRevisions s"] by auto
  moreover have "n \<le> length (validRevisions s)" unfolding n_def by (rule sort_search_le) simp
  ultimately show ?thesis by (auto simp: RevertToSnapshot_def Let_def n_def [symmetric])
qed

lemma state_step_inv:
  assumes "state_inv g m s gs w"
  shows "(\<exists>s' gs' w'. state_step g sn op s = Inr s' \<and> state_inv g m s' gs' w' \<and>
      (\<forall>p. prefix p (zip (validRevisions s) gs) \<longrightarrow> (\<forall>i. op = DoRevert i \<longrightarrow> (\<forall>r\<in>set p. fst (fst r) < i)) \<longrightarrow>
        prefix p (zip (validRevisions s') gs')))
    \<or> (\<exists>i. op = DoRevert i \<and> i \<notin> fst ` set (validRevisions s) \<and> state_step g sn op s = Inl BadRevision)"
proof -
  consider (Plain) "plain op" | (DoSnapshot) "op = DoSnapshot" | (DoRevert) i where "op = DoRevert i" by (auto simp: plain_def)
  then show ?thesis
  proof cases
    case Plain
    then show ?thesis using plain_step_inv [OF assms Plain, of sn] by metis
  next
    case DoSnapshot
    have "length (validRevisions s) = length gs" using assms by (auto simp: state_inv_def dest: list_all2_lengthD)
    then show ?thesis using snapshot_inv [OF assms] DoSnapshot by (fastforce simp: state_step_def)
  next
    case (DoRevert i)
    show ?thesis
    proof (cases "i \<in> fst ` set (validRevisions s)")
      case False
      then show ?thesis using bad_revision [OF False] DoRevert by (simp add: state_step_def)
    next
      case True
      then obtain k where k: "k < length (validRevisions s)" "fst (validRevisions s ! k) = i" by (auto simp: in_set_conv_nth)
      have len: "length gs = length (validRevisions s)" using assms by (auto simp: state_inv_def dest: list_all2_lengthD)
      have "prefix p (take k (zip (validRevisions s) gs))"
        if p: "prefix p (zip (validRevisions s) gs)" "\<forall>r\<in>set p. fst (fst r) < i" for p
      proof -
        obtain q where q: "zip (validRevisions s) gs = p @ q" using p(1) by (auto simp: prefix_def)
        have "\<not> k < length p"
        proof
          assume "k < length p"
          then have "p ! k = (validRevisions s ! k, gs ! k)" using q k(1) len by (metis nth_append nth_zip)
          then show False using p(2) nth_mem [OF \<open>k < length p\<close>] k(2) by fastforce
        qed
        then show ?thesis using q by simp
      qed
      then show ?thesis using revert_inv [OF assms k] DoRevert by (fastforce simp: state_step_def take_zip)
    qed
  qed
qed

lemma run_state_inv:
  assumes "state_inv g m s gs w" "prefix p (zip (validRevisions s) gs)"
    "\<forall>i. DoRevert i \<in> set ops \<longrightarrow> (\<forall>r\<in>set p. fst (fst r) < i)" "run_state g sn ops s = Inr s'"
  shows "\<exists>gs' w'. state_inv g m s' gs' w' \<and> prefix p (zip (validRevisions s') gs')"
  using assms
proof (induction ops arbitrary: s gs w)
  case Nil
  then show ?case by auto
next
  case (Cons op ops)
  then obtain s1 where s1: "state_step g sn op s = Inr s1" "run_state g sn ops s1 = Inr s'" by (auto simp: res_bind_eq_Inr)
  then obtain gs1 w1 where "state_inv g m s1 gs1 w1" "prefix p (zip (validRevisions s1) gs1)"
    using state_step_inv [OF Cons.prems(1), of sn op] Cons.prems(2,3) by (cases op) auto
  then show ?case using Cons.IH [of s1 gs1 w1] Cons.prems(3) s1(2) by auto
qed

lemma run_state_safe:
  "state_inv g m s gs w \<Longrightarrow> run_state g sn ops s = Inl e \<Longrightarrow> e = BadRevision"
proof (induction ops arbitrary: s gs w)
  case (Cons op ops)
  then show ?case using state_step_inv [OF Cons.prems(1), of sn op] by auto
qed simp

section \<open>States on a complete database\<close>

definition complete_state :: "trie_db \<Rightarrow> bytes \<Rightarrow> StateDB \<Rightarrow> bool" where
  \<comment> \<open>a state opened at \<open>rt\<close> whose account trie and storage tries are in the database\<close>
  "complete_state g rt s \<longleftrightarrow> state_New rt g = Inr s \<and> (\<exists>m. sec_holds g (st_trie s) m \<and> trie_ok g m)"

lemma complete_inv:
  assumes "complete_state g rt s"
  shows "\<exists>m w. state_inv g m s [] w"
proof -
  obtain t m where t: "s = fresh_state t" "sec_holds g t m" "trie_ok g m"
    using assms by (auto simp: complete_state_def state_New_def fresh_state_def)
  define ac where "ac a = (case load m a of None \<Rightarrow> None | Some d \<Rightarrow> Some (SOME v. obj_rel g (newObject a (Some d)) v))" for a
  have "acct_rel g m s a (ac a)" for a
  proof (cases "load m a")
    case (Some d)
    then obtain v where "obj_rel g (newObject a (Some d)) v" using t(3) unfolding trie_ok_def by blast
    from someI [of "obj_rel g (newObject a (Some d))", OF this] show ?thesis
      using Some t(1) by (simp add: acct_rel_def ac_def fresh_state_def)
  qed (simp add: acct_rel_def ac_def fresh_state_def t(1))
  then have "state_inv g m s [] \<lparr>accts = ac, arefund = 0, alogs = \<lambda>h. [], ajournal = []\<rparr>"
    using t by (simp add: state_inv_def refines_def fresh_state_def GetLogs_def)
  then show ?thesis by blast
qed

lemma complete_empty: "\<exists>s. complete_state Map.empty zero_hash s"
proof -
  obtain t where "NewSecure 0 zero_hash (Some Map.empty) MaxTrieCacheGen = Inr t" "sec_holds Map.empty t (\<lambda>k. None)"
    using NewSecure_zero [of 0 Map.empty MaxTrieCacheGen] by (auto simp: zero_hash_def)
  then show ?thesis by (auto simp: complete_state_def state_New_def fresh_state_def trie_ok_def load_def)
qed

text \<open>
  C5. Reverting to a snapshot restores the state. Take a state opened on a complete database and any
  journaled operations on it (\<open>state_op\<close>: creating accounts, changing balances, nonces, storage and code,
  suicides, refunds, logs, reads, snapshots and reverts), then a snapshot, then any further such operations,
  which may take and revert snapshots of their own as long as they revert only to later ones. Reverting to
  the first snapshot succeeds, and every getter, the refund counter and the logs show what they showed when
  it was taken.
\<close>

theorem RevertToSnapshot_restores:
  assumes "complete_state g rt s0" "run_state g sn before s0 = Inr s1"
    "Snapshot s1 = (i, s2)" "run_state g sn after s2 = Inr s3" "\<forall>j. DoRevert j \<in> set after \<longrightarrow> i < j"
  shows "\<exists>s4. RevertToSnapshot g i s3 = Inr s4 \<and> (\<forall>a k. observe g sn a k s4 = observe g sn a k s1) \<and>
    GetRefund s4 = GetRefund s1 \<and> (\<forall>h. GetLogs h s4 = GetLogs h s1) \<and> validRevisions s4 = validRevisions s1"
proof -
  obtain m w0 where i0: "state_inv g m s0 [] w0" using complete_inv [OF assms(1)] by blast
  obtain gs w1 where i1: "state_inv g m s1 gs w1" using run_state_inv [OF i0 Nil_prefix _ assms(2)] by auto
  have len: "length gs = length (validRevisions s1)" using i1 by (auto simp: state_inv_def dest: list_all2_lengthD)
  have i: "i = nextRevisionId s1" "s2 = snd (Snapshot s1)" using assms(3) by (auto simp: Snapshot_def)
  define p where "p = zip (validRevisions s1) gs @ [((i, length (ajournal w1)), w1)]"
  have ids: "\<forall>r\<in>set p. fst (fst r) \<le> i"
    using i1 i(1) by (auto simp: p_def state_inv_def sorted_wrt_append dest!: set_zip_leftD)
  have z: "zip (validRevisions s2) (gs @ [w1]) = p" using snapshot_inv(2) [OF i1] i len by (simp add: p_def)
  obtain gs3 w3 where i3: "state_inv g m s3 gs3 w3" "prefix p (zip (validRevisions s3) gs3)"
    using run_state_inv [OF snapshot_inv(1) [OF i1, folded i(2)] _ _ assms(4), of p] z ids assms(5) by fastforce
  obtain q where q: "zip (validRevisions s3) gs3 = p @ q" using i3(2) by (auto simp: prefix_def)
  have len3: "length gs3 = length (validRevisions s3)" using i3 by (auto simp: state_inv_def dest: list_all2_lengthD)
  define k where "k = length (validRevisions s1)"
  have "k < length (zip (validRevisions s3) gs3)" "zip (validRevisions s3) gs3 ! k = ((i, length (ajournal w1)), w1)"
    using len unfolding q by (simp_all add: p_def k_def nth_append)
  then have k: "k < length (validRevisions s3)" "fst (validRevisions s3 ! k) = i" "gs3 ! k = w1" using len3 by auto
  have "take k (zip (validRevisions s3) gs3) = zip (validRevisions s1) gs" using q len by (simp add: p_def k_def)
  from arg_cong [OF this, of "map fst"] have tk: "take k (validRevisions s3) = validRevisions s1"
    using len len3 k(1) by (simp add: take_zip)
  obtain s4 where s4: "RevertToSnapshot g i s3 = Inr s4" "refines g m s4 w1" "validRevisions s4 = validRevisions s1"
    using revert_inv [OF i3(1) k(1,2)] k(3) tk by (auto simp: state_inv_def)
  moreover have "refines g m s1 w1" using i1 by (simp add: state_inv_def)
  ultimately show ?thesis
    using observe_refines [of g m s4 w1 sn] observe_refines [of g m s1 w1 sn] by (auto simp: refines_def GetRefund_def)
qed

lemma run_state_returns:
  "state_inv g m s gs w \<Longrightarrow> (\<forall>i. DoRevert i \<notin> set ops) \<Longrightarrow> \<exists>s' gs' w'. run_state g sn ops s = Inr s' \<and> state_inv g m s' gs' w'"
proof (induction ops arbitrary: s gs w)
  case (Cons op ops)
  obtain s1 gs1 w1 where "state_step g sn op s = Inr s1" "state_inv g m s1 gs1 w1"
    using state_step_inv [OF Cons.prems(1), of sn op] Cons.prems(2) by fastforce
  then show ?case using Cons.IH [of s1 gs1 w1] Cons.prems(2) by auto
qed auto

lemma complete_run:
  assumes "complete_state g rt s" "\<forall>i. DoRevert i \<notin> set ops"
  shows "\<exists>s'. run_state g sn ops s = Inr s'"
  using complete_inv [OF assms(1)] run_state_returns [OF _ assms(2)] by metis

theorem RevertToSnapshot_restores_witness:
  "\<exists>s0 s1 i s2 s3 s4. complete_state Map.empty zero_hash s0 \<and>
     run_state Map.empty 0 [DoChange [1] (ChAddBalance 5)] s0 = Inr s1 \<and> Snapshot s1 = (i, s2) \<and>
     run_state Map.empty 0 [DoSuicide [1], DoSnapshot, DoChange [2] (ChNonce 7)] s2 = Inr s3 \<and>
     RevertToSnapshot Map.empty i s3 = Inr s4 \<and> observe Map.empty 0 [2] [] s4 = observe Map.empty 0 [2] [] s1"
proof -
  let ?b = "[DoChange [1] (ChAddBalance 5)]" and ?a = "[DoSuicide [1], DoSnapshot, DoChange [2] (ChNonce 7)]"
  obtain s0 where s0: "complete_state Map.empty zero_hash s0" using complete_empty by blast
  obtain s3 where r: "run_state Map.empty 0 (?b @ DoSnapshot # ?a) s0 = Inr s3" using complete_run [OF s0, of "?b @ DoSnapshot # ?a" 0] by auto
  then obtain s1 where s1: "run_state Map.empty 0 ?b s0 = Inr s1" by (auto simp: res_bind_eq_Inr)
  obtain i s2 where s2: "Snapshot s1 = (i, s2)" by (cases "Snapshot s1")
  have s3: "run_state Map.empty 0 ?a s2 = Inr s3" using r s1 s2 by (simp add: res_bind_eq_Inr state_step_def)
  show ?thesis using RevertToSnapshot_restores [OF s0 s1 s2 s3] s0 s1 s2 s3 by auto
qed

text \<open>
  C13. Writes are seen by reads. In any state reached by journaled operations on a complete database, changing the balance, the
  nonce, a storage slot or the code of an address returns, and afterwards every getter shows what it
  shows of the plain accounts of the abstract machine after the same change: the changed field at that
  address, a new account with the starting nonce where there was none, and everything else as before.
\<close>

theorem do_change_observed:
  assumes "complete_state g rt s0" "run_state g sn ops s0 = Inr s"
  shows "\<exists>w s'. (\<forall>b k. observe g sn b k s = aobserve sn b k w) \<and> do_change g sn a ch s = Inr s' \<and>
    (\<forall>b k. observe g sn b k s' = aobserve sn b k (aapply sn a ch w))"
proof -
  obtain m w0 where i0: "state_inv g m s0 [] w0" using complete_inv [OF assms(1)] by blast
  obtain gs w where "state_inv g m s gs w" using run_state_inv [OF i0 Nil_prefix _ assms(2)] by auto
  then have r: "refines g m s w" by (simp add: state_inv_def)
  obtain s' where s': "do_change g sn a ch s = Inr s'" "refines g m s' (aapply sn a ch w)"
    using do_change_refines [OF r, of sn a ch] unfolding gives_def by blast
  show ?thesis using s' observe_refines [OF r] observe_refines [OF s'(2)] by blast
qed

theorem do_change_observed_witness:
  "\<exists>s0 s w s'. complete_state Map.empty zero_hash s0 \<and> run_state Map.empty 0 [DoCreateAccount [1]] s0 = Inr s \<and>
     (\<forall>b k. observe Map.empty 0 b k s = aobserve 0 b k w) \<and> do_change Map.empty 0 [1] (ChStorage [2] [3]) s = Inr s' \<and>
     (\<forall>b k. observe Map.empty 0 b k s' = aobserve 0 b k (aapply 0 [1] (ChStorage [2] [3]) w))"
proof -
  obtain s0 where s0: "complete_state Map.empty zero_hash s0" using complete_empty by blast
  obtain s where "run_state Map.empty 0 [DoCreateAccount [1]] s0 = Inr s"
    using complete_run [OF s0, of "[DoCreateAccount [1]]" 0] by auto
  then show ?thesis using s0 do_change_observed [OF s0] by blast
qed

text \<open>
  C39. Reverting an added log takes the log away, but not its number: \<open>logSize\<close> keeps counting, and the
  next log of the block gets index 1 although it is the only one.
\<close>

theorem log_index_after_revert:
  "\<exists>s2 s3. run_state g sn [DoSnapshot, DoAddLog l, DoRevert 0, DoAddLog l] (fresh_state t) = Inr s3 \<and>
     run_state g sn [DoSnapshot, DoAddLog l, DoRevert 0] (fresh_state t) = Inr s2 \<and> Logs s2 = [] \<and> logSize s2 = 1 \<and>
     map log_Index (Logs s3) = [1]"
proof -
  note defs = state_step_def Snapshot_def AddLog_def append_journal_def RevertToSnapshot_def undo_def GetLogs_def Let_def fresh_state_def
  have ss: "sort_search (\<lambda>i. 0 \<le> fst ([(0::nat, n::nat)] ! i)) 0 (Suc 0) = 0" for n by (rule sort_search_least) auto
  show ?thesis using ss by (simp add: defs Logs_def)
qed

end
