(* ===== verification/State_Root.thy ===== *)
theory State_Root
  imports State_Revert
begin

text \<open>
  Writing the objects back: the storage tries take the dirty slots, the account trie the accounts of
  the dirty objects, and the intermediate root is the root hash of the resulting map.
\<close>

section \<open>Storage\<close>

definition slot_enc :: "bytes \<Rightarrow> bytes" where
  \<comment> \<open>the entry of a slot in the storage trie; empty for a cleared slot\<close>
  "slot_enc v = (if v = zero_hash then [] else rlp_str (dropWhile (\<lambda>b. b = 0) v))"

definition storage_after :: "kv list \<Rightarrow> (bytes \<Rightarrow> bytes option) \<Rightarrow> bytes \<Rightarrow> bytes option" where
  "storage_after kvs mo = fold (\<lambda>(k, v). assign (keccak k) (slot_enc v)) kvs mo"

lemma encode_slot: "length v = 32 \<Longrightarrow> EncodeToBytes (TSlice (TUint 8)) (GBytes (dropWhile (\<lambda>b. b = 0) v)) = Inr (rlp_str (dropWhile (\<lambda>b. b = 0) v))"
  using length_dropWhile_le [of "\<lambda>b. b = 0" v] length_rlp_str_small [of "dropWhile (\<lambda>b. b = 0) v"]
    EncodeToBytes_items [of "TSlice (TUint 8)" "GBytes (dropWhile (\<lambda>b. b = 0) v)" "[Str (dropWhile (\<lambda>b. b = 0) v)]"]
  by (simp add: isByte_def rlps_def)

lemma length_slot_enc: "length v = 32 \<Longrightarrow> length (slot_enc v) \<le> 33"
  using length_dropWhile_le [of "\<lambda>b. b = 0" v] length_rlp_str_small [of "dropWhile (\<lambda>b. b = 0) v"]
  by (simp add: slot_enc_def)

lemma store_entry_holds:
  assumes "sec_holds g t mo" "length v = 32"
  shows "\<exists>t'. store_entry g k v t = Inr t' \<and> sec_holds g t' (assign (keccak k) (slot_enc v) mo)"
  using sec_holds_ops(2) [OF assms(1), of k "rlp_str (dropWhile (\<lambda>b. b = 0) v)"] sec_holds_ops(3) [OF assms(1), of k] encode_slot [OF assms(2)]
  by (auto simp: store_entry_def slot_enc_def)

lemma store_entries_holds:
  "sec_holds g t mo \<Longrightarrow> small_map mo \<Longrightarrow> \<forall>kv \<in> set kvs. length (snd kv) = 32 \<Longrightarrow>
   \<exists>t'. store_entries g kvs t = Inr t' \<and> sec_holds g t' (storage_after kvs mo) \<and> small_map (storage_after kvs mo)"
proof (induction kvs arbitrary: t mo)
  case (Cons kv kvs)
  obtain k v where kv: "kv = (k, v)" by (cases kv)
  have v: "length v = 32" using Cons.prems(3) kv by simp
  obtain t1 where t1: "store_entry g k v t = Inr t1" "sec_holds g t1 (assign (keccak k) (slot_enc v) mo)"
    using store_entry_holds [OF Cons.prems(1) v] by blast
  have "small_map (assign (keccak k) (slot_enc v) mo)" using small_assign [OF Cons.prems(2)] length_slot_enc [OF v] by simp
  then show ?case using Cons.IH [OF t1(2)] Cons.prems(3) t1(1) kv by (simp add: storage_after_def)
qed (simp add: storage_after_def)

lemma getTrie_rep: "storage_rep g c mo \<Longrightarrow> \<exists>t. getTrie g c = Inr (t, c\<lparr>so_trie := Some t\<rparr>) \<and> sec_holds g t mo"
  by (auto simp: getTrie_def storage_rep_def split: option.splits)

definition root_after :: "StateObject \<Rightarrow> (bytes \<Rightarrow> bytes option) \<Rightarrow> Account" where
  \<comment> \<open>the account with the root of its storage\<close>
  "root_after c mo = (data c)\<lparr>acc_Root := map_root (storage_after (dirtyStorage c) mo)\<rparr>"

lemma updateRoot_rep:
  assumes "storage_rep g c mo" "small_map mo" "\<forall>kv \<in> set (dirtyStorage c). length (snd kv) = 32"
  shows "\<exists>t. updateRoot g c = Inr (c\<lparr>so_trie := Some t, dirtyStorage := [], data := root_after c mo\<rparr>) \<and>
    sec_holds g t (storage_after (dirtyStorage c) mo)"
proof -
  obtain t where t: "getTrie g c = Inr (t, c\<lparr>so_trie := Some t\<rparr>)" "sec_holds g t mo" using getTrie_rep [OF assms(1)] by blast
  obtain t1 where t1: "store_entries g (dirtyStorage c) t = Inr t1" "sec_holds g t1 (storage_after (dirtyStorage c) mo)"
    "small_map (storage_after (dirtyStorage c) mo)"
    using store_entries_holds [OF t(2) assms(2,3)] by blast
  obtain t2 where "sec_Hash t1 = (Inr (map_root (storage_after (dirtyStorage c) mo)), t2)" "sec_holds g t2 (storage_after (dirtyStorage c) mo)"
    using sec_Hash_holds [OF t1(2) map_sized_small [OF t1(3)]] by blast
  then show ?thesis using t(1) t1(1)
    by (intro exI [of _ t2]) (auto simp: updateRoot_def updateTrie_def root_after_def intro!: StateObject.equality)
qed

section \<open>Accounts\<close>

definition account_enc :: "Account \<Rightarrow> bytes" where
  "account_enc a = (case EncodeToBytes account_type (account_val a) of Inl e \<Rightarrow> [] | Inr enc \<Rightarrow> enc)"

definition removed :: "bool \<Rightarrow> StateObject \<Rightarrow> bool" where
  "removed deleteEmptyObjects c \<longleftrightarrow> suicided c \<or> deleteEmptyObjects \<and> empty c"

definition entry_after :: "bool \<Rightarrow> StateObject \<Rightarrow> (bytes \<Rightarrow> bytes option) \<Rightarrow> bytes" where
  \<comment> \<open>the entry of an object in the account trie; empty if it is removed\<close>
  "entry_after del c mo = (if removed del c then [] else account_enc (root_after c mo))"

definition writable :: "trie_db \<Rightarrow> StateObject \<Rightarrow> (bytes \<Rightarrow> bytes option) \<Rightarrow> bool" where
  \<comment> \<open>an object of well-typed values with a complete storage trie\<close>
  "writable g c mo \<longleftrightarrow> storage_rep g c mo \<and> small_map mo \<and> (\<forall>kv \<in> set (dirtyStorage c). length (snd kv) = 32) \<and>
     0 \<le> acc_Balance (data c) \<and> acc_Balance (data c) < 2 ^ 256 \<and> length (acc_CodeHash (data c)) = 32"

lemma account_ok_after: "writable g c mo \<Longrightarrow> account_ok (root_after c mo)"
  by (simp add: writable_def account_ok_def root_after_def length_map_root)

lemma account_enc_ok:
  assumes "account_ok a"
  shows "EncodeToBytes account_type (account_val a) = Inr (account_enc a)" "decode_account (account_enc a) = Inr a"
    "length (account_enc a) \<le> 110" "account_enc a \<noteq> []"
  using account_roundtrip [OF assms] by (auto simp: account_enc_def)

lemma write_object:
  assumes h: "sec_holds g (st_trie s) m" and w: "writable g c mo" and ad: "address c = a"
  shows "\<exists>s' c'. (if removed del c then deleteStateObject g c s
      else res_bind (updateRoot g c) (\<lambda>c. updateStateObject g c (setStateObject c s))) = Inr s' \<and>
    sec_holds g (st_trie s') (assign (keccak a) (entry_after del c mo) m) \<and>
    stateObjects s' = AList.update a c' (stateObjects s) \<and> deleted c' = (removed del c \<or> deleted c) \<and>
    (\<not> removed del c \<longrightarrow> data c' = root_after c mo) \<and> stateObjectsDirty s' = stateObjectsDirty s"
proof (cases "removed del c")
  case True
  then show ?thesis using sec_holds_ops(3) [OF h, of a] ad
    by (auto simp: deleteStateObject_def Let_def setStateObject_def entry_after_def intro!: exI [of _ "c\<lparr>deleted := True\<rparr>"])
next
  case False
  obtain t where t: "updateRoot g c = Inr (c\<lparr>so_trie := Some t, dirtyStorage := [], data := root_after c mo\<rparr>)"
    using updateRoot_rep w unfolding writable_def by blast
  have e: "EncodeToBytes account_type (account_val (root_after c mo)) = Inr (account_enc (root_after c mo))"
    by (rule account_enc_ok(1) [OF account_ok_after [OF w]])
  show ?thesis using False t e sec_holds_ops(2) [OF h, of a "account_enc (root_after c mo)"] ad
    by (auto simp: updateStateObject_def EncodeRLP_def setStateObject_def entry_after_def
      intro!: exI [of _ "c\<lparr>so_trie := Some t, dirtyStorage := [], data := root_after c mo\<rparr>"])
qed

definition all_writable :: "trie_db \<Rightarrow> (bytes \<Rightarrow> bytes \<Rightarrow> bytes option) \<Rightarrow> bytes list \<Rightarrow> StateDB \<Rightarrow> bool" where
  "all_writable g MO as s \<longleftrightarrow> (\<forall>a \<in> set as. \<exists>c. map_of (stateObjects s) a = Some c \<and> address c = a \<and> writable g c (MO a))"

definition accounts_after :: "bool \<Rightarrow> (bytes \<Rightarrow> bytes \<Rightarrow> bytes option) \<Rightarrow> StateDB \<Rightarrow> bytes list \<Rightarrow>
    (bytes \<Rightarrow> bytes option) \<Rightarrow> bytes \<Rightarrow> bytes option" where
  "accounts_after del MO s as m = fold (\<lambda>a. assign (keccak a) (entry_after del (the (map_of (stateObjects s) a)) (MO a))) as m"

lemma length_entry_after: "writable g c mo \<Longrightarrow> length (entry_after del c mo) \<le> 110"
  using account_enc_ok(3) [OF account_ok_after] by (simp add: entry_after_def)

lemma small_accounts_after:
  "all_writable g MO as s \<Longrightarrow> small_map m \<Longrightarrow> small_map (accounts_after del MO s as m)"
proof (induction as arbitrary: m)
  case (Cons a as)
  obtain c where "map_of (stateObjects s) a = Some c" "writable g c (MO a)" using Cons.prems(1) by (auto simp: all_writable_def)
  then have "small_map (assign (keccak a) (entry_after del (the (map_of (stateObjects s) a)) (MO a)) m)"
    using small_assign [OF Cons.prems(2)] length_entry_after [of g c "MO a" del] by simp
  then show ?case using Cons.IH Cons.prems(1) by (simp add: accounts_after_def all_writable_def)
qed (simp add: accounts_after_def)

lemma accounts_after_cong:
  "(\<And>a. a \<in> set as \<Longrightarrow> map_of (stateObjects s) a = map_of (stateObjects s') a) \<Longrightarrow> accounts_after del MO s as m = accounts_after del MO s' as m"
  unfolding accounts_after_def by (rule fold_cong) auto

definition rewritten :: "bool \<Rightarrow> (bytes \<Rightarrow> bytes option) \<Rightarrow> StateObject \<Rightarrow> StateObject \<Rightarrow> bool" where
  \<comment> \<open>the object is deleted or has its new root\<close>
  "rewritten del mo c c' \<longleftrightarrow> deleted c' = (removed del c \<or> deleted c) \<and> (\<not> removed del c \<longrightarrow> data c' = root_after c mo)"

definition written_back :: "bool \<Rightarrow> (bytes \<Rightarrow> bytes \<Rightarrow> bytes option) \<Rightarrow> bytes list \<Rightarrow> StateDB \<Rightarrow> StateDB \<Rightarrow> bool" where
  \<comment> \<open>the objects of \<open>as\<close> are rewritten, the others are as before\<close>
  "written_back del MO as s s' \<longleftrightarrow>
     (\<forall>a. if a \<in> set as
          then \<exists>c c'. map_of (stateObjects s) a = Some c \<and> map_of (stateObjects s') a = Some c' \<and> rewritten del (MO a) c c'
          else map_of (stateObjects s') a = map_of (stateObjects s) a) \<and>
     stateObjectsDirty s' = stateObjectsDirty s"

lemma written_back_Cons:
  assumes "map_of (stateObjects s) a = Some c" "map_of (stateObjects s1) = (map_of (stateObjects s))(a \<mapsto> c1)"
    "rewritten del (MO a) c c1" "stateObjectsDirty s1 = stateObjectsDirty s" "a \<notin> set as" "written_back del MO as s1 s2"
  shows "written_back del MO (a # as) s s2"
  unfolding written_back_def
proof (intro conjI allI)
  fix b
  have "if b \<in> set as
        then \<exists>c c'. map_of (stateObjects s1) b = Some c \<and> map_of (stateObjects s2) b = Some c' \<and> rewritten del (MO b) c c'
        else map_of (stateObjects s2) b = map_of (stateObjects s1) b"
    using assms(6) unfolding written_back_def by blast
  then show "if b \<in> set (a # as)
        then \<exists>c c'. map_of (stateObjects s) b = Some c \<and> map_of (stateObjects s2) b = Some c' \<and> rewritten del (MO b) c c'
        else map_of (stateObjects s2) b = map_of (stateObjects s) b"
    using assms(1-3,5) by (cases "b = a") auto
qed (use assms(4,6) in \<open>simp add: written_back_def\<close>)

lemma root_loop_writes:
  "sec_holds g (st_trie s) m \<Longrightarrow> all_writable g MO as s \<Longrightarrow> distinct as \<Longrightarrow>
   \<exists>s'. root_loop g del as s = Inr s' \<and> sec_holds g (st_trie s') (accounts_after del MO s as m) \<and> written_back del MO as s s'"
proof (induction as arbitrary: s m)
  case Nil
  then show ?case by (simp add: accounts_after_def written_back_def)
next
  case (Cons a as)
  obtain c where c: "map_of (stateObjects s) a = Some c" "address c = a" "writable g c (MO a)"
    using Cons.prems(2) by (auto simp: all_writable_def)
  obtain s1 c1 where s1: "(if removed del c then deleteStateObject g c s
      else res_bind (updateRoot g c) (\<lambda>c. updateStateObject g c (setStateObject c s))) = Inr s1"
    "sec_holds g (st_trie s1) (assign (keccak a) (entry_after del c (MO a)) m)"
    "stateObjects s1 = AList.update a c1 (stateObjects s)" "deleted c1 = (removed del c \<or> deleted c)"
    "\<not> removed del c \<longrightarrow> data c1 = root_after c (MO a)" "stateObjectsDirty s1 = stateObjectsDirty s"
    using write_object [OF Cons.prems(1) c(3,2), of del] by blast
  have a: "a \<notin> set as" "distinct as" using Cons.prems(3) by auto
  have o1: "map_of (stateObjects s1) = (map_of (stateObjects s))(a \<mapsto> c1)" using s1(3) by (simp add: update_conv')
  have "all_writable g MO as s1" using Cons.prems(2) a(1) o1 by (auto simp: all_writable_def)
  then obtain s2 where s2: "root_loop g del as s1 = Inr s2"
    "sec_holds g (st_trie s2) (accounts_after del MO s1 as (assign (keccak a) (entry_after del c (MO a)) m))" "written_back del MO as s1 s2"
    using Cons.IH [OF s1(2) _ a(2)] by blast
  have "accounts_after del MO s1 as = accounts_after del MO s as" 
    using a(1) o1 by (intro ext, subst accounts_after_cong [of as s1 s]) auto
  then have "sec_holds g (st_trie s2) (accounts_after del MO s (a # as) m)" using s2(2) c(1) by (simp add: accounts_after_def)
  moreover have "root_loop g del (a # as) s = Inr s2" using c(1) s1(1) s2(1) by (simp add: removed_def)
  moreover have "written_back del MO (a # as) s s2" 
    using written_back_Cons [of s a c s1 c1 del MO as s2] s2(3) s1(4-6) o1 a(1) c(1) by (simp add: rewritten_def)
  ultimately show ?case by blast
qed

lemma fold_assign_other: "\<forall>b \<in> set as. keccak b \<noteq> K \<Longrightarrow> fold (\<lambda>a. assign (keccak a) (f a)) as m K = m K"
  by (induction as arbitrary: m) (auto simp: assign_def)

lemma fold_assign_at:
  assumes "a \<in> set as" "\<forall>b \<in> set as. keccak b = keccak a \<longrightarrow> b = a"
  shows "fold (\<lambda>a. assign (keccak a) (f a)) as m (keccak a) = (if f a = [] then None else Some (f a))"
  using assms
proof (induction as arbitrary: m)
  case (Cons b as)
  show ?case
  proof (cases "a \<in> set as")
    case False
    then have "b = a" "\<forall>c \<in> set as. keccak c \<noteq> keccak a" using Cons.prems by auto
    then show ?thesis 
      using fold_assign_other [of as "keccak a" f "assign (keccak a) (f a) m"] by simp (simp add: assign_def)
  qed (use Cons in simp)
qed simp

text \<open>
  C10. \<open>IntermediateRoot\<close> returns the root hash of the account map in which every dirty address has
  been written: removed if the object is suicided, or empty and empty objects are deleted; otherwise with
  the encoding of the account whose storage root is the root of the storage map with its dirty slots
  written. The trie holds that map afterwards, the objects carry their new roots, the journal, the
  snapshots and the refund are cleared, and the entry of an account is what \<open>GetStateObject\<close> would decode
  again, unless the address of another dirty object has the same digest.
\<close>

theorem IntermediateRoot_writes:
  assumes "sec_holds g (st_trie s) m" "small_map m" "distinct (stateObjectsDirty s)" "all_writable g MO (stateObjectsDirty s) s"
    and "m' = accounts_after del MO s (stateObjectsDirty s) m"
  shows "\<exists>s'. IntermediateRoot g del s = Inr (map_root m', s') \<and> sec_holds g (st_trie s') m' \<and>
    written_back del MO (stateObjectsDirty s) s s' \<and> journal s' = [] \<and> validRevisions s' = [] \<and> GetRefund s' = 0 \<and>
    (\<forall>a \<in> set (stateObjectsDirty s). (\<forall>b \<in> set (stateObjectsDirty s). keccak b = keccak a \<longrightarrow> b = a) \<longrightarrow>
      load m' a = (let c = the (map_of (stateObjects s) a) in if removed del c then None else Some (root_after c (MO a))))"
proof -
  let ?d = "stateObjectsDirty s"
  obtain s1 where s1: "root_loop g del ?d s = Inr s1" "sec_holds g (st_trie s1) m'" "written_back del MO ?d s s1"
    using root_loop_writes [OF assms(1,4,3)] assms(5) by blast
  have "small_map m'" using small_accounts_after [OF assms(4,2)] assms(5) by simp
  then obtain t where t: "sec_Hash (st_trie s1) = (Inr (map_root m'), t)" "sec_holds g t m'"
    using sec_Hash_holds [OF s1(2) map_sized_small] by blast
  have "load m' a = (let c = the (map_of (stateObjects s) a) in if removed del c then None else Some (root_after c (MO a)))"
    if a: "a \<in> set ?d" "\<forall>b \<in> set ?d. keccak b = keccak a \<longrightarrow> b = a" for a
  proof -
    obtain c where c: "map_of (stateObjects s) a = Some c" "writable g c (MO a)" using assms(4) a(1) by (auto simp: all_writable_def)
    show ?thesis using fold_assign_at [OF a] c(1) account_enc_ok [OF account_ok_after [OF c(2)]] assms(5)
      by (simp add: accounts_after_def load_def entry_after_def)
  qed
  moreover define s' where "s' = (clearJournalAndRefund s1)\<lparr>st_trie := t\<rparr>"
  moreover have so: "stateObjects s' = stateObjects s1" "stateObjectsDirty s' = stateObjectsDirty s1"
    by (simp_all add: s'_def clearJournalAndRefund_def)
  have "written_back del MO ?d s s'" using s1(3) unfolding written_back_def so .
  ultimately show ?thesis using s1(1) t
    by (intro exI [of _ s']) (auto simp: IntermediateRoot_def clearJournalAndRefund_def Let_def GetRefund_def)
qed

theorem IntermediateRoot_writes_witness:
  "\<exists>t s s'. NewSecure 0 zero_hash (Some Map.empty) MaxTrieCacheGen = Inr t \<and>
     s = (fresh_state t)\<lparr>stateObjects := [([1], newObject [1] None)], stateObjectsDirty := [[1]]\<rparr> \<and>
     IntermediateRoot Map.empty False s =
       Inr (map_root (accounts_after False (\<lambda>a k. None) s [[1]] (\<lambda>k. None)), s')"
proof -
  obtain t where t: "NewSecure 0 zero_hash (Some Map.empty) MaxTrieCacheGen = Inr t" "sec_holds Map.empty t (\<lambda>k. None)"
    using NewSecure_zero [of 0 Map.empty MaxTrieCacheGen] by (auto simp: zero_hash_def)
  obtain u where u: "NewSecure 0 zero_hash (Some Map.empty) 0 = Inr u" "sec_holds Map.empty u (\<lambda>k. None)"
    using NewSecure_zero [of 0 Map.empty 0] by (auto simp: zero_hash_def)
  define s where "s = (fresh_state t)\<lparr>stateObjects := [([1], newObject [1] None)], stateObjectsDirty := [[1]]\<rparr>"
  have "writable Map.empty (newObject [1] None) (\<lambda>k. None)"
    using u by (auto simp: writable_def newObject_def storage_rep_def storage_ok_def storage_value_def small_map_def emptyCodeHash_def)
  then have w: "all_writable Map.empty (\<lambda>a k. None) (stateObjectsDirty s) s"
    by (simp add: all_writable_def s_def newObject_def)
  have "sec_holds Map.empty (st_trie s) (\<lambda>k. None)" "small_map (\<lambda>k. None)" "distinct (stateObjectsDirty s)"
    using t(2) by (simp_all add: s_def fresh_state_def small_map_def)
  from IntermediateRoot_writes [OF this w refl, of False] show ?thesis using t(1) s_def by auto
qed

end
