(* ===== verification/State_Sound.thy ===== *)
theory State_Sound
  imports State_Root
begin

text \<open>
  That a state opened on a complete database does not panic: every object keeps a complete storage trie
  and well-sized slots under the journaled operations, so the objects can be written back. The only panics
  are reverting to a revision that is not valid and encoding an account with a negative balance.
\<close>

section \<open>Sound objects\<close>

definition slots_sized :: "kv list \<Rightarrow> bool" where
  "slots_sized kvs \<longleftrightarrow> list_all (\<lambda>kv. length (snd kv) = 32) kvs"

definition sound_obj :: "trie_db \<Rightarrow> StateObject \<Rightarrow> bool" where
  \<comment> \<open>the storage trie is complete and small, slots and code hash are hashes\<close>
  "sound_obj g c \<longleftrightarrow> (\<exists>mo. storage_rep g c mo \<and> small_map mo) \<and> length (acc_CodeHash (data c)) = 32 \<and>
     slots_sized (cachedStorage c) \<and> slots_sized (dirtyStorage c)"

fun sound_entry :: "trie_db \<Rightarrow> journalEntry \<Rightarrow> bool" where
  "sound_entry g (ResetObjectChange p) \<longleftrightarrow> sound_obj g p"
| "sound_entry g (StorageChange a k x) \<longleftrightarrow> length x = 32"
| "sound_entry g (CodeChange a c h) \<longleftrightarrow> length h = 32"
| "sound_entry g _ \<longleftrightarrow> True"

definition sound_loads :: "trie_db \<Rightarrow> (bytes \<Rightarrow> bytes option) \<Rightarrow> bool" where
  "sound_loads g m \<longleftrightarrow> (\<forall>a d. load m a = Some d \<longrightarrow> sound_obj g (newObject a (Some d)))"

definition sound :: "trie_db \<Rightarrow> (bytes \<Rightarrow> bytes option) \<Rightarrow> StateDB \<Rightarrow> bool" where
  "sound g m s \<longleftrightarrow> sec_holds g (st_trie s) m \<and> sound_loads g m \<and>
     (\<forall>a c. map_of (stateObjects s) a = Some c \<longrightarrow> address c = a \<and> sound_obj g c) \<and>
     list_all (sound_entry g) (journal s) \<and>
     distinct (stateObjectsDirty s) \<and> set (stateObjectsDirty s) \<subseteq> dom (map_of (stateObjects s))"

lemma slots_put: "slots_sized kvs \<Longrightarrow> length x = 32 \<Longrightarrow> slots_sized (put_entry k x kvs)"
  using set_put_entry [of k x kvs] by (fastforce simp: slots_sized_def list_all_iff)

lemma sound_obj_cong:
  assumes "sound_obj g c" "so_trie c' = so_trie c" "acc_Root (data c') = acc_Root (data c)" "length (acc_CodeHash (data c')) = 32"
    "slots_sized (cachedStorage c')" "slots_sized (dirtyStorage c')"
  shows "sound_obj g c'"
proof -
  have "storage_rep g c' mo \<longleftrightarrow> storage_rep g c mo" for mo using assms(2,3) by (simp add: storage_rep_def cong: option.case_cong)
  then show ?thesis using assms by (simp add: sound_obj_def)
qed

lemma sound_obj_fields:
  assumes "sound_obj g c"
  shows "sound_obj g (c\<lparr>onDirty := b\<rparr>)" "sound_obj g (c\<lparr>suicided := b\<rparr>)" "sound_obj g (c\<lparr>deleted := b\<rparr>)"
    "sound_obj g (c\<lparr>data := (data c)\<lparr>acc_Balance := n\<rparr>\<rparr>)" "sound_obj g (c\<lparr>data := (data c)\<lparr>acc_Nonce := k\<rparr>\<rparr>)"
    "length h = 32 \<Longrightarrow> sound_obj g (c\<lparr>code := x, data := (data c)\<lparr>acc_CodeHash := h\<rparr>, dirtyCode := d\<rparr>)"
    "length y = 32 \<Longrightarrow> sound_obj g (c\<lparr>cachedStorage := put_entry z y (cachedStorage c), dirtyStorage := put_entry z y (dirtyStorage c)\<rparr>)"
    "sound_obj g (setError e c)" "sound_obj g (snd (obj_Code g c))"
  using assms by (auto intro!: sound_obj_cong [OF assms] slots_put simp: setError_def) (auto simp: sound_obj_def)

lemma sound_new: "sound_obj g ((newObject a None)\<lparr>data := (data (newObject a None))\<lparr>acc_Nonce := sn\<rparr>, onDirty := b\<rparr>)"
proof -
  obtain t where "NewSecure 0 zero_hash (Some g) 0 = Inr t" "sec_holds g t (\<lambda>k. None)"
    using NewSecure_zero [of 0 g 0] by (auto simp: zero_hash_def)
  then show ?thesis
    by (auto simp: sound_obj_def storage_rep_def newObject_def storage_ok_def storage_value_def small_map_def
      emptyCodeHash_def slots_sized_def intro!: exI [of _ "\<lambda>k. None"])
qed

lemma length_storage_value: "storage_value v = Inr (x, e) \<Longrightarrow> length x = 32"
  by (auto simp: storage_value_def zero_hash_def BytesToHash_def split: option.split_asm if_split_asm sum.split_asm prod.split_asm)

lemma sound_GetState:
  assumes "sound_obj g c"
  shows "ens (\<lambda>(x, c'). length x = 32 \<and> sound_obj g c' \<and> address c' = address c) (obj_GetState g key c)"
proof (cases "map_of (cachedStorage c) key")
  case (Some x)
  then have "length x = 32" using assms map_of_SomeD [OF Some] by (force simp: sound_obj_def slots_sized_def list_all_iff)
  then show ?thesis using assms Some by (simp add: ens_def obj_GetState_def)
next
  case None
  obtain mo where mo: "storage_rep g c mo" "small_map mo" using assms by (auto simp: sound_obj_def)
  obtain t where t: "getTrie g c = Inr (t, c\<lparr>so_trie := Some t\<rparr>)" "sec_holds g t mo" using getTrie_rep [OF mo(1)] by blast
  obtain t' where t': "sec_Get g key t = (Inr (mo (keccak key)), t')" "sec_holds g t' mo" using sec_holds_ops(1) [OF t(2)] by blast
  have c1: "sound_obj g (c\<lparr>so_trie := Some t'\<rparr>)" using assms mo t'(2) by (auto simp: sound_obj_def storage_rep_def)
  define c2 where "c2 e = (case e of None \<Rightarrow> c\<lparr>so_trie := Some t'\<rparr> | Some e \<Rightarrow> setError (CannotSplit e) (c\<lparr>so_trie := Some t'\<rparr>))" for e
  have c2: "sound_obj g (c2 e)" "address (c2 e) = address c" for e
    using c1 sound_obj_fields(8) [OF c1] by (auto simp: c2_def setError_def split: option.split)
  have c3: "sound_obj g (c2 e\<lparr>cachedStorage := put_entry key x (cachedStorage (c2 e))\<rparr>)" if "length x = 32" for x e
    using c2(1) [of e] slots_put [OF _ that] by (intro sound_obj_cong [OF c2(1), of _ e]) (simp_all add: sound_obj_def)
  have "obj_GetState g key c = res_bind (storage_value (mo (keccak key))) (\<lambda>(x, e).
      Inr (x, if x \<noteq> zero_hash then c2 e\<lparr>cachedStorage := put_entry key x (cachedStorage (c2 e))\<rparr> else c2 e))"
    using None t(1) t'(1) by (simp add: obj_GetState_def Let_def c2_def cong: option.case_cong if_cong)
  then show ?thesis using c2 c3 length_storage_value [of "mo (keccak key)"]
    by (cases "storage_value (mo (keccak key))") (auto simp: ens_def)
qed

section \<open>Every operation keeps them\<close>

lemma sound_set: "sound g m s \<Longrightarrow> sound_obj g c \<Longrightarrow> sound g m (setStateObject c s)"
  by (auto simp: sound_def setStateObject_def update_conv')

lemma sound_touch: "sound g m s \<Longrightarrow> sound_obj g c \<Longrightarrow> sound g m (touch c s)"
  using sound_obj_fields(1) [of g c False]
  by (auto simp: sound_def setStateObject_def update_conv' touch_def MarkStateObjectDirty_def distinct_insert)

lemma sound_journal: "sound g m s \<Longrightarrow> sound_entry g e \<Longrightarrow> sound g m (append_journal e s)"
  by (simp add: sound_def append_journal_def)

lemma sound_Get:
  assumes "sound g m s"
  shows "ens (\<lambda>(obj, s'). sound g m s' \<and> (\<forall>c. obj = Some c \<longrightarrow> sound_obj g c \<and> address c = a)) (GetStateObject g a s)"
proof (cases "map_of (stateObjects s) a")
  case (Some c)
  then show ?thesis using assms by (auto simp: ens_def GetStateObject_def sound_def)
next
  case None
  obtain t where t: "sec_Get g a (st_trie s) = (Inr (m (keccak a)), t)" "sec_holds g t m"
    using sec_holds_ops(1) assms unfolding sound_def by blast
  have s: "sound g m (s\<lparr>st_trie := t\<rparr>)" using assms t(2) by (simp add: sound_def)
  have "sound_obj g (newObject a (Some d))" if "load m a = Some d" for d using assms that by (simp add: sound_def sound_loads_def)
  then show ?thesis using None t(1) s sound_set [OF s]
    by (auto simp: ens_def GetStateObject_def Let_def load_def newObject_def split: option.splits sum.splits if_split_asm)
qed

lemma sound_create:
  assumes "sound g m s"
  shows "ens (\<lambda>(c, prev, s'). sound g m s' \<and> sound_obj g c \<and> address c = a) (createObject g sn a s)"
  unfolding createObject_def
proof (rule ens_then [OF sound_Get [OF assms, of a]], clarify)
  fix prev s1
  assume s1: "sound g m s1" "\<forall>c. prev = Some c \<longrightarrow> sound_obj g c \<and> address c = a"
  define c where "c = (newObject a None)\<lparr>data := (data (newObject a None))\<lparr>acc_Nonce := sn\<rparr>, onDirty := False\<rparr>"
  define e where "e = (case prev of None \<Rightarrow> CreateObjectChange a | Some p \<Rightarrow> ResetObjectChange p)"
  have c: "sound_obj g c" "address c = a" by (simp_all add: c_def sound_new) (simp add: newObject_def)
  have "sound_entry g e" using s1(2) by (simp add: e_def split: option.split)
  then have "sound g m (setStateObject c (append_journal e (MarkStateObjectDirty a s1)))"
    using s1(1) c by (auto simp: sound_def setStateObject_def update_conv' append_journal_def MarkStateObjectDirty_def distinct_insert)
  then show "ens (\<lambda>(c, prev, s'). sound g m s' \<and> sound_obj g c \<and> address c = a)
      (let newobj = newObject a None; newobj = newobj\<lparr>data := (data newobj)\<lparr>acc_Nonce := sn\<rparr>, onDirty := False\<rparr>;
           s = MarkStateObjectDirty a s1;
           s = append_journal (case prev of None \<Rightarrow> CreateObjectChange a | Some p \<Rightarrow> ResetObjectChange p) s
       in Inr (newobj, prev, setStateObject newobj s))"
    using c by (simp add: Let_def c_def e_def ens_def)
qed

lemma sound_GetOrNew:
  assumes "sound g m s"
  shows "ens (\<lambda>(c, s'). sound g m s' \<and> sound_obj g c \<and> address c = a) (GetOrNewStateObject g sn a s)"
  unfolding GetOrNewStateObject_def
  by (rule ens_then [OF sound_Get [OF assms, of a]])
    (auto split: option.split intro!: ens_intros ens_mono [OF sound_create])

lemma sound_CreateAccount: "sound g m s \<Longrightarrow> ens (sound g m) (CreateAccount g sn a s)"
  unfolding CreateAccount_def
  by (auto split: option.split intro!: ens_mono [OF sound_create [of g m s a sn]] sound_touch sound_obj_fields)

definition change_sized :: "change \<Rightarrow> bool" where
  "change_sized ch \<longleftrightarrow> (\<forall>k x. ch = ChStorage k x \<longrightarrow> length x = 32)"

lemmas sound_obj_ops = obj_SetBalance_def obj_setBalance_def obj_AddBalance_def obj_SetNonce_def obj_setNonce_def obj_SetCode_def obj_setCode_def
  obj_SetState_def obj_setState_def

lemma length_codehash: "sound_obj g c \<Longrightarrow> length (acc_CodeHash (data c)) = 32"
  by (simp add: sound_obj_def)

lemma sound_setters:
  assumes "sound g m s" "sound_obj g c"
  shows "sound g m (obj_SetBalance n c s)" "sound g m (obj_AddBalance n c s)" "sound g m (obj_SetNonce k c s)"
    "length h = 32 \<Longrightarrow> sound g m (obj_SetCode g h b c s)" "length x = 32 \<Longrightarrow> ens (sound g m) (obj_SetState g key x c s)"
proof -
  show b: "sound g m (obj_SetBalance n c s)" for n
    unfolding sound_obj_ops using assms by (auto intro!: sound_touch sound_journal sound_obj_fields)
  show "sound g m (obj_AddBalance n c s)" using b assms(1) by (simp add: obj_AddBalance_def)
  show "sound g m (obj_SetNonce k c s)"
    unfolding sound_obj_ops using assms by (auto intro!: sound_touch sound_journal sound_obj_fields)
  show "sound g m (obj_SetCode g h b c s)" if "length h = 32"
    unfolding sound_obj_ops case_prod_beta Let_def using that assms length_codehash [OF assms(2)]
    by (intro sound_touch sound_journal sound_obj_fields(6)) (auto intro: sound_obj_fields)
  show "ens (sound g m) (obj_SetState g key x c s)" if "length x = 32"
    unfolding obj_SetState_def obj_setState_def ens_map
    by (rule ens_mono [OF sound_GetState [OF assms(2)]])
      (use that assms(1) in \<open>auto intro!: sound_touch sound_journal sound_obj_fields\<close>)
qed

lemma sound_do_change:
  assumes "sound g m s" "change_sized ch"
  shows "ens (sound g m) (do_change g sn a ch s)"
proof -
  note n = sound_GetOrNew [OF assms(1), of a sn]
  show ?thesis using assms(2)
    by (cases ch) (auto simp: do_change_def SetBalance_def AddBalance_def SetNonce_def SetCode_def SetState_def change_sized_def Keccak256Hash_eq
      intro!: ens_mono [OF n] ens_then [OF n] sound_setters)
qed

lemma sound_Suicide:
  assumes "sound g m s"
  shows "ens (\<lambda>x. sound g m (snd x)) (Suicide g a s)"
proof -
  have "sound_obj g (c\<lparr>suicided := True, data := (data c)\<lparr>acc_Balance := 0\<rparr>\<rparr>)" if "sound_obj g c" for c
    using sound_obj_fields(4) [OF sound_obj_fields(2) [OF that, of True], of 0] by simp
  then show ?thesis unfolding Suicide_def ens_map
    by (intro ens_mono [OF sound_Get [OF assms, of a]]) (auto split: option.split intro!: sound_touch sound_journal)
qed

lemma sound_reads:
  assumes "sound g m s"
  shows "ens (\<lambda>x. sound g m (snd x)) (GetState g a k s)" "ens (\<lambda>x. sound g m (snd x)) (GetCode g a s)"
proof -
  note n = sound_Get [OF assms, of a]
  show "ens (\<lambda>x. sound g m (snd x)) (GetState g a k s)" unfolding GetState_def
    by (rule ens_then [OF n]) (auto split: option.split intro!: ens_intros ens_mono [OF sound_GetState] sound_set)
  show "ens (\<lambda>x. sound g m (snd x)) (GetCode g a s)" unfolding GetCode_def ens_map
    by (rule ens_mono [OF n]) (auto simp: case_prod_beta split: option.split intro!: sound_set sound_obj_fields)
qed

lemma sound_other:
  "sound g m s \<Longrightarrow> sound g m (AddRefund n s)" "sound g m s \<Longrightarrow> sound g m (AddLog l s)"
  "sound g m s \<Longrightarrow> sound g m (StartRecord th bh ti s)" "sound g m s \<Longrightarrow> sound g m (snd (Snapshot s))"
  by (simp_all add: sound_def AddRefund_def AddLog_def StartRecord_def Snapshot_def append_journal_def Let_def)

lemma sound_undo:
  assumes "sound g m s" "sound_entry g e"
  shows "ens (sound g m) (undo g e s)"
proof -
  note n = sound_Get [OF assms(1)]
  have sb: "sound_obj g (c\<lparr>suicided := p, data := (data c)\<lparr>acc_Balance := b\<rparr>\<rparr>)" if "sound_obj g c" for c p b
    using sound_obj_fields(4) [OF sound_obj_fields(2) [OF that, of p], of b] by simp
  have del: "sound g m (s'\<lparr>stateObjects := AList.delete a (stateObjects s'), stateObjectsDirty := removeAll a (stateObjectsDirty s')\<rparr>)"
    if "sound g m s'" for s' a using that by (auto simp: sound_def delete_conv' distinct_removeAll)
  have lg: "sound g m (s\<lparr>refund := r\<rparr>)" "sound g m (s\<lparr>logs := l\<rparr>)" for r l using assms(1) by (simp_all add: sound_def)
  show ?thesis using assms(2) lg
    by (cases e) (auto simp: undo_def Let_def obj_setBalance_def obj_setNonce_def obj_setCode_def obj_setState_def BytesToHash_32
      split: option.split intro!: ens_intros ens_then [OF n] ens_mono [OF n] del sound_set [OF assms(1)] sound_touch sound_obj_fields sb)
qed

lemma sound_undo_all: "sound g m s \<Longrightarrow> list_all (sound_entry g) es \<Longrightarrow> ens (sound g m) (undo_all g es s)"
  by (induction es arbitrary: s) (auto intro!: ens_intros ens_then [OF sound_undo])

lemma sound_Revert:
  assumes "sound g m s"
  shows "ens (sound g m) (RevertToSnapshot g i s)"
proof -
  have "list_all (sound_entry g) (rev (drop n (journal s)))" for n using assms by (auto simp: sound_def list_all_iff dest: in_set_dropD)
  then have "ens (\<lambda>s'. sound g m (s'\<lparr>journal := take n (journal s'), validRevisions := rs s'\<rparr>)) (undo_all g (rev (drop n (journal s))) s)" for n rs
    by (intro ens_mono [OF sound_undo_all [OF assms]]) (auto simp: sound_def list_all_iff dest: in_set_takeD)
  then show ?thesis unfolding RevertToSnapshot_def Let_def by (auto intro!: ens_intros)
qed

definition op_sized :: "state_op \<Rightarrow> bool" where
  \<comment> \<open>a storage value is a hash\<close>
  "op_sized op \<longleftrightarrow> (\<forall>a k x. op = DoChange a (ChStorage k x) \<longrightarrow> length x = 32)"

lemma sound_step: "sound g m s \<Longrightarrow> op_sized op \<Longrightarrow> ens (sound g m) (state_step g sn op s)"
  by (cases op) (auto simp: state_step_def op_sized_def change_sized_def
    intro!: ens_intros sound_CreateAccount sound_do_change sound_Suicide sound_reads sound_other sound_Revert)

lemma sound_run: "sound g m s \<Longrightarrow> list_all op_sized ops \<Longrightarrow> ens (sound g m) (run_state g sn ops s)"
  by (induction ops arbitrary: s) (auto intro!: ens_intros ens_then [OF sound_step])

section \<open>Writing back\<close>

definition unencodable :: "bool \<Rightarrow> StateDB \<Rightarrow> bytes \<Rightarrow> bool" where
  \<comment> \<open>an object that is kept with a negative balance\<close>
  "unencodable del s a \<longleftrightarrow> (case map_of (stateObjects s) a of None \<Rightarrow> False | Some c \<Rightarrow> \<not> removed del c \<and> acc_Balance (data c) < 0)"

lemma encode_negative: "acc_Balance a < 0 \<Longrightarrow> EncodeToBytes account_type (account_val a) = Inl NegativeBigInt"
proof -
  assume "acc_Balance a < 0"
  then have "items account_type no_tags (account_val a) = Inl NegativeBigInt"
    by (simp add: account_type_def account_val_def isByte_def big_item_def)
  then have "writer account_type no_tags (account_val a) empty_encbuf = Inl NegativeBigInt"
    using writer_outcome(1) [of account_type no_tags "account_val a" empty_encbuf] by simp
  then show ?thesis using account_type_ok(2) by (simp add: EncodeToBytes_def)
qed

lemma write_sound:
  assumes "sec_holds g (st_trie s) m" "small_map m" "sound_obj g c" "address c = a" "acc_Balance (data c) < 2 ^ 256"
    and "r = (if removed del c then deleteStateObject g c s else res_bind (updateRoot g c) (\<lambda>c. updateStateObject g c (setStateObject c s)))"
  shows "if \<not> removed del c \<and> acc_Balance (data c) < 0 then r = Inl EncodeFailed
    else \<exists>s' m' c'. r = Inr s' \<and> sec_holds g (st_trie s') m' \<and> small_map m' \<and>
      map_of (stateObjects s') = (map_of (stateObjects s))(a \<mapsto> c')"
proof -
  obtain mo where mo: "storage_rep g c mo" "small_map mo" "\<forall>kv \<in> set (dirtyStorage c). length (snd kv) = 32" "length (acc_CodeHash (data c)) = 32"
    using assms(3) by (auto simp: sound_obj_def slots_sized_def list_all_iff)
  consider "removed del c" | "\<not> removed del c" "acc_Balance (data c) < 0" | "\<not> removed del c" "0 \<le> acc_Balance (data c)" by linarith
  then show ?thesis
  proof cases
    case 1
    then show ?thesis using sec_holds_ops(3) [OF assms(1), of a] small_assign [OF assms(2), of "keccak a" "[]"] assms(4,6)
      by (auto simp: deleteStateObject_def Let_def setStateObject_def update_conv' intro!: exI [of _ "assign (keccak a) [] m"])
  next
    case 2
    obtain t where "updateRoot g c = Inr (c\<lparr>so_trie := Some t, dirtyStorage := [], data := root_after c mo\<rparr>)"
      using updateRoot_rep [OF mo(1-3)] by blast
    then show ?thesis using 2 assms(6) encode_negative [of "root_after c mo"] 
      by (simp add: updateStateObject_def EncodeRLP_def root_after_def)
  next
    case 3
    then have w: "writable g c mo" using mo assms(5) by (simp add: writable_def)
    have "small_map (assign (keccak a) (entry_after del c mo) m)" using small_assign [OF assms(2)] length_entry_after [OF w, of del] by simp
    then show ?thesis using write_object [OF assms(1) w assms(4), of del] 3 assms(6) by (fastforce simp: update_conv')
  qed
qed

lemma root_loop_outcome:
  assumes "sec_holds g (st_trie s) m" "small_map m" "distinct as"
    "\<forall>a \<in> set as. \<exists>c. map_of (stateObjects s) a = Some c \<and> address c = a \<and> sound_obj g c \<and> acc_Balance (data c) < 2 ^ 256"
  shows "if \<exists>a \<in> set as. unencodable del s a then root_loop g del as s = Inl EncodeFailed
    else \<exists>s' m'. root_loop g del as s = Inr s' \<and> sec_holds g (st_trie s') m' \<and> small_map m' \<and>
      dom (map_of (stateObjects s)) \<subseteq> dom (map_of (stateObjects s'))"
  using assms
proof (induction as arbitrary: s m)
  case (Cons a as)
  obtain c where c: "map_of (stateObjects s) a = Some c" "address c = a" "sound_obj g c" "acc_Balance (data c) < 2 ^ 256"
    using Cons.prems(4) by auto
  define r where "r = (if removed del c then deleteStateObject g c s else res_bind (updateRoot g c) (\<lambda>c. updateStateObject g c (setStateObject c s)))"
  have l: "root_loop g del (a # as) s = res_bind r (root_loop g del as)" using c(1) by (simp add: r_def removed_def)
  note w = write_sound [OF Cons.prems(1,2) c(3,2,4) r_def]
  show ?case
  proof (cases "unencodable del s a")
    case True
    then show ?thesis using w l c(1) by (simp add: unencodable_def)
  next
    case False
    then obtain s1 m1 c1 where s1: "r = Inr s1" "sec_holds g (st_trie s1) m1" "small_map m1"
      "map_of (stateObjects s1) = (map_of (stateObjects s))(a \<mapsto> c1)"
      using w c(1) by (auto simp: unencodable_def split: if_split_asm)
    have o: "map_of (stateObjects s1) b = map_of (stateObjects s) b" if "b \<in> set as" for b using s1(4) that Cons.prems(3) by auto
    then have u: "(\<exists>b \<in> set (a # as). unencodable del s b) \<longleftrightarrow> (\<exists>b \<in> set as. unencodable del s1 b)" using False by (auto simp: unencodable_def)
    have "res_bind r (root_loop g del as) = root_loop g del as s1" using s1(1) by simp
    moreover have "if \<exists>b \<in> set as. unencodable del s1 b then root_loop g del as s1 = Inl EncodeFailed
      else \<exists>s' m'. root_loop g del as s1 = Inr s' \<and> sec_holds g (st_trie s') m' \<and> small_map m' \<and>
        dom (map_of (stateObjects s)) \<subseteq> dom (map_of (stateObjects s'))"
      using Cons.IH [OF s1(2,3)] Cons.prems(3,4) o s1(4) by (auto split: if_split_asm)
    ultimately show ?thesis unfolding u l by (simp only:)
  qed
qed auto

lemma IntermediateRoot_outcome:
  assumes "sound g m s" "small_map m" "\<forall>a c. map_of (stateObjects s) a = Some c \<longrightarrow> acc_Balance (data c) < 2 ^ 256"
  shows "if \<exists>a \<in> set (stateObjectsDirty s). unencodable del s a then IntermediateRoot g del s = Inl EncodeFailed
    else \<exists>rt s'. IntermediateRoot g del s = Inr (rt, s') \<and> dom (map_of (stateObjects s)) \<subseteq> dom (map_of (stateObjects s'))"
proof -
  let ?d = "stateObjectsDirty s"
  have d: "\<forall>a \<in> set ?d. \<exists>c. map_of (stateObjects s) a = Some c \<and> address c = a \<and> sound_obj g c \<and> acc_Balance (data c) < 2 ^ 256"
    using assms(1,3) by (fastforce simp: sound_def)
  have o: "if \<exists>a \<in> set ?d. unencodable del s a then root_loop g del ?d s = Inl EncodeFailed
    else \<exists>s' m'. root_loop g del ?d s = Inr s' \<and> sec_holds g (st_trie s') m' \<and> small_map m' \<and>
      dom (map_of (stateObjects s)) \<subseteq> dom (map_of (stateObjects s'))"
    using assms(1,2) d by (intro root_loop_outcome) (auto simp: sound_def)
  show ?thesis
  proof (cases "\<exists>a \<in> set ?d. unencodable del s a")
    case False
    then obtain s1 m1 where s1: "root_loop g del ?d s = Inr s1" "sec_holds g (st_trie s1) m1" "small_map m1"
      "dom (map_of (stateObjects s)) \<subseteq> dom (map_of (stateObjects s1))" using o by auto
    obtain t where "sec_Hash (st_trie s1) = (Inr (map_root m1), t)" using sec_Hash_holds [OF s1(2) map_sized_small [OF s1(3)]] by blast
    then show ?thesis using False s1(1,4) by (auto simp: IntermediateRoot_def clearJournalAndRefund_def Let_def)
  qed (use o in \<open>auto simp: IntermediateRoot_def\<close>)
qed

lemma flag_suicides_returns: "set as \<subseteq> dom (map_of (stateObjects s)) \<Longrightarrow> \<exists>s'. flag_suicides s as = Inr s'"
proof (induction as arbitrary: s)
  case (Cons a as)
  obtain c where c: "map_of (stateObjects s) a = Some c" using Cons.prems by auto
  define s1 where "s1 = (if suicided c then setStateObject (c\<lparr>deleted := True\<rparr>) s else s)"
  have "dom (map_of (stateObjects s)) \<subseteq> dom (map_of (stateObjects s1))" by (auto simp: s1_def setStateObject_def update_conv')
  then have "\<exists>s'. flag_suicides (s1\<lparr>stateObjectsDirty := removeAll a (stateObjectsDirty s1)\<rparr>) as = Inr s'"
    using Cons.IH [of "s1\<lparr>stateObjectsDirty := removeAll a (stateObjectsDirty s1)\<rparr>"] Cons.prems by auto
  then show ?case using c by (simp add: flag_suicides_def s1_def Let_def)
qed (simp add: flag_suicides_def)

definition complete_small :: "trie_db \<Rightarrow> bytes \<Rightarrow> StateDB \<Rightarrow> bool" where
  \<comment> \<open>a state on a complete database whose keys and values are shorter than \<open>2 ^ 32\<close> bytes\<close>
  "complete_small g rt s \<longleftrightarrow> state_New rt g = Inr s \<and>
     (\<exists>m. sec_holds g (st_trie s) m \<and> trie_ok g m \<and> small_map m \<and>
       (\<forall>a d. load m a = Some d \<longrightarrow> (\<exists>mo. storage_rep g (newObject a (Some d)) mo \<and> small_map mo)))"

lemma complete_small_sound:
  assumes "complete_small g rt s"
  shows "complete_state g rt s" "\<exists>m. sound g m s \<and> small_map m"
proof -
  obtain m where m: "state_New rt g = Inr s" "sec_holds g (st_trie s) m" "trie_ok g m" "small_map m"
    "\<forall>a d. load m a = Some d \<longrightarrow> (\<exists>mo. storage_rep g (newObject a (Some d)) mo \<and> small_map mo)"
    using assms by (auto simp: complete_small_def)
  show "complete_state g rt s" using m by (auto simp: complete_state_def)
  have "sound_obj g (newObject a (Some d))" if "load m a = Some d" for a d
  proof -
    have "length (acc_CodeHash (data (newObject a (Some d)))) = 32" using m(3) that by (auto simp: trie_ok_def obj_rel_def)
    then show ?thesis using m(5) that by (auto simp: sound_obj_def newObject_def slots_sized_def)
  qed
  moreover obtain t where "s = fresh_state t" using m(1) by (auto simp: state_New_def)
  ultimately show "\<exists>m. sound g m s \<and> small_map m" using m(2,4) by (auto simp: sound_def sound_loads_def fresh_state_def)
qed

text \<open>
  C14. What can panic on a state opened on a complete database. Whatever journaled operations are done
  (\<open>state_op\<close>: creating accounts, changes of accounts, suicides, refunds, logs, reads, snapshots and reverts;
  storage values are 32 bytes long), every one of them returns, unless it reverts to a revision that is not
  valid. In the state they lead to, \<open>DeleteSuicides\<close> returns, and so does \<open>IntermediateRoot\<close> as long as the
  balances are below \<open>2 ^ 256\<close>, unless a dirty account that is not removed has a negative balance: then, and
  only then, it panics, because the account cannot be encoded. \<open>Commit\<close> and operations after the write-back
  are not covered.
\<close>

theorem state_ops_no_panic:
  assumes "complete_small g rt s0" "list_all op_sized ops"
  shows "run_state g sn ops s0 = Inl BadRevision \<or>
    (\<exists>s. run_state g sn ops s0 = Inr s \<and> (\<exists>s'. DeleteSuicides s = Inr s') \<and>
      ((\<forall>a c. map_of (stateObjects s) a = Some c \<longrightarrow> acc_Balance (data c) < 2 ^ 256) \<longrightarrow>
        (if \<exists>a \<in> set (stateObjectsDirty s). unencodable del s a then IntermediateRoot g del s = Inl EncodeFailed
         else \<exists>root s'. IntermediateRoot g del s = Inr (root, s'))))"
proof (cases "run_state g sn ops s0")
  case (Inl e)
  then show ?thesis using complete_inv [OF complete_small_sound(1) [OF assms(1)]] run_state_safe by metis
next
  case (Inr s)
  obtain m where m: "sound g m s0" "small_map m" using complete_small_sound(2) [OF assms(1)] by blast
  have s: "sound g m s" using sound_run [OF m(1) assms(2), of sn] Inr by (simp add: ens_def)
  have "\<exists>s'. DeleteSuicides s = Inr s'"
    using flag_suicides_returns [of "stateObjectsDirty s" "clearJournalAndRefund s"] s
    by (simp add: DeleteSuicides_def Let_def sound_def clearJournalAndRefund_def)
  moreover have "if \<exists>a \<in> set (stateObjectsDirty s). unencodable del s a then IntermediateRoot g del s = Inl EncodeFailed
      else \<exists>root s'. IntermediateRoot g del s = Inr (root, s')"
    if "\<forall>a c. map_of (stateObjects s) a = Some c \<longrightarrow> acc_Balance (data c) < 2 ^ 256"
    using IntermediateRoot_outcome [OF s m(2) that, of del] by (auto split: if_split_asm)
  ultimately show ?thesis using Inr by blast
qed

lemma sec_Get_nil: "root (sec_trie t) = NilNode \<Longrightarrow> sec_Get g k t = (Inr None, t)"
  by (simp add: sec_Get_def sec_TryGet_def TryGet_def tryGet.simps)

lemma GetStateObject_nil:
  "map_of (stateObjects s) a = None \<Longrightarrow> root (sec_trie (st_trie s)) = NilNode \<Longrightarrow> GetStateObject g a s = Inr (None, s)"
  by (simp add: GetStateObject_def sec_Get_nil)

lemma state_New_empty:
  "\<exists>t. state_New zero_hash g = Inr (fresh_state t) \<and> root (sec_trie t) = NilNode \<and> complete_small g zero_hash (fresh_state t) \<and>
    sec_holds g t (\<lambda>k. None)"
proof -
  obtain t where t: "NewSecure 0 zero_hash (Some g) MaxTrieCacheGen = Inr t" "sec_holds g t (\<lambda>k. None)"
    using NewSecure_zero [of 0 g MaxTrieCacheGen] by (auto simp: zero_hash_def)
  moreover have "root (sec_trie t) = NilNode" using t(1) by (auto simp: NewSecure_def New_zero zero_hash_def SetCacheLimit_def empty_trie_def)
  moreover have "sec_holds g (st_trie (fresh_state t)) (\<lambda>k. None)" "trie_ok g (\<lambda>k. None)" "small_map (\<lambda>k. None)" "\<And>a. load (\<lambda>k. None) a = None"
    using t(2) by (auto simp: fresh_state_def trie_ok_def small_map_def load_def)
  then have "complete_small g zero_hash (fresh_state t)"
    unfolding complete_small_def using t(1) by (intro conjI exI [of _ "\<lambda>k. None"]) (simp_all add: state_New_def)
  ultimately show ?thesis using t by (auto simp: state_New_def)
qed

theorem state_ops_no_panic_witness:
  "\<exists>s0 s s' root. complete_small Map.empty zero_hash s0 \<and>
     run_state Map.empty 0 [DoSnapshot, DoChange [1] (ChBalance 5)] s0 = Inr s \<and> IntermediateRoot Map.empty False s = Inr (root, s') \<and>
     run_state Map.empty 0 [DoRevert 7] s0 = Inl BadRevision"
proof -
  obtain t where t: "root (sec_trie t) = NilNode" "complete_small Map.empty zero_hash (fresh_state t)"
    using state_New_empty [of Map.empty] by blast
  define c where "c = (newObject [1] None)\<lparr>data := (data (newObject [1] None))\<lparr>acc_Nonce := 0, acc_Balance := 5\<rparr>, onDirty := False\<rparr>"
  obtain s where s: "run_state Map.empty 0 [DoSnapshot, DoChange [1] (ChBalance 5)] (fresh_state t) = Inr s" "stateObjects s = [([1], c)]"
    using t(1) by (simp add: state_step_def Snapshot_def do_change_def SetBalance_def GetOrNewStateObject_def createObject_def GetStateObject_nil
      fresh_state_def Let_def obj_SetBalance_def obj_setBalance_def touch_def append_journal_def MarkStateObjectDirty_def setStateObject_def newObject_def c_def)
  have "\<not> unencodable False s a" for a using s(2) by (simp add: unencodable_def c_def)
  moreover have "acc_Balance (data d) < 2 ^ 256" if "map_of (stateObjects s) a = Some d" for a d
    using that s(2) by (auto simp: c_def split: if_split_asm)
  moreover have "list_all op_sized [DoSnapshot, DoChange [1] (ChBalance 5)]" "list_all op_sized [DoRevert 7]" by (simp_all add: op_sized_def)
  moreover have "run_state Map.empty 0 [DoRevert 7] (fresh_state t) = Inl BadRevision"
    by (simp add: state_step_def bad_revision fresh_state_def)
  ultimately show ?thesis using state_ops_no_panic [OF t(2), of "[DoSnapshot, DoChange [1] (ChBalance 5)]" 0 False] s(1) t(2) by auto
qed

end
