(* ===== verification/Rlp_Types.thy ===== *)
theory Rlp_Types
  imports Rlp_Roundtrip
begin

text \<open>
  Type soundness of decoding: whatever bytes come in, a value that the decoder returns is a value of
  the Go type that was asked for.
\<close>

section \<open>Values of a type\<close>

fun go_type :: "gotype \<Rightarrow> bool" where
  \<comment> \<open>the widths and lengths that Go has\<close>
  "go_type (TUint n) \<longleftrightarrow> n = 8 \<or> n = 16 \<or> n = 32 \<or> n = 64"
| "go_type (TArray n t) \<longleftrightarrow> n < 2 ^ 63 \<and> go_type t"
| "go_type (TSlice t) \<longleftrightarrow> go_type t"
| "go_type (TPtr t) \<longleftrightarrow> go_type t"
| "go_type (TStruct fs) \<longleftrightarrow> list_all (\<lambda>f. go_type (snd f)) fs"
| "go_type _ \<longleftrightarrow> True"

function has_type :: "gotype \<Rightarrow> tags \<Rightarrow> goval \<Rightarrow> bool"
  and has_types :: "(tags \<times> gotype) list \<Rightarrow> goval list \<Rightarrow> bool" where
  "has_type TRaw ts v = (case v of GBytes b \<Rightarrow> True | _ \<Rightarrow> False)"
| "has_type TInterface ts v =
     (case v of
        GIface dt dv \<Rightarrow> (dt = TSlice (TUint 8) \<or> dt = TSlice TInterface) \<and> has_type dt no_tags dv
      | _ \<Rightarrow> False)"
| "has_type TBig ts v = (case v of GBig i \<Rightarrow> 0 \<le> i | _ \<Rightarrow> False)"
| "has_type (TUint n) ts v = (case v of GUint i \<Rightarrow> unat i < 2 ^ n | _ \<Rightarrow> False)"
| "has_type TBool ts v = (case v of GBool b \<Rightarrow> True | _ \<Rightarrow> False)"
| "has_type TString ts v = (case v of GBytes b \<Rightarrow> True | _ \<Rightarrow> False)"
| "has_type (TSlice et) ts v =
     (if isByte et then (case v of GBytes b \<Rightarrow> True | _ \<Rightarrow> False)
      else case v of GList vs \<Rightarrow> list_all (has_type et no_tags) vs | _ \<Rightarrow> False)"
| "has_type (TArray n et) ts v =
     (if isByte et then (case v of GBytes b \<Rightarrow> length b = n | _ \<Rightarrow> False)
      else case v of GList vs \<Rightarrow> length vs = n \<and> list_all (has_type et no_tags) vs | _ \<Rightarrow> False)"
| "has_type (TStruct fs) ts v = (case v of GList vs \<Rightarrow> has_types fs vs | _ \<Rightarrow> False)"
| "has_type (TPtr et) ts v =
     (case v of GNil \<Rightarrow> et \<noteq> TBig \<and> nilOK ts | GPtr pv \<Rightarrow> has_type et no_tags pv | _ \<Rightarrow> False)"
| "has_type TOther ts v = False"
| "has_types [] vs = (vs = [])"
| "has_types ((ts, t) # fs) [] = False"
| "has_types ((ts, t) # fs) (v # vs) = (has_type t ts v \<and> has_types fs vs)"
  by pat_completeness auto
termination
  by (relation "measures
        [case_sum (\<lambda>(t, ts, v). vsize v) (\<lambda>(fs, vs). sum_list (map vsize vs)),
         case_sum (\<lambda>_. 0) (\<lambda>_. 1)]")
    (auto simp: member_le_sum_list intro: le_imp_less_Suc)

declare has_type.simps [simp del]

section \<open>What decoders yield\<close>

definition yields :: "('a \<Rightarrow> bool) \<Rightarrow> 'a dec \<Rightarrow> bool" where
  "yields P m \<longleftrightarrow> (\<forall>s v s'. m s = (Inr v, s') \<longrightarrow> P v)"

lemma yields_bind:
  assumes "yields Q m" "\<And>a. Q a \<Longrightarrow> yields P (f a)"
  shows "yields P (dbind m f)"
  using assms by (fastforce simp: yields_def dbind_def split: prod.splits sum.splits)

lemma yields_any: "yields (\<lambda>a. True) m"
  by (simp add: yields_def)

lemma yields_then: "(\<And>a. yields P (f a)) \<Longrightarrow> yields P (dbind m f)"
  by (rule yields_bind [OF yields_any])

lemma yields_return: "P a \<Longrightarrow> yields P (dreturn a)"
  by (simp add: yields_def dreturn_def)

lemma yields_fail [simp]: "yields P (dfail e)"
  by (simp add: yields_def dfail_def)

lemma yields_dmap_err [simp]: "yields P (dmap_err g m) \<longleftrightarrow> yields P m"
  by (auto simp: yields_def dmap_err_def split: prod.splits sum.splits)

lemma yields_if: "(b \<Longrightarrow> yields P m) \<Longrightarrow> (\<not> b \<Longrightarrow> yields P n) \<Longrightarrow> yields P (if b then m else n)"
  by simp

lemma yields_readFull: "yields (\<lambda>b. length b = unat n) (readFull n)"
  by (auto simp: yields_def readFull_def dbind_def split: prod.splits sum.splits if_splits)

lemma ucast_byte_less: "unat (ucast (b :: byte) :: uint64) < 2 ^ 8"
  using unsigned_less [of b] by (simp add: ucast_byte_word)

lemma yields_readUint:
  assumes "n \<le> 8"
  shows "yields (\<lambda>v. unat v < 2 ^ (8 * n)) (readUint n)"
proof -
  have "yields (\<lambda>v. unat v < 2 ^ (8 * n)) (dbind (readFull (of_nat n)) (\<lambda>bs. if bs ! 0 = 0 then dfail ErrCanonSize else dreturn (be_word bs)))"
  proof (rule yields_bind [OF yields_readFull])
    fix bs :: bytes
    assume "length bs = unat (of_nat n :: uint64)"
    then have "length bs = n" using assms by simp
    then show "yields (\<lambda>v. unat v < 2 ^ (8 * n)) (if bs ! 0 = 0 then dfail ErrCanonSize else dreturn (be_word bs))"
      using assms be_val_bound [of bs] by (auto simp: unat_be_word power_mult intro!: yields_return)
  qed
  then show ?thesis
    using ucast_byte_less by (auto simp: readUint_def intro!: yields_then yields_return) (simp add: yields_def)
qed

lemma yields_uint:
  assumes "go_type (TUint n)"
  shows "yields (\<lambda>v. unat v < 2 ^ n) (Stream_uint n)"
proof -
  have n: "8 \<le> n" "n div 8 \<le> 8" "8 * (n div 8) = n" using assms by auto
  have b: "unat (ucast (b :: byte) :: uint64) < 2 ^ n" for b
    using ucast_byte_less [of b] power_increasing [OF n(1), of "2 :: nat"] by simp
  have r: "unat v < 2 ^ n" if "\<not> sz > of_nat (n div 8)" "readUint (unat sz) s = (Inr v, s')" for sz :: uint64 and v s s'
  proof -
    have "unat (of_nat (n div 8) :: uint64) = n div 8" using n(2) by (intro unat_of_nat64) simp
    then have sz: "unat sz \<le> n div 8" using that(1) by (simp add: not_less word_le_unat)
    then have "unat v < 2 ^ (8 * unat sz)" using yields_readUint [of "unat sz"] n(2) that(2) by (auto simp: yields_def)
    also have "\<dots> \<le> 2 ^ n" using sz n(3) by (intro power_increasing) auto
    finally show ?thesis .
  qed
  show ?thesis unfolding Stream_uint_def
    by (rule yields_then) (auto simp: yields_def dbind_def dmap_err_def dreturn_def dfail_def b
      split: kind.splits prod.splits sum.splits if_splits dest: r)
qed

section \<open>Soundness\<close>

lemma yields_byte_array:
  assumes "n < 2 ^ 63"
  shows "yields (\<lambda>v. case v of GBytes b \<Rightarrow> length b = n | _ \<Rightarrow> False) (decodeByteArray t n)"
proof -
  have "yields (\<lambda>v. case v of GBytes b \<Rightarrow> length b = n | _ \<Rightarrow> False)
      (dbind (readFull (of_nat n)) (\<lambda>slice. if sz = 1 \<and> slice ! 0 < 128 then dfail e else dreturn (GBytes slice)))" for sz :: uint64 and e
    using yields_readFull [of "of_nat n"] assms
    by (intro yields_bind [of "\<lambda>b. length b = n"] yields_if yields_return yields_fail) (simp_all add: unat_of_nat64)
  moreover have "n = 1 \<Longrightarrow> yields (\<lambda>v. case v of GBytes b \<Rightarrow> length b = n | _ \<Rightarrow> False)
      (\<lambda>s. case Stream_uint 64 s of (Inl _, s') \<Rightarrow> (Inr (GBytes [0]), s') | (Inr bv, s') \<Rightarrow> (Inr (GBytes [ucast bv]), s'))"
    by (auto simp: yields_def split: prod.splits sum.splits)
  ultimately show ?thesis unfolding decodeByteArray_def
    by (intro yields_then) (auto split: kind.split intro!: yields_if)
qed

lemma yields_mono: "yields P m \<Longrightarrow> (\<And>a. P a \<Longrightarrow> Q a) \<Longrightarrow> yields Q m"
  by (auto simp: yields_def)

lemma yields_list_slice: "P [] \<Longrightarrow> yields P elems \<Longrightarrow> yields P (decodeListSlice t elems)"
  unfolding decodeListSlice_def by (intro yields_then yields_if yields_return yields_bind [of P elems]) auto

lemma yields_list_array:
  "yields (\<lambda>vs. length vs \<le> n \<and> list_all P vs) arr \<Longrightarrow> yields (\<lambda>vs. length vs = n \<and> list_all P vs) (decodeListArray t n arr)"
  unfolding decodeListArray_def
  by (intro yields_then yields_bind [of "\<lambda>vs. length vs \<le> n \<and> list_all P vs" arr] yields_if yields_return) auto

lemma yields_struct: "yields P flds \<Longrightarrow> yields P (decodeStruct t flds)"
  unfolding decodeStruct_def by (intro yields_then yields_bind [of P flds] yields_return)

lemma yields_optional: "yields P m \<Longrightarrow> yields (\<lambda>v. v = GNil \<or> (\<exists>w. v = GPtr w \<and> P w)) (decodeOptionalPtr m)"
  by (fastforce simp: yields_def decodeOptionalPtr_def dbind_def dreturn_def split: prod.splits sum.splits if_splits)

lemma yields_cons:
  assumes "yields P d" "yields Q ds" "\<And>v vs. P v \<Longrightarrow> Q vs \<Longrightarrow> R (v # vs)" "\<And>e s vs s'. h e s = (Inr vs, s') \<Longrightarrow> R vs"
  shows "yields R (\<lambda>s. case d s of (Inl e, s') \<Rightarrow> h e s' | (Inr v, s') \<Rightarrow> dbind ds (\<lambda>vs. dreturn (v # vs)) s')"
  using assms by (fastforce simp: yields_def dbind_def dreturn_def split: prod.splits sum.splits)

lemma yields_big: "yields (\<lambda>v. case v of GBig i \<Rightarrow> 0 \<le> i | _ \<Rightarrow> False) decodeBigInt"
  by (auto simp: decodeBigInt_def intro!: yields_then yields_if yields_return)

lemma yields_map: "yields Q m \<Longrightarrow> (\<And>a. Q a \<Longrightarrow> P (h a)) \<Longrightarrow> yields P (dbind m (\<lambda>a. dreturn (h a)))"
  by (rule yields_bind [of Q]) (simp_all add: yields_return)

lemma yields_case_kind:
  "yields P m \<Longrightarrow> yields P n \<Longrightarrow> yields P (dbind Kind (\<lambda>(k, _). if k = KList then m else n))"
  by (intro yields_then) (simp add: case_prod_beta)

lemma decoder_has_type_step:
  assumes i1: "\<And>t ts. go_type t \<Longrightarrow> yields (has_type t ts) (decoder f t ts)"
    and i2: "\<And>et. go_type et \<Longrightarrow> yields (list_all (has_type et no_tags)) (decodeSliceElems f et)"
    and i3: "\<And>n et. go_type et \<Longrightarrow> yields (\<lambda>vs. length vs \<le> n \<and> list_all (has_type et no_tags) vs) (decodeArrayElems f n et)"
    and i4: "\<And>styp fs. list_all (\<lambda>f. go_type (snd f)) fs \<Longrightarrow> yields (has_types fs) (decodeFields f styp fs)"
    and t: "go_type t"
  shows "yields (has_type t ts) (decoder (Suc f) t ts)"
proof (cases t)
  case TInterface
  have "yields (has_type TInterface ts) (dbind (decodeListSlice (TSlice TInterface) (decodeSliceElems f TInterface))
      (\<lambda>vs. dreturn (GIface (TSlice TInterface) (GList vs))))"
    by (rule yields_bind [OF yields_list_slice [OF _ i2]]) (auto simp: has_type.simps isByte_def intro!: yields_return)
  moreover have "yields (has_type TInterface ts) (dbind Stream_Bytes (\<lambda>b. dreturn (GIface (TSlice (TUint 8)) (GBytes b))))"
    by (auto simp: has_type.simps isByte_def intro!: yields_then yields_return)
  ultimately show ?thesis using TInterface yields_case_kind by simp
next
  case (TUint n)
  show ?thesis using yields_map [OF yields_uint [of n], of "has_type t ts" GUint] t TUint by (simp add: has_type.simps decodeUint_def)
next
  case (TSlice et)
  have "yields (list_all (has_type et no_tags)) (if tail ts then decodeSliceElems f et else decodeListSlice (TSlice et) (decodeSliceElems f et))"
    using i2 [of et] t TSlice yields_list_slice by auto
  from yields_map [OF this, of "has_type t ts" GList] yields_map [OF yields_any, of "has_type t ts" GBytes Stream_Bytes]
  show ?thesis using TSlice by (simp add: has_type.simps decodeByteSlice_def)
next
  case (TArray n et)
  show ?thesis
    using yields_mono [OF yields_byte_array [of n "TArray n et"], of "has_type t ts"]
      yields_map [OF yields_list_array [OF i3 [of et n]], of "has_type t ts" GList] t TArray
    by (simp add: has_type.simps)
next
  case (TStruct fs)
  show ?thesis using yields_map [OF yields_struct [OF i4 [of fs "TStruct fs"]], of "has_type t ts" GList] t TStruct by (simp add: has_type.simps)
next
  case (TPtr et)
  have "has_type (TPtr et) ts v" if "nilOK ts" "et \<noteq> TBig" "v = GNil \<or> (\<exists>w. v = GPtr w \<and> has_type et no_tags w)" for v
    using that by (auto simp: has_type.simps)
  then have "yields (has_type t ts) (decodeOptionalPtr (decoder f et no_tags))" if "nilOK ts" "et \<noteq> TBig"
    using yields_mono [OF yields_optional [OF i1 [of et no_tags]], of "has_type t ts"] t TPtr that by simp
  then show ?thesis
    using t TPtr yields_map [OF yields_big, of "has_type t ts" GPtr] yields_map [OF i1 [of et no_tags], of "has_type t ts" GPtr]
    by (auto simp: has_type.simps)
qed (auto simp: decodeRawValue_def decodeBool_def decodeString_def has_type.simps intro!: yields_then yields_return yields_mono [OF yields_big])

lemma decoder_has_type:
  "(\<forall>t ts. go_type t \<longrightarrow> yields (has_type t ts) (decoder f t ts)) \<and>
   (\<forall>et. go_type et \<longrightarrow> yields (list_all (has_type et no_tags)) (decodeSliceElems f et)) \<and>
   (\<forall>n et. go_type et \<longrightarrow> yields (\<lambda>vs. length vs \<le> n \<and> list_all (has_type et no_tags) vs) (decodeArrayElems f n et)) \<and>
   (\<forall>styp fs. list_all (\<lambda>f. go_type (snd f)) fs \<longrightarrow> yields (has_types fs) (decodeFields f styp fs))"
proof (induction f)
  case (Suc f)
  then have i1: "\<And>t ts. go_type t \<Longrightarrow> yields (has_type t ts) (decoder f t ts)"
    and i2: "\<And>et. go_type et \<Longrightarrow> yields (list_all (has_type et no_tags)) (decodeSliceElems f et)"
    and i3: "\<And>n et. go_type et \<Longrightarrow> yields (\<lambda>vs. length vs \<le> n \<and> list_all (has_type et no_tags) vs) (decodeArrayElems f n et)"
    and i4: "\<And>styp fs. list_all (\<lambda>f. go_type (snd f)) fs \<Longrightarrow> yields (has_types fs) (decodeFields f styp fs)"
    by blast+
  show ?case
  proof (intro conjI allI impI)
    fix t ts
    assume "go_type t"
    then show "yields (has_type t ts) (decoder (Suc f) t ts)" using decoder_has_type_step [of f t ts] i1 i2 i3 i4 by simp
  next
    fix et
    assume "go_type et"
    then show "yields (list_all (has_type et no_tags)) (decodeSliceElems (Suc f) et)"
      by (simp only: decoder.simps decodeSliceElems.simps, intro yields_cons [OF i1 i2]) (auto split: if_splits)
  next
    fix n et
    assume "go_type et"
    then show "yields (\<lambda>vs. length vs \<le> n \<and> list_all (has_type et no_tags) vs) (decodeArrayElems (Suc f) n et)"
    proof (cases n)
      case (Suc n')
      then show ?thesis using \<open>go_type et\<close>
        by (simp only: decodeArrayElems.simps, intro yields_cons [OF i1 i3]) (auto split: if_splits)
    qed (simp add: yields_return)
  next
    fix styp fs
    assume g: "list_all (\<lambda>f. go_type (snd f)) (fs :: (tags \<times> gotype) list)"
    show "yields (has_types fs) (decodeFields (Suc f) styp fs)"
    proof (cases fs)
      case (Cons x gs)
      obtain ts t where x: "x = (ts, t)" by (cases x)
      have "go_type t" "list_all (\<lambda>f. go_type (snd f)) gs" using g x Cons by auto
      then show ?thesis unfolding Cons x
        by (simp only: decodeFields.simps, intro yields_cons [OF i1 i4]) (auto split: if_splits)
    qed (simp add: yields_return)
  qed
qed auto

text \<open>
  C12. Decoding is type sound: on any input, at any fuel, a value returned by \<open>DecodeBytes\<close> for a Go type
  has that type. Unsigned integers fit their width, big integers are not negative, arrays have their
  length, structs have all their fields, and a nil pointer appears only in a field tagged \<open>nil\<close>.
\<close>

theorem DecodeBytes_has_type:
  assumes "go_type t" "DecodeBytes f b t = Inr v"
  shows "has_type t no_tags v"
proof -
  have "yields (has_type t no_tags) (decoder f t no_tags)" using decoder_has_type assms(1) by blast
  then show ?thesis using assms(2)
    by (auto simp: DecodeBytes_def Stream_Decode_def yields_def dfail_def split: sum.splits prod.splits if_splits)
qed

theorem DecodeBytes_has_type_witness:
  "DecodeBytes 200 [0xC6, 0x82, 4, 0, 0x82, 1, 2] (TStruct [(no_tags, TUint 16), (no_tags, TSlice (TUint 8))]) =
     Inr (GList [GUint 1024, GBytes [1, 2]]) \<and>
   has_type (TStruct [(no_tags, TUint 16), (no_tags, TSlice (TUint 8))]) no_tags (GList [GUint 1024, GBytes [1, 2]])"
proof -
  let ?t = "TStruct [(no_tags, TUint 16), (no_tags, TSlice (TUint 8))]" and ?v = "GList [GUint 1024, GBytes [1, 2]]"
  have it: "items ?t no_tags ?v = Inr [Lst [Str [4, 0], Str [1, 2]]]" by (simp add: isByte_def nat_bytes.simps)
  have enc: "rlps [Lst [Str [4, 0], Str [1, 2]]] = [0xC6, 0x82, 4, 0, 0x82, 1, 2]"
    by (simp add: rlps_def rlp_lst_def rlp_str_def puthead_def)
  have g: "genTypeInfo ?t = Inr ()" by (simp add: parseStructTag_def no_tags_def isByte_def)
  have c: "canon ?t no_tags ?v" and r: "returning ?t" by (simp_all add: isByte_def no_tags_def)
  have "DecodeBytes 200 [0xC6, 0x82, 4, 0, 0x82, 1, 2] ?t = Inr ?v"
    using DecodeBytes_roundtrip [OF c r g it, of 200] by (simp add: enc decode_fuel_def)
  then show ?thesis using DecodeBytes_has_type [of ?t 200 "[0xC6, 0x82, 4, 0, 0x82, 1, 2]" ?v] by simp
qed

end
