(* ===== verification/Exec_Model.thy ===== *)
theory Exec_Model
  imports State_Revert
begin

text \<open>
  Executing messages: chain configuration (\<open>configure\<close>), the gas pool (\<open>gaspool.go\<close>), calls and
  creations (\<open>execution.go\<close>, \<open>vm_env.go\<close>) and the state transition of a message
  (\<open>state_transition.go\<close>). The virtual machine itself is commented out in the code: a call transfers
  value and runs nothing. The callers are accounts; \<open>CallCode\<close> and \<open>DelegateCall\<close>, which only running code
  could reach with another caller, are left out.
\<close>

section \<open>Configuration and headers\<close>

record ChainConfig =
  ChainId :: int
  HomesteadBlock :: "int option"
  DAOForkBlock :: "int option"
  DAOForkSupport :: bool
  SiotImpr0Block :: "int option"
  SiotImpr0Hash :: bytes
  SiotImpr1Block :: "int option"
  SiotImpr2Block :: "int option"

definition reached :: "int option \<Rightarrow> int \<Rightarrow> bool" where
  "reached b num = (case b of None \<Rightarrow> False | Some b \<Rightarrow> b \<le> num)"

definition IsHomestead :: "ChainConfig \<Rightarrow> int \<Rightarrow> bool" where
  "IsHomestead c num = reached (HomesteadBlock c) num"

definition IsSiotImpr0 :: "ChainConfig \<Rightarrow> int \<Rightarrow> bool" where
  "IsSiotImpr0 c num = reached (SiotImpr0Block c) num"

definition IsSiotImpr1 :: "ChainConfig \<Rightarrow> int \<Rightarrow> bool" where
  "IsSiotImpr1 c num = reached (SiotImpr1Block c) num"

definition IsSiotImpr2 :: "ChainConfig \<Rightarrow> int \<Rightarrow> bool" where
  "IsSiotImpr2 c num = reached (SiotImpr2Block c) num"

text \<open>Protocol parameters.\<close>

definition TxGas :: int where "TxGas = 21000"
definition TxGasExternalLogicCreation :: int where "TxGasExternalLogicCreation = 53000"
definition TxDataZeroGas :: int where "TxDataZeroGas = 4"
definition TxDataNonZeroGas :: int where "TxDataNonZeroGas = 68"
definition CreateDataGas :: int where "CreateDataGas = 200"
definition CallCreateDepth :: int where "CallCreateDepth = 1024"

record Header =
  hdr_ParentHash :: bytes
  hdr_UncleHash :: bytes
  hdr_Coinbase :: bytes
  hdr_Root :: bytes
  hdr_TxHash :: bytes
  hdr_ReceiptHash :: bytes
  hdr_Bloom :: bytes
  hdr_Difficulty :: int
  hdr_Number :: int
  hdr_GasLimit :: int
  hdr_GasUsed :: int
  hdr_Time :: int
  hdr_Extra :: bytes
  hdr_MixDigest :: bytes
  hdr_Nonce :: bytes

section \<open>Messages and errors\<close>

record Message =
  msg_From :: bytes
  msg_To :: "bytes option"
  msg_GasPrice :: int
  msg_Gas :: int
  msg_Value :: int
  msg_Nonce :: uint64
  msg_CheckNonce :: bool
  msg_Data :: bytes

datatype exec_error =
    InsufficientCoinbase
  | OutOfGasError
  | DepthError
  | ValueTransferErr
  | CodeStoreOutOfGasError

datatype tx_error = NonceErr uint64 uint64 | GasLimitErr int int | InvalidTxErr exec_error

definition MessageCreatesExternalLogic :: "Message \<Rightarrow> bool" where
  "MessageCreatesExternalLogic msg \<longleftrightarrow> msg_To msg = None"

definition IntrinsicGas :: "bytes \<Rightarrow> bool \<Rightarrow> bool \<Rightarrow> int" where
  "IntrinsicGas d externalLogicCreation homestead =
     (let igas = (if externalLogicCreation \<and> homestead then TxGasExternalLogicCreation else TxGas);
          nz = int (length (filter (\<lambda>b. b \<noteq> 0) d))
      in if d = [] then igas else igas + nz * TxDataNonZeroGas + (int (length d) - nz) * TxDataZeroGas)"

section \<open>The gas pool\<close>

definition AddGas :: "int \<Rightarrow> int \<Rightarrow> int" where
  "AddGas amount gp = gp + amount"

definition SubGas :: "int \<Rightarrow> int \<Rightarrow> tx_error + int" where
  "SubGas amount gp = (if gp < amount then Inl (GasLimitErr gp amount) else Inr (gp - amount))"

section \<open>The environment\<close>

text \<open>
  An account that the code holds is a pointer to the live object of its address: its methods act on
  the object that is there when they are called. Only \<open>createObject\<close> replaces a live object, and the one
  function that holds an account across it is \<open>Create\<close>; pointer and live object agree there as long as
  the new address is not the caller's.
\<close>

definition at_account :: "bytes \<Rightarrow> (StateObject \<Rightarrow> StateDB \<Rightarrow> StateDB) \<Rightarrow> StateDB \<Rightarrow> state_panic + StateDB" where
  "at_account a f s = (case map_of (stateObjects s) a of None \<Rightarrow> Inl NilObject | Some c \<Rightarrow> Inr (f c s))"

record VMEnv =
  env_config :: ChainConfig
  env_depth :: int
  env_header :: Header

definition CanTransfer :: "trie_db \<Rightarrow> bytes \<Rightarrow> int \<Rightarrow> StateDB \<Rightarrow> state_panic + bool \<times> StateDB" where
  "CanTransfer g a balance s = map_ok (\<lambda>(b, s). (balance \<le> b, s)) (GetBalance g a s)"

definition Transfer :: "bytes \<Rightarrow> bytes \<Rightarrow> int \<Rightarrow> StateDB \<Rightarrow> state_panic + StateDB" where
  "Transfer fr to amount s =
     res_bind (at_account fr (obj_SubBalance amount) s) (at_account to (obj_AddBalance amount))"

definition Precompiled :: "bytes \<Rightarrow> bool" where
  "Precompiled a \<longleftrightarrow> a \<in> {replicate 19 0 @ [1], replicate 19 0 @ [2], replicate 19 0 @ [3], replicate 19 0 @ [4]}"

definition get_account :: "trie_db \<Rightarrow> bytes \<Rightarrow> StateDB \<Rightarrow> state_panic + StateDB" where
  \<comment> \<open>\<open>GetAccount\<close>; the pointer is the address\<close>
  "get_account g a s = map_ok snd (GetStateObject g a s)"

definition account_or_new :: "trie_db \<Rightarrow> uint64 \<Rightarrow> bytes \<Rightarrow> StateDB \<Rightarrow> state_panic + StateDB" where
  \<comment> \<open>\<open>if !Exist(a) { CreateAccount(a) } else { GetAccount(a) }\<close>\<close>
  "account_or_new g sn a s =
     res_bind (Exist g a s) (\<lambda>(ex, s). if \<not> ex then CreateAccount g sn a s else get_account g a s)"

definition Call :: "trie_db \<Rightarrow> uint64 \<Rightarrow> VMEnv \<Rightarrow> bytes \<Rightarrow> bytes \<Rightarrow> int \<Rightarrow> StateDB \<Rightarrow>
    state_panic + exec_error option \<times> StateDB" where
  \<comment> \<open>the caller is an account, whose \<open>ReturnGas\<close> does nothing; with nothing run, the gas stays as it is\<close>
  "Call g sn env caller addr val s =
     (if env_depth env > CallCreateDepth then Inr (Some DepthError, s)
      else res_bind (CanTransfer g caller val s) (\<lambda>(ok, s).
        if \<not> ok then Inr (Some ValueTransferErr, s)
        else
          let (snapshotPreTransfer, s) = Snapshot s
          in res_bind (get_account g caller s) (\<lambda>s.
             res_bind (Exist g addr s) (\<lambda>(ex, s).
               if \<not> ex \<and> \<not> Precompiled addr \<and> IsSiotImpr2 (env_config env) (hdr_Number (env_header env)) \<and> val = 0
               then Inr (None, s)
               else
                 res_bind (if \<not> ex then CreateAccount g sn addr s else get_account g addr s) (\<lambda>s.
                 map_ok (\<lambda>s. (None, s)) (Transfer caller addr val s))))))"

definition Create :: "trie_db \<Rightarrow> uint64 \<Rightarrow> VMEnv \<Rightarrow> bytes \<Rightarrow> int \<Rightarrow> int \<Rightarrow> StateDB \<Rightarrow>
    state_panic + (bytes \<times> exec_error option) \<times> int \<times> StateDB" where
  \<comment> \<open>the gas is a pointer that is changed in place; \<open>ret\<close> is nil, as nothing is run\<close>
  "Create g sn env caller gas val s =
     (if env_depth env > CallCreateDepth then Inr ((replicate 20 0, Some DepthError), gas, s)
      else res_bind (CanTransfer g caller val s) (\<lambda>(ok, s).
        if \<not> ok then Inr ((replicate 20 0, Some ValueTransferErr), gas, s)
        else
          res_bind (GetNonce g sn caller s) (\<lambda>(nonce, s).
          res_bind (SetNonce g sn caller (nonce + 1) s) (\<lambda>s.
            let (snapshotPreTransfer, s) = Snapshot s;
                addr = CreateAddress caller nonce
            in res_bind (get_account g caller s) (\<lambda>s.
               res_bind (CreateAccount g sn addr s) (\<lambda>s.
               res_bind (if IsSiotImpr2 (env_config env) (hdr_Number (env_header env)) then SetNonce g sn addr 1 s else Inr s) (\<lambda>s.
               res_bind (Transfer caller addr val s) (\<lambda>s.
                 let dataGas = 0 * CreateDataGas
                 in if gas < dataGas
                    then
                      (if IsHomestead (env_config env) (hdr_Number (env_header env))
                       then map_ok (\<lambda>s. ((addr, Some CodeStoreOutOfGasError), 0, s)) (RevertToSnapshot g snapshotPreTransfer s)
                       else Inr ((addr, None), gas, s))
                    else map_ok (\<lambda>s. ((addr, None), gas - dataGas, s)) (SetCode g sn addr None s)))))))))"

section \<open>State transition\<close>

record StateTransition =
  st_gp :: int
  st_gas :: int
  st_initialGas :: int
  st_state :: StateDB

definition NewStateTransition :: "int \<Rightarrow> StateDB \<Rightarrow> StateTransition" where
  "NewStateTransition gp s = \<lparr>st_gp = gp, st_gas = 0, st_initialGas = 0, st_state = s\<rparr>"

definition gasUsed :: "StateTransition \<Rightarrow> int" where
  "gasUsed st = st_initialGas st - st_gas st"

definition useGas :: "int \<Rightarrow> StateTransition \<Rightarrow> exec_error + StateTransition" where
  "useGas amount st = (if st_gas st < amount then Inl OutOfGasError else Inr (st\<lparr>st_gas := st_gas st - amount\<rparr>))"

definition buyGas :: "trie_db \<Rightarrow> uint64 \<Rightarrow> Message \<Rightarrow> StateTransition \<Rightarrow> state_panic + tx_error option \<times> StateTransition" where
  "buyGas g sn msg st =
     (let mgas = msg_Gas msg;
          mgval = mgas * msg_GasPrice msg
      in res_bind (account_or_new g sn (msg_From msg) (st_state st)) (\<lambda>s.
         case map_of (stateObjects s) (msg_From msg) of
           None \<Rightarrow> Inl NilObject
         | Some sender \<Rightarrow>
             if acc_Balance (data sender) < mgval then Inr (Some (InvalidTxErr InsufficientCoinbase), st\<lparr>st_state := s\<rparr>)
             else case SubGas mgas (st_gp st) of
                    Inl err \<Rightarrow> Inr (Some err, st\<lparr>st_state := s\<rparr>)
                  | Inr gp \<Rightarrow>
                      Inr (None, st\<lparr>st_gp := gp, st_gas := st_gas st + mgas, st_initialGas := mgas,
                                   st_state := obj_SubBalance mgval sender s\<rparr>)))"

definition preCheck :: "trie_db \<Rightarrow> uint64 \<Rightarrow> Message \<Rightarrow> StateTransition \<Rightarrow> state_panic + tx_error option \<times> StateTransition" where
  "preCheck g sn msg st =
     res_bind (account_or_new g sn (msg_From msg) (st_state st)) (\<lambda>s.
       if msg_CheckNonce msg
       then res_bind (GetNonce g sn (msg_From msg) s) (\<lambda>(n, s).
              if n \<noteq> msg_Nonce msg then Inr (Some (NonceErr (msg_Nonce msg) n), st\<lparr>st_state := s\<rparr>)
              else buyGas g sn msg (st\<lparr>st_state := s\<rparr>))
       else buyGas g sn msg (st\<lparr>st_state := s\<rparr>))"

definition refundGas :: "trie_db \<Rightarrow> uint64 \<Rightarrow> Message \<Rightarrow> StateTransition \<Rightarrow> state_panic + StateTransition" where
  \<comment> \<open>\<open>BigMin\<close> returns one of its arguments; if it is the counter of the state, \<open>refund.Mul\<close> changes it in place\<close>
  "refundGas g sn msg st =
     res_bind (account_or_new g sn (msg_From msg) (st_state st)) (\<lambda>s.
     res_bind (at_account (msg_From msg) (obj_AddBalance (st_gas st * msg_GasPrice msg)) s) (\<lambda>s.
       let uhalf = gasUsed st div 2;
           counter = uhalf > GetRefund s;
           rf = (if counter then GetRefund s else uhalf);
           s = (if counter then s\<lparr>refund := rf * msg_GasPrice msg\<rparr> else s)
       in map_ok (\<lambda>s. st\<lparr>st_gas := st_gas st + rf, st_state := s, st_gp := AddGas (st_gas st + rf) (st_gp st)\<rparr>)
            (AddBalance g sn (msg_From msg) (rf * msg_GasPrice msg) s)))"

definition run_message :: "trie_db \<Rightarrow> uint64 \<Rightarrow> VMEnv \<Rightarrow> Message \<Rightarrow> StateTransition \<Rightarrow>
    state_panic + exec_error option \<times> StateTransition" where
  \<comment> \<open>the middle of \<open>TransitionDb\<close>: creation or call\<close>
  "run_message g sn env msg st =
     (let homestead = IsHomestead (env_config env) (hdr_Number (env_header env))
      in case msg_To msg of
           None \<Rightarrow>
             map_ok (\<lambda>((addr, err), gas, s).
                (err, st\<lparr>st_gas := (if homestead \<and> err = Some CodeStoreOutOfGasError then 0 else gas), st_state := s\<rparr>))
               (Create g sn env (msg_From msg) (st_gas st) (msg_Value msg) (st_state st))
         | Some to \<Rightarrow>
             res_bind (GetNonce g sn (msg_From msg) (st_state st)) (\<lambda>(n, s).
             res_bind (SetNonce g sn (msg_From msg) (n + 1) s) (\<lambda>s.
             res_bind (account_or_new g sn to s) (\<lambda>s.
             map_ok (\<lambda>(err, s). (err, st\<lparr>st_state := s\<rparr>)) (Call g sn env (msg_From msg) to (msg_Value msg) s)))))"

definition TransitionDb :: "trie_db \<Rightarrow> uint64 \<Rightarrow> VMEnv \<Rightarrow> Message \<Rightarrow> StateTransition \<Rightarrow>
    state_panic + (tx_error + int \<times> int) \<times> StateTransition" where
  \<comment> \<open>the required and the used gas; \<open>ret\<close> is always nil\<close>
  "TransitionDb g sn env msg st =
     res_bind (preCheck g sn msg st) (\<lambda>(err, st).
       case err of
         Some e \<Rightarrow> Inr (Inl e, st)
       | None \<Rightarrow>
           res_bind (account_or_new g sn (msg_From msg) (st_state st)) (\<lambda>s.
             let st = st\<lparr>st_state := s\<rparr>;
                 homestead = IsHomestead (env_config env) (hdr_Number (env_header env))
             in case useGas (IntrinsicGas (msg_Data msg) (MessageCreatesExternalLogic msg) homestead) st of
                  Inl e \<Rightarrow> Inr (Inl (InvalidTxErr e), st)
                | Inr st \<Rightarrow>
                    res_bind (run_message g sn env msg st) (\<lambda>(err, st).
                      if err = Some ValueTransferErr then Inr (Inl (InvalidTxErr ValueTransferErr), st)
                      else
                        let requiredGas = gasUsed st
                        in res_bind (refundGas g sn msg st) (\<lambda>st.
                           map_ok (\<lambda>s. (Inr (requiredGas, gasUsed st), st\<lparr>st_state := s\<rparr>))
                             (AddBalance g sn (hdr_Coinbase (env_header env)) (gasUsed st * msg_GasPrice msg) (st_state st))))))"

definition ApplyMessage :: "trie_db \<Rightarrow> uint64 \<Rightarrow> VMEnv \<Rightarrow> Message \<Rightarrow> int \<Rightarrow> StateDB \<Rightarrow>
    state_panic + (tx_error + int) \<times> int \<times> StateDB" where
  \<comment> \<open>the gas used, the gas pool and the state\<close>
  "ApplyMessage g sn env msg gp s =
     map_ok (\<lambda>(r, st). (map_ok snd r, st_gp st, st_state st)) (TransitionDb g sn env msg (NewStateTransition gp s))"

end
