(* ===== verification/Types_Bloom.thy ===== *)
theory Types_Bloom
  imports State_DB
begin

text \<open>
  Receipts and their bloom filter (\<open>types/bloom9.go\<close>). A filter is an array of 256 bytes; in between it
  is a big integer, here a natural number.
\<close>

unbundle bit_operations_syntax

record Receipt =
  rc_PostState :: bytes
  rc_CumulativeGasUsed :: int
  rc_Bloom :: bytes
  rc_Logs :: "Log list"
  rc_TxHash :: bytes
  rc_ExternalLogicAddress :: bytes
  rc_GasUsed :: int

section \<open>The filter\<close>

definition bloomLength :: nat where "bloomLength = 256"

definition bloom_index :: "bytes \<Rightarrow> nat \<Rightarrow> nat" where
  \<comment> \<open>eleven bits of the digest\<close>
  "bloom_index h i = (unat (h ! (i + 1)) + push_bit 8 (unat (h ! i))) AND 2047"

definition bloom9 :: "bytes \<Rightarrow> nat" where
  "bloom9 b = (let b = Keccak256 [b] in fold (\<lambda>i r. r OR push_bit (bloom_index b i) 1) [0, 2, 4] 0)"

definition Bloom_SetBytes :: "bytes \<Rightarrow> bytes \<Rightarrow> bytes option" where
  \<comment> \<open>\<open>None\<close> is the panic; the bytes before \<open>d\<close> stay as they are\<close>
  "Bloom_SetBytes d b = (if bloomLength < length d then None else Some (take (bloomLength - length d) b @ d))"

definition BytesToBloom :: "bytes \<Rightarrow> bytes option" where
  "BytesToBloom d = Bloom_SetBytes d (replicate bloomLength 0)"

definition Bloom_Add :: "nat \<Rightarrow> bytes \<Rightarrow> bytes option" where
  "Bloom_Add d b = Bloom_SetBytes (nat_bytes (be_val b OR bloom9 (nat_bytes d))) b"

definition LogsBloom :: "Log list \<Rightarrow> nat" where
  "LogsBloom ls =
     fold (\<lambda>log bin. fold (\<lambda>b bin. bin OR bloom9 b) (log_Topics log) (bin OR bloom9 (log_Address log))) ls 0"

definition CreateBloom :: "Receipt list \<Rightarrow> bytes option" where
  "CreateBloom receipts = BytesToBloom (nat_bytes (fold (\<lambda>r bin. bin OR LogsBloom (rc_Logs r)) receipts 0))"

definition BloomLookup :: "bytes \<Rightarrow> bytes \<Rightarrow> bool" where
  \<comment> \<open>the second argument is \<open>topic.Bytes()\<close>\<close>
  "BloomLookup bin topic \<longleftrightarrow> be_val bin AND bloom9 topic = bloom9 topic"

definition Bloom_Test :: "bytes \<Rightarrow> nat \<Rightarrow> bool" where
  "Bloom_Test b test \<longleftrightarrow> BloomLookup b (nat_bytes test)"

definition Bloom_TestBytes :: "bytes \<Rightarrow> bytes \<Rightarrow> bool" where
  "Bloom_TestBytes b test \<longleftrightarrow> Bloom_Test b (be_val test)"

section \<open>Covered bits\<close>

definition covers :: "nat \<Rightarrow> nat \<Rightarrow> bool" where
  "covers n c \<longleftrightarrow> n AND c = c"

lemma covers_bits: "covers n c \<longleftrightarrow> (\<forall>i. bit c i \<longrightarrow> bit n i)"
  by (auto simp: covers_def bit_eq_iff bit_and_iff)

lemma covers_or [simp]: "covers (n OR c) d \<longleftrightarrow> (\<forall>i. bit d i \<longrightarrow> bit n i \<or> bit c i)"
  by (simp add: covers_bits bit_or_iff)

lemma covers_refl [simp]: "covers n n" and covers_0 [simp]: "covers n 0"
  by (simp_all add: covers_bits)

lemma fold_or_bits: "bit (fold (\<lambda>x n. n OR f x) xs n :: nat) i \<longleftrightarrow> bit n i \<or> (\<exists>x \<in> set xs. bit (f x) i)"
  by (induction xs arbitrary: n) (auto simp: bit_or_iff)

lemma or_bound: "(a :: nat) < 2 ^ k \<Longrightarrow> b < 2 ^ k \<Longrightarrow> a OR b < 2 ^ k"
  by (simp add: take_bit_or flip: take_bit_nat_eq_self_iff)

lemma or_above: "(a :: nat) \<le> a OR b"
  using or_greater_eq [of "int b" "int a"] by (simp flip: of_nat_or_eq)

lemma fold_or_bound: "n < 2 ^ k \<Longrightarrow> (\<And>x. x \<in> set xs \<Longrightarrow> f x < 2 ^ k) \<Longrightarrow> fold (\<lambda>x n. n OR f x) xs n < (2 ^ k :: nat)"
  by (induction xs arbitrary: n) (auto simp: or_bound)

lemma bloom_index_bound: "bloom_index h i < 2048"
proof -
  have "bloom_index h i = take_bit 11 (unat (h ! (i + 1)) + push_bit 8 (unat (h ! i)))"
    unfolding bloom_index_def take_bit_eq_mask by (simp add: mask_eq_exp_minus_1)
  also have "\<dots> < 2 ^ 11" by (rule take_bit_nat_less_exp)
  finally show ?thesis by simp
qed

lemma push_bit_bound: "i < k \<Longrightarrow> push_bit i 1 < (2 ^ k :: nat)"
  by (simp add: push_bit_eq_mult)

lemma bloom9_bound: "bloom9 b < 2 ^ 2048"
proof -
  have "push_bit (bloom_index h i) 1 < (2 ^ 2048 :: nat)" for h i
    using push_bit_bound [OF bloom_index_bound] .
  then show ?thesis unfolding bloom9_def Let_def by (intro fold_or_bound) auto
qed

lemma log_fold: "fold (\<lambda>b bin. bin OR bloom9 b) ts (bin OR bloom9 a) = bin OR fold (\<lambda>b bin. bin OR bloom9 b) (a # ts) 0"
  by (auto simp: bit_eq_iff fold_or_bits bit_or_iff)

lemma LogsBloom_alt: "LogsBloom ls = fold (\<lambda>l bin. bin OR fold (\<lambda>b bin. bin OR bloom9 b) (log_Address l # log_Topics l) 0) ls 0"
  unfolding LogsBloom_def log_fold ..

lemma LogsBloom_bound: "LogsBloom ls < 2 ^ 2048"
  unfolding LogsBloom_alt by (intro fold_or_bound bloom9_bound) simp_all

lemma LogsBloom_covers:
  assumes "l \<in> set ls" "x = log_Address l \<or> x \<in> set (log_Topics l)"
  shows "covers (LogsBloom ls) (bloom9 x)"
  using assms unfolding covers_bits LogsBloom_alt fold_or_bits by auto

lemma be_val_zeros [simp]: "be_val (replicate k 0 @ d) = be_val d"
  by (induction k) (simp_all add: be_val_Cons)

lemma Bloom_Bytes:
  assumes "n < 2 ^ 2048"
  shows "\<exists>b. BytesToBloom (nat_bytes n) = Some b \<and> length b = bloomLength \<and> be_val b = n"
proof -
  have "length (nat_bytes n) \<le> 256" using length_nat_bytes_le [of n 256] assms by (simp add: power_mult [symmetric, of 2 8])
  then show ?thesis by (simp add: BytesToBloom_def Bloom_SetBytes_def bloomLength_def)
qed

lemma CreateBloom_returns:
  "\<exists>b. CreateBloom receipts = Some b \<and> length b = bloomLength \<and> be_val b = fold (\<lambda>r bin. bin OR LogsBloom (rc_Logs r)) receipts 0"
proof -
  have "fold (\<lambda>r bin. bin OR LogsBloom (rc_Logs r)) receipts (0 :: nat) < 2 ^ 2048" by (intro fold_or_bound LogsBloom_bound) simp
  then show ?thesis using Bloom_Bytes unfolding CreateBloom_def by blast
qed

text \<open>
  C16. The bloom filter of a block has no false negatives. \<open>CreateBloom\<close> never panics, and looking up the
  address or a topic of any log of the receipts succeeds.
\<close>

theorem CreateBloom_complete:
  assumes "r \<in> set receipts" "l \<in> set (rc_Logs r)" "x = log_Address l \<or> x \<in> set (log_Topics l)"
  shows "\<exists>b. CreateBloom receipts = Some b \<and> length b = bloomLength \<and> BloomLookup b x"
proof -
  let ?n = "fold (\<lambda>r bin. bin OR LogsBloom (rc_Logs r)) receipts (0 :: nat)"
  obtain b where b: "CreateBloom receipts = Some b" "length b = bloomLength" "be_val b = ?n"
    using CreateBloom_returns by blast
  have "covers ?n (bloom9 x)"
    using LogsBloom_covers [OF assms(2,3)] assms(1) unfolding covers_bits fold_or_bits by auto
  then show ?thesis using b by (auto simp: BloomLookup_def covers_def)
qed

definition sample_receipt :: Receipt where
  "sample_receipt = \<lparr>rc_PostState = [], rc_CumulativeGasUsed = 0, rc_Bloom = [],
     rc_Logs = [\<lparr>log_Address = [1], log_Topics = [[2]], log_Data = [], log_BlockNumber = 0, log_TxHash = [], log_TxIndex = 0,
                 log_BlockHash = [], log_Index = 0\<rparr>],
     rc_TxHash = [], rc_ExternalLogicAddress = [], rc_GasUsed = 0\<rparr>"

theorem CreateBloom_complete_witness: "\<exists>b. CreateBloom [sample_receipt] = Some b \<and> BloomLookup b [2]"
  using CreateBloom_complete [of sample_receipt "[sample_receipt]" "hd (rc_Logs sample_receipt)" "[2]"] by (auto simp: sample_receipt_def)

lemma Add_Test:
  assumes "length b = bloomLength"
  shows "\<exists>b'. Bloom_Add d b = Some b' \<and> length b' = bloomLength \<and> Bloom_Test b' d \<and> (\<forall>x. BloomLookup b x \<longrightarrow> BloomLookup b' x)"
proof -
  define n where "n = be_val b OR bloom9 (nat_bytes d)"
  define k where "k = length (nat_bytes n)"
  have "be_val b < 256 ^ bloomLength" using be_val_bound [of b] assms by simp
  then have "be_val b < 2 ^ 2048" by (simp add: bloomLength_def power_mult [symmetric, of 2 8])
  then have "n < 2 ^ 2048" unfolding n_def by (intro or_bound bloom9_bound)
  then have k: "k \<le> bloomLength"
    using length_nat_bytes_le [of n 256] by (simp add: k_def bloomLength_def power_mult [symmetric, of 2 8])
  have "be_val (take (bloomLength - k) b) * 256 ^ k + be_val (drop (bloomLength - k) b) = be_val b"
    using be_val_append [of "take (bloomLength - k) b" "drop (bloomLength - k) b"] assms k by simp
  moreover have "be_val b \<le> n"
    unfolding n_def by (rule or_above)
  moreover have "n < 256 ^ k" using be_val_bound [of "nat_bytes n"] by (simp add: k_def)
  ultimately have "be_val (take (bloomLength - k) b) * 256 ^ k < 1 * 256 ^ k" by linarith
  then have "be_val (take (bloomLength - k) b) = 0" by (simp only: mult_less_cancel2) simp
  then have v: "be_val (take (bloomLength - k) b @ nat_bytes n) = n" by (simp add: be_val_append)
  have "Bloom_Add d b = Some (take (bloomLength - k) b @ nat_bytes n)"
    using k by (simp add: Bloom_Add_def Bloom_SetBytes_def n_def [symmetric] k_def [symmetric])
  moreover have "length (take (bloomLength - k) b @ nat_bytes n) = bloomLength" using k assms by (simp add: k_def)
  moreover have "covers n (bloom9 (nat_bytes d))" "\<And>x. covers (be_val b) x \<Longrightarrow> covers n x" by (auto simp: n_def covers_bits bit_or_iff)
  ultimately show ?thesis using v by (auto simp: Bloom_Test_def BloomLookup_def covers_def)
qed

end
