(* ===== verification/Types_Block.thy ===== *)
theory Types_Block
  imports Exec_Model Trie_Size Types_Bloom
begin

text \<open>
  Transactions, headers and blocks (\<open>types/transaction.go\<close>, \<open>types/block.go\<close>), their hashes, and the root of
  an indexed list (\<open>types/derive_sha.go\<close>).
\<close>

section \<open>Transactions and blocks\<close>

record Transaction =
  tx_AccountNonce :: uint64
  tx_Price :: int
  tx_GasLimit :: int
  tx_Recipient :: "bytes option"
  tx_Amount :: int
  tx_Payload :: bytes
  tx_V :: int
  tx_R :: int
  tx_S :: int

record Block =
  blk_header :: Header
  blk_uncles :: "Header list"
  blk_transactions :: "Transaction list"

definition bytes_type :: gotype where "bytes_type = TSlice (TUint 8)"

definition array_type :: "nat \<Rightarrow> gotype" where "array_type n = TArray n (TUint 8)"

definition big_type :: gotype where "big_type = TPtr TBig"

definition nil_tag :: tags where "nil_tag = no_tags\<lparr>nilOK := True\<rparr>"

definition big_val :: "int \<Rightarrow> goval" where "big_val i = GPtr (GBig i)"

definition header_type :: gotype where
  "header_type = TStruct (map (Pair no_tags)
     [array_type 32, array_type 32, array_type 20, array_type 32, array_type 32, array_type 32, array_type bloomLength,
      big_type, big_type, big_type, big_type, big_type, bytes_type, array_type 32, array_type 8])"

definition header_val :: "Header \<Rightarrow> goval" where
  "header_val h = GList
     [GBytes (hdr_ParentHash h), GBytes (hdr_UncleHash h), GBytes (hdr_Coinbase h), GBytes (hdr_Root h), GBytes (hdr_TxHash h),
      GBytes (hdr_ReceiptHash h), GBytes (hdr_Bloom h), big_val (hdr_Difficulty h), big_val (hdr_Number h), big_val (hdr_GasLimit h),
      big_val (hdr_GasUsed h), big_val (hdr_Time h), GBytes (hdr_Extra h), GBytes (hdr_MixDigest h), GBytes (hdr_Nonce h)]"

definition txdata_type :: gotype where
  "txdata_type = TStruct
     [(no_tags, TUint 64), (no_tags, big_type), (no_tags, big_type), (nil_tag, TPtr (array_type 20)), (no_tags, big_type),
      (no_tags, bytes_type), (no_tags, big_type), (no_tags, big_type), (no_tags, big_type)]"

definition txdata_val :: "Transaction \<Rightarrow> goval" where
  "txdata_val tx = GList
     [GUint (tx_AccountNonce tx), big_val (tx_Price tx), big_val (tx_GasLimit tx),
      (case tx_Recipient tx of None \<Rightarrow> GNil | Some a \<Rightarrow> GPtr (GBytes a)), big_val (tx_Amount tx), GBytes (tx_Payload tx),
      big_val (tx_V tx), big_val (tx_R tx), big_val (tx_S tx)]"

definition written :: "rlp_error + bytes \<Rightarrow> bytes" where
  \<comment> \<open>what \<open>rlp.Encode\<close> has written when its error is dropped: an encoding is written as a whole\<close>
  "written r = (case r of Inl _ \<Rightarrow> [] | Inr b \<Rightarrow> b)"

definition rlpHash :: "gotype \<Rightarrow> goval \<Rightarrow> bytes" where
  "rlpHash t v = keccak (written (EncodeToBytes t v))"

definition Header_Hash :: "Header \<Rightarrow> bytes" where
  "Header_Hash h = rlpHash (TPtr header_type) (GPtr (header_val h))"

definition HashNoNonce :: "Header \<Rightarrow> bytes" where
  "HashNoNonce h = rlpHash (TSlice TInterface) (GList
     [GIface (array_type 32) (GBytes (hdr_ParentHash h)), GIface (array_type 32) (GBytes (hdr_UncleHash h)),
      GIface (array_type 20) (GBytes (hdr_Coinbase h)), GIface (array_type 32) (GBytes (hdr_Root h)),
      GIface (array_type 32) (GBytes (hdr_TxHash h)), GIface (array_type 32) (GBytes (hdr_ReceiptHash h)),
      GIface (array_type bloomLength) (GBytes (hdr_Bloom h)), GIface big_type (big_val (hdr_Difficulty h)),
      GIface big_type (big_val (hdr_Number h)), GIface big_type (big_val (hdr_GasLimit h)), GIface big_type (big_val (hdr_GasUsed h)),
      GIface big_type (big_val (hdr_Time h)), GIface bytes_type (GBytes (hdr_Extra h))])"

definition CalcUncleHash :: "Header list \<Rightarrow> bytes" where
  "CalcUncleHash uncles = rlpHash (TSlice (TPtr header_type)) (GList (map (\<lambda>h. GPtr (header_val h)) uncles))"

definition Transaction_Hash :: "Transaction \<Rightarrow> bytes" where
  \<comment> \<open>\<open>EncodeRLP\<close> encodes the data of the transaction\<close>
  "Transaction_Hash tx = rlpHash (TPtr txdata_type) (GPtr (txdata_val tx))"

definition Transactions_GetRlp :: "Transaction list \<Rightarrow> nat \<Rightarrow> rlp_error + bytes" where
  \<comment> \<open>an error is dropped\<close>
  "Transactions_GetRlp s i = Inr (written (EncodeToBytes (TPtr txdata_type) (GPtr (txdata_val (s ! i)))))"

definition log_type :: gotype where
  \<comment> \<open>\<open>Log.EncodeRLP\<close>: address, topics, data\<close>
  "log_type = TSlice TInterface"

definition log_val :: "Log \<Rightarrow> goval" where
  "log_val l = GList
     [GIface (array_type 20) (GBytes (log_Address l)), GIface (TSlice (array_type 32)) (GList (map GBytes (log_Topics l))),
      GIface bytes_type (GBytes (log_Data l))]"

definition Receipt_EncodeRLP :: "Receipt \<Rightarrow> rlp_error + bytes" where
  "Receipt_EncodeRLP r = EncodeToBytes (TSlice TInterface) (GList
     [GIface bytes_type (GBytes (rc_PostState r)), GIface big_type (big_val (rc_CumulativeGasUsed r)),
      GIface (array_type bloomLength) (GBytes (rc_Bloom r)), GIface (TSlice log_type) (GList (map log_val (rc_Logs r)))])"

definition NewReceipt :: "bytes \<Rightarrow> int \<Rightarrow> Receipt" where
  "NewReceipt rt cumulativeGasUsed =
     \<lparr>rc_PostState = rt, rc_CumulativeGasUsed = cumulativeGasUsed, rc_Bloom = replicate bloomLength 0, rc_Logs = [], rc_TxHash = zero_hash,
      rc_ExternalLogicAddress = replicate 20 0, rc_GasUsed = 0\<rparr>"

definition Receipts_GetRlp :: "Receipt list \<Rightarrow> nat \<Rightarrow> rlp_error + bytes" where
  \<comment> \<open>an error is a panic\<close>
  "Receipts_GetRlp r i = Receipt_EncodeRLP (r ! i)"

section \<open>The root of a list\<close>

definition index_key :: "nat \<Rightarrow> bytes" where
  "index_key i = written (EncodeToBytes (TUint 64) (GUint (of_nat i)))"

datatype derive_panic = RlpPanic rlp_error | TrieFailed trie_error

fun derive_loop :: "(nat \<Rightarrow> rlp_error + bytes) \<Rightarrow> nat \<Rightarrow> nat \<Rightarrow> trie \<Rightarrow> derive_panic + trie" where
  "derive_loop GetRlp i 0 t = Inr t"
| "derive_loop GetRlp i (Suc n) t =
     (case GetRlp i of
        Inl e \<Rightarrow> Inl (RlpPanic e)
      | Inr b \<Rightarrow>
          (case Update Map.empty (index_key i) b t of
             (Some e, _) \<Rightarrow> Inl (TrieFailed e)
           | (None, t) \<Rightarrow> derive_loop GetRlp (Suc i) n t))"

definition DeriveSha :: "nat \<Rightarrow> (nat \<Rightarrow> rlp_error + bytes) \<Rightarrow> derive_panic + bytes" where
  "DeriveSha len GetRlp =
     (case derive_loop GetRlp 0 len empty_trie of
        Inl e \<Rightarrow> Inl e
      | Inr t \<Rightarrow> (case fst (Hash keccak t) of Inl e \<Rightarrow> Inl (TrieFailed e) | Inr h \<Rightarrow> Inr h))"

lemma index_key_rlp:
  assumes "i < 2 ^ 64"
  shows "index_key i = rlps [Str (nat_bytes i)]" "length (index_key i) \<le> 9"
    "DecodeBytes (decode_fuel (TUint 64) (length (index_key i))) (index_key i) (TUint 64) = Inr (GUint (of_nat i))"
proof -
  have u: "unat (of_nat i :: uint64) = i" using assms by (simp add: unat_of_nat take_bit_nat_eq_self)
  have l: "length (rlps [Str (nat_bytes i)]) \<le> 9"
    using length_rlp_str_small [of "nat_bytes i"] length_nat_bytes_le [of i 8] assms by (simp add: rlps_def)
  have "EncodeToBytes (TUint 64) (GUint (of_nat i)) = Inr (rlps [Str (nat_bytes i)]) \<and>
    DecodeBytes (decode_fuel (TUint 64) (length (rlps [Str (nat_bytes i)]))) (rlps [Str (nat_bytes i)]) (TUint 64) = Inr (GUint (of_nat i))"
    using l u assms by (intro DecodeBytes_roundtrip) simp_all
  then show "index_key i = rlps [Str (nat_bytes i)]" "length (index_key i) \<le> 9"
    "DecodeBytes (decode_fuel (TUint 64) (length (index_key i))) (index_key i) (TUint 64) = Inr (GUint (of_nat i))"
    using l by (simp_all add: index_key_def written_def)
qed

lemma index_key_inject: "i < 2 ^ 64 \<Longrightarrow> j < 2 ^ 64 \<Longrightarrow> index_key i = index_key j \<longleftrightarrow> i = j"
proof
  assume b: "i < 2 ^ 64" "j < 2 ^ 64" "index_key i = index_key j"
  then have "(of_nat i :: uint64) = of_nat j" using index_key_rlp(3) [OF b(1)] index_key_rlp(3) [OF b(2)] by simp
  then have "unat (of_nat i :: uint64) = unat (of_nat j :: uint64)" by simp
  then show "i = j" using b(1,2) by (simp add: unat_of_nat take_bit_nat_eq_self)
qed simp

lemma derive_loop_holds:
  assumes "holds keccak Map.empty t m" "\<forall>j < n. GetRlp (i + j) = Inr (xs j)"
  shows "\<exists>t'. derive_loop GetRlp i n t = Inr t' \<and> holds keccak Map.empty t' (fold (\<lambda>j. assign (index_key (i + j)) (xs j)) [0..<n] m)"
  using assms
proof (induction n arbitrary: i xs t m)
  case (Suc n)
  obtain t1 where t1: "TryUpdate Map.empty (index_key i) (xs 0) t = (None, t1)" "holds keccak Map.empty t1 (assign (index_key i) (xs 0) m)"
    using kt.TryUpdate_holds [OF Suc.prems(1)] by blast
  have "\<forall>j < n. GetRlp (Suc i + j) = Inr (xs (Suc j))" using Suc.prems(2) by (metis Suc_less_eq add_Suc_shift)
  from Suc.IH [OF t1(2) this] have "\<exists>t'. derive_loop GetRlp (Suc i) n t1 = Inr t' \<and>
    holds keccak Map.empty t' (fold (\<lambda>j. assign (index_key (i + j)) (xs j)) [0..<Suc n] m)"
    by (simp add: upt_conv_Cons map_Suc_upt [symmetric] fold_map comp_def del: upt_Suc)
  moreover have "Update Map.empty (index_key i) (xs 0) t = (None, t1)" "GetRlp i = Inr (xs 0)"
    using t1(1) spec [OF Suc.prems(2), of 0] by (simp_all add: Update_def)
  ultimately show ?case by simp
qed simp

lemma fold_assign_distinct:
  assumes "distinct (map f is)" "\<forall>i \<in> set is. v i \<noteq> []"
  shows "fold (\<lambda>i. assign (f i) (v i)) is m = m ++ map_of (map (\<lambda>i. (f i, v i)) is)"
  using assms by (induction "is" arbitrary: m) (auto simp: assign_def map_add_upd_left dom_map_of_conv_image_fst image_image)

text \<open>
  C15. The root of a list is the root hash of the map from the encoded indices to the items: \<open>DeriveSha\<close>
  returns it without a panic, and the map has every item at its index.
\<close>

theorem DeriveSha_root:
  assumes "length xs < 2 ^ 32" "\<forall>x \<in> set xs. x \<noteq> [] \<and> length x < 2 ^ 32"
  shows "DeriveSha (length xs) (\<lambda>i. Inr (xs ! i)) = Inr (map_root (map_of (map (\<lambda>i. (index_key i, xs ! i)) [0..<length xs]))) \<and>
    (\<forall>i < length xs. map_of (map (\<lambda>i. (index_key i, xs ! i)) [0..<length xs]) (index_key i) = Some (xs ! i))"
proof -
  let ?l = "map (\<lambda>i. (index_key i, xs ! i)) [0..<length xs]"
  have d: "distinct (map index_key [0..<length xs])" using assms(1) by (auto simp: distinct_map inj_on_def index_key_inject)
  obtain t where t: "derive_loop (\<lambda>i. Inr (xs ! i)) 0 (length xs) empty_trie = Inr t"
    "holds keccak Map.empty t (fold (\<lambda>j. assign (index_key j) (xs ! j)) [0..<length xs] (\<lambda>k. None))"
    using derive_loop_holds [OF holds_empty, where i = 0 and xs = "\<lambda>j. xs ! j" and n = "length xs" and GetRlp = "\<lambda>i. Inr (xs ! i)"] by auto
  have m: "fold (\<lambda>j. assign (index_key j) (xs ! j)) [0..<length xs] (\<lambda>k. None) = map_of ?l"
    using fold_assign_distinct [OF d, of "\<lambda>i. xs ! i"] assms(2) by simp
  have "length k < 2 ^ 32 \<and> length v < 2 ^ 32" if kv: "map_of ?l k = Some v" for k v
  proof -
    obtain i where i: "i < length xs" "k = index_key i" "v = xs ! i" using map_of_SomeD [OF kv] by auto
    then have "length k \<le> 9" using index_key_rlp(2) [of i] assms(1) by simp
    then show ?thesis using i assms(2) by simp
  qed
  then have "small_map (map_of ?l)" by (simp add: small_map_def)
  then obtain t' where "Hash keccak t = (Inr (map_root (map_of ?l)), t')" using Hash_holds [OF t(2) [unfolded m]] map_sized_small by blast
  moreover have "map_of ?l (index_key i) = Some (xs ! i)" if "i < length xs" for i
    using that d by (intro map_of_is_SomeI) (auto simp: comp_def)
  ultimately show ?thesis using t(1) by (simp add: DeriveSha_def)
qed

theorem DeriveSha_root_witness:
  "DeriveSha (length [[7], [8, 9 :: byte]]) (\<lambda>i. Inr ([[7], [8, 9]] ! i)) = Inr (map_root [index_key 1 \<mapsto> [8, 9], index_key 0 \<mapsto> [7]])"
  using DeriveSha_root [of "[[7], [8, 9]]"] by (simp add: upt_rec)

end
