(* ===== verification/Exec_Refine.thy ===== *)
theory Exec_Refine
  imports Exec_Model
begin

text \<open>
  What a message does to the balances: gas is paid for and refunded, value is moved, and nothing is
  lost. The proofs follow the code on the abstract machine that the state database refines.
\<close>

section \<open>Balances of the abstract machine\<close>

definition bal :: "astate \<Rightarrow> bytes \<Rightarrow> int" where
  "bal w a = (case accts w a of None \<Rightarrow> 0 | Some v \<Rightarrow> v_balance v)"

definition asub :: "bytes \<Rightarrow> int \<Rightarrow> astate \<Rightarrow> astate" where
  "asub a n w =
     (case accts w a of
        None \<Rightarrow> w
      | Some v \<Rightarrow> if n = 0 then w
                  else (ajot (ABalance a (v_balance v)) w)\<lparr>accts := (accts w)(a \<mapsto> v\<lparr>v_balance := v_balance v - n\<rparr>)\<rparr>)"

definition aaccount :: "uint64 \<Rightarrow> bytes \<Rightarrow> astate \<Rightarrow> astate" where
  "aaccount sn a w = (if accts w a = None then acreate_account sn a w else w)"

named_theorems bals

lemma bal_change [bals]:
  "bal (aapply sn a (ChAddBalance n) w) = (bal w)(a := bal w a + n)"
  "bal (aapply sn a (ChNonce k) w) = bal w"
  "bal (aapply sn a (ChCode c) w) = bal w"
  by (auto simp: fun_eq_iff bal_def aapply_def aensure_def acreate_def ajot_def new_acct_def Let_def split: option.split)

lemma bal_create [bals]: "bal (acreate_account sn a w) = bal w"
  by (auto simp: fun_eq_iff bal_def acreate_account_def acreate_def ajot_def new_acct_def Let_def split: option.split)

lemma bal_account [bals]: "bal (aaccount sn a w) = bal w"
  by (simp add: aaccount_def bal_create)

lemma bal_asub [bals]: "accts w a \<noteq> None \<Longrightarrow> bal (asub a n w) = (bal w)(a := bal w a - n)"
  by (auto simp: fun_eq_iff bal_def asub_def ajot_def)

lemma exists_after [simp]:
  "accts (aapply sn a ch w) b \<noteq> None \<longleftrightarrow> a = b \<or> accts w b \<noteq> None"
  "accts (aaccount sn a w) b \<noteq> None \<longleftrightarrow> a = b \<or> accts w b \<noteq> None"
  "accts (acreate_account sn a w) b \<noteq> None \<longleftrightarrow> a = b \<or> accts w b \<noteq> None"
  "accts (asub a n w) b \<noteq> None \<longleftrightarrow> accts w b \<noteq> None"
  by (auto simp: aapply_def aensure_def aaccount_def acreate_account_def acreate_def asub_def ajot_def Let_def split: option.splits prod.splits if_splits)

section \<open>Operations reach their abstract counterparts\<close>

definition loaded :: "StateDB \<Rightarrow> bytes set" where
  \<comment> \<open>the addresses with a live object\<close>
  "loaded s = dom (map_of (stateObjects s))"

definition reaches :: "trie_db \<Rightarrow> (bytes \<Rightarrow> bytes option) \<Rightarrow> StateDB \<Rightarrow> state_panic + StateDB \<Rightarrow> astate \<Rightarrow> bool" where
  \<comment> \<open>the operation returns in a state that refines \<open>w'\<close> and has all the objects of \<open>s\<close>\<close>
  "reaches g m s r w' \<longleftrightarrow> (\<exists>s'. r = Inr s' \<and> refines g m s' w' \<and> loaded s \<subseteq> loaded s')"

lemma loaded_simps [simp]:
  "loaded (touch c s) = Set.insert (address c) (loaded s)" "loaded (append_journal e s) = loaded s"
  "loaded (setStateObject c s) = Set.insert (address c) (loaded s)" "loaded (MarkStateObjectDirty a s) = loaded s"
  "loaded (snd (Snapshot s)) = loaded s"
  by (simp_all add: loaded_def touch_def append_journal_def setStateObject_def MarkStateObjectDirty_def Snapshot_def update_conv')

lemma loaded_obj [simp]:
  "loaded (obj_SetBalance n c s) = Set.insert (address c) (loaded s)"
  "loaded (obj_SetNonce k c s) = Set.insert (address c) (loaded s)"
  "loaded (obj_SetCode g h b c s) = Set.insert (address c) (loaded s)"
  by (simp_all add: obj_SetBalance_def obj_setBalance_def obj_SetNonce_def obj_setNonce_def obj_SetCode_def obj_setCode_def case_prod_beta)

lemma loaded_GetStateObject: "GetStateObject g a s = Inr (obj, s') \<Longrightarrow> loaded s \<subseteq> loaded s'"
  by (auto simp: loaded_def GetStateObject_def Let_def setStateObject_def update_conv'
    split: option.split_asm sum.split_asm prod.split_asm if_split_asm)

lemma loaded_createObject: "createObject g sn a s = Inr (c, prev, s') \<Longrightarrow> loaded s \<subseteq> loaded s' \<and> address c = a \<and> a \<in> loaded s'"
  by (auto simp: createObject_def Let_def newObject_def res_bind_eq_Inr dest!: loaded_GetStateObject)

lemma loaded_GetOrNew: "GetOrNewStateObject g sn a s = Inr (c, s') \<Longrightarrow> loaded s \<subseteq> loaded s'"
  by (auto simp: GetOrNewStateObject_def res_bind_eq_Inr map_ok_eq_Inr split: option.split_asm if_split_asm
    dest!: loaded_GetStateObject loaded_createObject)

lemma loaded_setters:
  "SetNonce g sn a n s = Inr s' \<Longrightarrow> loaded s \<subseteq> loaded s'"
  "SetCode g sn a b s = Inr s' \<Longrightarrow> loaded s \<subseteq> loaded s'"
  "AddBalance g sn a k s = Inr s' \<Longrightarrow> loaded s \<subseteq> loaded s'"
  "CreateAccount g sn a s = Inr s' \<Longrightarrow> Set.insert a (loaded s) \<subseteq> loaded s'"
  by (auto simp: SetNonce_def SetCode_def AddBalance_def CreateAccount_def obj_AddBalance_def map_ok_eq_Inr
    split: option.split_asm if_split_asm dest!: loaded_GetOrNew loaded_createObject)

lemma setters_reach:
  assumes "refines g m s w"
  shows "reaches g m s (SetNonce g sn a n s) (aapply sn a (ChNonce n) w)"
    "reaches g m s (SetCode g sn a b s) (aapply sn a (ChCode b) w)"
    "reaches g m s (AddBalance g sn a k s) (aapply sn a (ChAddBalance k) w)"
    "reaches g m s (CreateAccount g sn a s) (acreate_account sn a w)"
  using SetNonce_refines [OF assms, of sn a n] SetCode_refines [OF assms, of sn a b] AddBalance_refines [OF assms, of sn a k]
    CreateAccount_refines [OF assms, of sn a]
  by (auto simp: reaches_def gives_def dest: loaded_setters)

lemma get_object:
  assumes "refines g m s w"
  shows "\<exists>obj s'. GetStateObject g a s = Inr (obj, s') \<and> refines g m s' w \<and> loaded s \<subseteq> loaded s' \<and>
    (obj = None \<longleftrightarrow> accts w a = None) \<and>
    (\<forall>c. obj = Some c \<longrightarrow> a \<in> loaded s' \<and> (\<exists>v. accts w a = Some v \<and> obj_rel g c v))"
proof -
  obtain obj s' where g1: "GetStateObject g a s = Inr (obj, s')" "refines g m s' w"
    and p: "case obj of None \<Rightarrow> accts w a = None \<and> load m a = None
      | Some c \<Rightarrow> map_of (stateObjects s') a = Some c \<and> \<not> deleted c \<and> address c = a \<and> (\<exists>v. accts w a = Some v \<and> obj_rel g c v)"
    using GetStateObject_refines [OF assms] by blast
  then show ?thesis using loaded_GetStateObject [OF g1(1)] by (auto simp: loaded_def split: option.splits)
qed

lemma getters_reach:
  assumes "refines g m s w"
  shows "\<exists>s'. GetBalance g a s = Inr (bal w a, s') \<and> refines g m s' w \<and> loaded s \<subseteq> loaded s'"
    "\<exists>s'. Exist g a s = Inr (accts w a \<noteq> None, s') \<and> refines g m s' w \<and> loaded s \<subseteq> loaded s'"
    "\<exists>s'. get_account g a s = Inr s' \<and> refines g m s' w \<and> loaded s \<subseteq> loaded s' \<and> (accts w a \<noteq> None \<longrightarrow> a \<in> loaded s')"
    "\<exists>s'. GetNonce g sn a s = Inr (case accts w a of None \<Rightarrow> sn | Some v \<Rightarrow> v_nonce v, s') \<and> refines g m s' w \<and> loaded s \<subseteq> loaded s'"
proof -
  obtain obj s' where o: "GetStateObject g a s = Inr (obj, s')" "refines g m s' w" "loaded s \<subseteq> loaded s'"
    "obj = None \<longleftrightarrow> accts w a = None" "\<forall>c. obj = Some c \<longrightarrow> a \<in> loaded s' \<and> (\<exists>v. accts w a = Some v \<and> obj_rel g c v)"
    using get_object [OF assms, of a] by (elim exE conjE) (rule that)
  show "\<exists>s'. GetBalance g a s = Inr (bal w a, s') \<and> refines g m s' w \<and> loaded s \<subseteq> loaded s'"
    using o by (cases obj) (auto simp: GetBalance_def bal_def obj_rel_data(2))
  show "\<exists>s'. Exist g a s = Inr (accts w a \<noteq> None, s') \<and> refines g m s' w \<and> loaded s \<subseteq> loaded s'"
    using o(1-3) unfolding Exist_def o(4) [symmetric] by simp
  show "\<exists>s'. get_account g a s = Inr s' \<and> refines g m s' w \<and> loaded s \<subseteq> loaded s' \<and> (accts w a \<noteq> None \<longrightarrow> a \<in> loaded s')"
    using o by (cases obj) (auto simp: get_account_def)
  show "\<exists>s'. GetNonce g sn a s = Inr (case accts w a of None \<Rightarrow> sn | Some v \<Rightarrow> v_nonce v, s') \<and> refines g m s' w \<and> loaded s \<subseteq> loaded s'"
    using o by (cases obj) (auto simp: GetNonce_def obj_rel_data(1))
qed

lemma loaded_object:
  assumes "refines g m s w" "a \<in> loaded s" "accts w a \<noteq> None"
  shows "\<exists>c v. map_of (stateObjects s) a = Some c \<and> \<not> deleted c \<and> address c = a \<and> accts w a = Some v \<and> obj_rel g c v"
proof -
  obtain c where c: "map_of (stateObjects s) a = Some c" using assms(2) by (auto simp: loaded_def)
  have "acct_rel g m s a (accts w a)" using assms(1) by (simp add: refines_def)
  then show ?thesis using assms(3) c by (auto simp: acct_rel_def split: if_split_asm)
qed

lemma object_sub:
  assumes "refines g m s w" "map_of (stateObjects s) a = Some c" "\<not> deleted c" "address c = a" "accts w a = Some v" "obj_rel g c v"
  shows "refines g m (obj_SubBalance n c s) (asub a n w)" "loaded s \<subseteq> loaded (obj_SubBalance n c s)"
proof -
  have "acc_Balance (data c) = v_balance v" using obj_rel_data(2) [OF assms(6)] .
  then show "refines g m (obj_SubBalance n c s) (asub a n w)"
    using assms journaled_touch [OF assms(1) _ obj_rel_updates(1) [OF assms(6)],
        where e = "BalanceChange a (v_balance v)" and e' = "ABalance a (v_balance v)" and a = a and b1 = "v_balance v - n"]
    by (auto simp: obj_SubBalance_def obj_SetBalance_def obj_setBalance_def asub_def)
  show "loaded s \<subseteq> loaded (obj_SubBalance n c s)" by (auto simp: obj_SubBalance_def)
qed

lemma at_account_reaches:
  assumes "refines g m s w" "a \<in> loaded s" "accts w a \<noteq> None"
  shows "reaches g m s (at_account a (obj_SubBalance n) s) (asub a n w)"
    "reaches g m s (at_account a (obj_AddBalance n) s) (aapply sn a (ChAddBalance n) w)"
proof -
  obtain c v where c: "map_of (stateObjects s) a = Some c" "\<not> deleted c" "address c = a" "accts w a = Some v" "obj_rel g c v"
    using loaded_object [OF assms] by blast
  show "reaches g m s (at_account a (obj_SubBalance n) s) (asub a n w)"
    using object_sub [OF assms(1) c] c(1) by (auto simp: reaches_def at_account_def)
  have d: "acc_Balance (data c) = v_balance v" "empty c = is_empty v" using obj_rel_data [OF c(5)] by auto
  have "refines g m (obj_AddBalance n c s) (aapply sn a (ChAddBalance n) w)"
    using assms(1) c d journaled_touch [OF assms(1) _ obj_rel_updates(1) [OF c(5)],
        where e = "BalanceChange a (v_balance v)" and e' = "ABalance a (v_balance v)" and a = a and b1 = "v_balance v + n"]
    by (auto simp: obj_AddBalance_def obj_SetBalance_def obj_setBalance_def aapply_def aensure_def Let_def)
  then show "reaches g m s (at_account a (obj_AddBalance n) s) (aapply sn a (ChAddBalance n) w)"
    using c(1) by (auto simp: reaches_def at_account_def obj_AddBalance_def)
qed

lemma account_or_new_reaches:
  assumes "refines g m s w"
  shows "\<exists>s'. account_or_new g sn a s = Inr s' \<and> refines g m s' (aaccount sn a w) \<and> Set.insert a (loaded s) \<subseteq> loaded s'"
proof -
  obtain s1 where s1: "Exist g a s = Inr (accts w a \<noteq> None, s1)" "refines g m s1 w" "loaded s \<subseteq> loaded s1"
    using getters_reach(2) [OF assms] by blast
  show ?thesis
  proof (cases "accts w a = None")
    case True
    then show ?thesis using s1 setters_reach(4) [OF s1(2), of sn a] loaded_setters(4) [of g sn a s1]
      by (auto simp: account_or_new_def aaccount_def reaches_def)
  next
    case False
    then show ?thesis using s1 getters_reach(3) [OF s1(2), of a] by (auto simp: account_or_new_def aaccount_def)
  qed
qed

definition nonce_of :: "uint64 \<Rightarrow> astate \<Rightarrow> bytes \<Rightarrow> uint64" where
  "nonce_of sn w a = (case accts w a of None \<Rightarrow> sn | Some v \<Rightarrow> v_nonce v)"

lemma nonce_change [bals]:
  "nonce_of sn (aapply sn a (ChAddBalance n) w) = nonce_of sn w"
  "nonce_of sn (aapply sn a (ChNonce k) w) = (nonce_of sn w)(a := k)"
  "nonce_of sn (aapply sn a (ChCode c) w) = nonce_of sn w"
  by (auto simp: fun_eq_iff nonce_of_def aapply_def aensure_def acreate_def ajot_def new_acct_def Let_def split: option.split)

lemma nonce_account [bals]: "nonce_of sn (aaccount sn a w) = nonce_of sn w"
  by (auto simp: fun_eq_iff nonce_of_def aaccount_def acreate_account_def acreate_def ajot_def new_acct_def Let_def split: option.split)

lemma nonce_create [bals]: "nonce_of sn (acreate_account sn a w) = (nonce_of sn w)(a := sn)"
  by (auto simp: fun_eq_iff nonce_of_def acreate_account_def acreate_def ajot_def new_acct_def Let_def split: option.split)

lemma nonce_asub [bals]: "nonce_of sn (asub a n w) = nonce_of sn w"
  by (auto simp: fun_eq_iff nonce_of_def asub_def ajot_def split: option.split)

lemma arefund_change [bals]:
  "arefund (aapply sn a ch w) = arefund w" "arefund (aaccount sn a w) = arefund w"
  "arefund (acreate_account sn a w) = arefund w" "arefund (asub a n w) = arefund w"
  by (auto simp: aapply_def aensure_def aaccount_def acreate_account_def acreate_def asub_def ajot_def Let_def split: option.splits change.splits prod.splits)

lemma bal_refund [bals]: "bal (w\<lparr>arefund := r\<rparr>) = bal w" "nonce_of sn (w\<lparr>arefund := r\<rparr>) = nonce_of sn w"
  by (simp_all add: fun_eq_iff bal_def nonce_of_def)

lemma refines_snapshot [simp]: "refines g m (snd (Snapshot s)) w \<longleftrightarrow> refines g m s w"
  by (simp add: refines_def Snapshot_def acct_rel_def GetLogs_def)

lemma refines_refund: "refines g m s w \<Longrightarrow> refines g m (s\<lparr>refund := r\<rparr>) (w\<lparr>arefund := r\<rparr>)"
  by (simp add: refines_def acct_rel_def GetLogs_def)

section \<open>Transfers, calls and creations\<close>

definition atransfer :: "uint64 \<Rightarrow> bytes \<Rightarrow> bytes \<Rightarrow> int \<Rightarrow> astate \<Rightarrow> astate" where
  "atransfer sn fr to n w = aapply sn to (ChAddBalance n) (asub fr n w)"

lemma Transfer_reaches:
  assumes "refines g m s w" "fr \<in> loaded s" "to \<in> loaded s" "accts w fr \<noteq> None" "accts w to \<noteq> None"
  shows "reaches g m s (Transfer fr to n s) (atransfer sn fr to n w)"
proof -
  obtain s1 where s1: "at_account fr (obj_SubBalance n) s = Inr s1" "refines g m s1 (asub fr n w)" "loaded s \<subseteq> loaded s1"
    using at_account_reaches(1) [OF assms(1,2,4)] by (auto simp: reaches_def)
  have "reaches g m s1 (at_account to (obj_AddBalance n) s1) (atransfer sn fr to n w)"
    unfolding atransfer_def using s1(2,3) assms(3,5) by (intro at_account_reaches(2)) (auto simp del: not_None_eq)
  then show ?thesis using s1(1,3) by (auto simp: Transfer_def reaches_def)
qed

lemma CanTransfer_reaches:
  assumes "refines g m s w"
  shows "\<exists>s'. CanTransfer g a n s = Inr (n \<le> bal w a, s') \<and> refines g m s' w \<and> loaded s \<subseteq> loaded s'"
  using getters_reach(1) [OF assms, of a] by (auto simp: CanTransfer_def)

lemma Call_refines:
  assumes "refines g m s w" "env_depth env \<le> CallCreateDepth" "accts w caller \<noteq> None" "accts w addr \<noteq> None"
  shows "\<exists>s'. Call g sn env caller addr val s = Inr (if val \<le> bal w caller then None else Some ValueTransferErr, s') \<and>
    refines g m s' (if val \<le> bal w caller then atransfer sn caller addr val w else w)"
proof -
  obtain s1 where s1: "CanTransfer g caller val s = Inr (val \<le> bal w caller, s1)" "refines g m s1 w"
    using CanTransfer_reaches [OF assms(1)] by blast
  obtain s2 where s2: "get_account g caller (snd (Snapshot s1)) = Inr s2" "refines g m s2 w" "caller \<in> loaded s2"
    using getters_reach(3) [of g m "snd (Snapshot s1)" w caller] s1(2) assms(3) by auto
  obtain s3 where s3: "Exist g addr s2 = Inr (True, s3)" "refines g m s3 w" "loaded s2 \<subseteq> loaded s3"
    using getters_reach(2) [OF s2(2), of addr] assms(4) by auto
  obtain s4 where s4: "get_account g addr s3 = Inr s4" "refines g m s4 w" "loaded s3 \<subseteq> loaded s4" "addr \<in> loaded s4"
    using getters_reach(3) [OF s3(2), of addr] assms(4) by auto
  have "reaches g m s4 (Transfer caller addr val s4) (atransfer sn caller addr val w)"
    using s2(3) s3(3) s4 assms(3,4) by (intro Transfer_reaches) auto
  then show ?thesis using s1 s2(1) s3(1) s4(1) assms(2)
    by (cases "val \<le> bal w caller") (auto simp: Call_def reaches_def Snapshot_def)
qed

definition acreation :: "uint64 \<Rightarrow> bool \<Rightarrow> bytes \<Rightarrow> int \<Rightarrow> astate \<Rightarrow> astate" where
  "acreation sn impr2 caller n w =
     (let nonce = nonce_of sn w caller;
          addr = CreateAddress caller nonce;
          w = acreate_account sn addr (aapply sn caller (ChNonce (nonce + 1)) w);
          w = (if impr2 then aapply sn addr (ChNonce 1) w else w)
      in aapply sn addr (ChCode None) (atransfer sn caller addr n w))"

lemma Create_refines:
  assumes "refines g m s w" "env_depth env \<le> CallCreateDepth" "accts w caller \<noteq> None" "0 \<le> gas"
  shows "\<exists>addr s'. Create g sn env caller gas val s = Inr ((addr, if val \<le> bal w caller then None else Some ValueTransferErr), gas, s') \<and>
    refines g m s' (if val \<le> bal w caller
      then acreation sn (IsSiotImpr2 (env_config env) (hdr_Number (env_header env))) caller val w else w)"
proof -
  let ?impr2 = "IsSiotImpr2 (env_config env) (hdr_Number (env_header env))"
  define nonce where "nonce = nonce_of sn w caller"
  define addr where "addr = CreateAddress caller nonce"
  define w1 where "w1 = aapply sn caller (ChNonce (nonce + 1)) w"
  define w2 where "w2 = acreate_account sn addr w1"
  define w3 where "w3 = (if ?impr2 then aapply sn addr (ChNonce 1) w2 else w2)"
  have ex: "accts w1 caller \<noteq> None" "accts w2 caller \<noteq> None" "accts w2 addr \<noteq> None" "accts w3 caller \<noteq> None" "accts w3 addr \<noteq> None"
    using assms(3) by (auto simp: w1_def w2_def w3_def simp del: not_None_eq)
  obtain s1 where s1: "CanTransfer g caller val s = Inr (val \<le> bal w caller, s1)" "refines g m s1 w"
    using CanTransfer_reaches [OF assms(1)] by blast
  obtain s2 where s2: "GetNonce g sn caller s1 = Inr (nonce, s2)" "refines g m s2 w"
    using getters_reach(4) [OF s1(2), of sn caller] by (auto simp: nonce_def nonce_of_def)
  obtain s3 where s3: "SetNonce g sn caller (nonce + 1) s2 = Inr s3" "refines g m s3 w1"
    using setters_reach(1) [OF s2(2), of sn caller "nonce + 1"] by (auto simp: reaches_def w1_def)
  obtain s4 where s4: "get_account g caller (snd (Snapshot s3)) = Inr s4" "refines g m s4 w1" "caller \<in> loaded s4"
    using getters_reach(3) [of g m "snd (Snapshot s3)" w1 caller] s3(2) ex(1) by auto
  obtain s5 where s5: "CreateAccount g sn addr s4 = Inr s5" "refines g m s5 w2" "loaded s4 \<subseteq> loaded s5" "addr \<in> loaded s5"
    using setters_reach(4) [OF s4(2), of sn addr] loaded_setters(4) [of g sn addr s4] by (auto simp: reaches_def w2_def)
  obtain s6 where s6: "(if ?impr2 then SetNonce g sn addr 1 s5 else Inr s5) = Inr s6" "refines g m s6 w3" "loaded s5 \<subseteq> loaded s6"
    using setters_reach(1) [OF s5(2), of sn addr 1] s5(2) by (cases ?impr2) (auto simp: reaches_def w3_def)
  obtain s7 where s7: "Transfer caller addr val s6 = Inr s7" "refines g m s7 (atransfer sn caller addr val w3)"
    using Transfer_reaches [OF s6(2) _ _ ex(4) ex(5), of val sn] s4(3) s5(3,4) s6(3) by (auto simp: reaches_def)
  obtain s8 where s8: "SetCode g sn addr None s7 = Inr s8" "refines g m s8 (aapply sn addr (ChCode None) (atransfer sn caller addr val w3))"
    using setters_reach(2) [OF s7(2), of sn addr None] by (auto simp: reaches_def)
  have "acreation sn ?impr2 caller val w = aapply sn addr (ChCode None) (atransfer sn caller addr val w3)"
    by (simp add: acreation_def Let_def w1_def w2_def w3_def addr_def nonce_def)
  then show ?thesis using s1 s2(1) s3(1) s4(1) s5(1) s6(1) s7(1) s8 assms(2,4)
    by (cases "val \<le> bal w caller") (auto simp: Create_def Let_def case_prod_beta addr_def [symmetric])
qed

lemma account_known:
  assumes "refines g m s w" "accts w a \<noteq> None"
  shows "\<exists>s'. account_or_new g sn a s = Inr s' \<and> refines g m s' w \<and> Set.insert a (loaded s) \<subseteq> loaded s'"
  using account_or_new_reaches [OF assms(1), of sn a] assms(2) by (simp add: aaccount_def)

section \<open>Buying gas\<close>

definition buy_error :: "uint64 \<Rightarrow> Message \<Rightarrow> int \<Rightarrow> astate \<Rightarrow> tx_error option" where
  "buy_error sn msg gp w =
     (if msg_CheckNonce msg \<and> nonce_of sn w (msg_From msg) \<noteq> msg_Nonce msg then Some (NonceErr (msg_Nonce msg) (nonce_of sn w (msg_From msg)))
      else if bal w (msg_From msg) < msg_Gas msg * msg_GasPrice msg then Some (InvalidTxErr InsufficientCoinbase)
      else if gp < msg_Gas msg then Some (GasLimitErr gp (msg_Gas msg))
      else None)"

lemma buyGas_refines:
  assumes "refines g m s w" "accts w (msg_From msg) \<noteq> None" "\<not> (msg_CheckNonce msg \<and> nonce_of sn w (msg_From msg) \<noteq> msg_Nonce msg)"
  shows "\<exists>st'. buyGas g sn msg ((NewStateTransition gp s0)\<lparr>st_state := s\<rparr>) = Inr (buy_error sn msg gp w, st') \<and>
    refines g m (st_state st') (if buy_error sn msg gp w = None then asub (msg_From msg) (msg_Gas msg * msg_GasPrice msg) w else w) \<and>
    (if buy_error sn msg gp w = None
     then st_gp st' = gp - msg_Gas msg \<and> st_gas st' = msg_Gas msg \<and> st_initialGas st' = msg_Gas msg else st_gp st' = gp)"
proof -
  obtain s1 where s1: "account_or_new g sn (msg_From msg) s = Inr s1" "refines g m s1 w" "msg_From msg \<in> loaded s1"
    using account_known [OF assms(1,2)] by blast
  obtain c v where c: "map_of (stateObjects s1) (msg_From msg) = Some c" "\<not> deleted c" "address c = msg_From msg"
      "accts w (msg_From msg) = Some v" "obj_rel g c v"
    using loaded_object [OF s1(2,3) assms(2)] by blast
  have b: "acc_Balance (data c) = bal w (msg_From msg)" using obj_rel_data(2) [OF c(5)] c(4) by (simp add: bal_def)
  note sub = object_sub(1) [OF s1(2) c, of "msg_Gas msg * msg_GasPrice msg"]
  consider "bal w (msg_From msg) < msg_Gas msg * msg_GasPrice msg" | "\<not> bal w (msg_From msg) < msg_Gas msg * msg_GasPrice msg" "gp < msg_Gas msg"
    | "\<not> bal w (msg_From msg) < msg_Gas msg * msg_GasPrice msg" "\<not> gp < msg_Gas msg" by blast
  then show ?thesis using s1(1,2) c(1) b sub assms(3)
    by cases (simp_all add: buyGas_def Let_def NewStateTransition_def SubGas_def buy_error_def)
qed

lemma preCheck_refines:
  assumes "refines g m s w"
  shows "\<exists>st'. preCheck g sn msg (NewStateTransition gp s) = Inr (buy_error sn msg gp w, st') \<and>
    refines g m (st_state st') (if buy_error sn msg gp w = None
      then asub (msg_From msg) (msg_Gas msg * msg_GasPrice msg) (aaccount sn (msg_From msg) w) else aaccount sn (msg_From msg) w) \<and>
    (if buy_error sn msg gp w = None
     then st_gp st' = gp - msg_Gas msg \<and> st_gas st' = msg_Gas msg \<and> st_initialGas st' = msg_Gas msg else st_gp st' = gp)"
proof -
  define w0 where "w0 = aaccount sn (msg_From msg) w"
  have e: "buy_error sn msg gp w = buy_error sn msg gp w0" by (simp add: buy_error_def w0_def bals)
  have ex: "accts w0 (msg_From msg) \<noteq> None" by (simp add: w0_def del: not_None_eq)
  obtain s1 where s1: "account_or_new g sn (msg_From msg) s = Inr s1" "refines g m s1 w0"
    using account_or_new_reaches [OF assms, of sn "msg_From msg"] by (auto simp: w0_def)
  obtain s2 where s2: "GetNonce g sn (msg_From msg) s1 = Inr (nonce_of sn w0 (msg_From msg), s2)" "refines g m s2 w0"
    using getters_reach(4) [OF s1(2), of sn "msg_From msg"] by (auto simp: nonce_of_def)
  have st: "st_state (NewStateTransition gp s) = s" by (simp add: NewStateTransition_def)
  show ?thesis
  proof (cases "msg_CheckNonce msg \<and> nonce_of sn w0 (msg_From msg) \<noteq> msg_Nonce msg")
    case True
    then show ?thesis using s1 s2 unfolding e w0_def [symmetric]
      by (simp add: preCheck_def st buy_error_def) (simp add: NewStateTransition_def)
  next
    case False
    show ?thesis using buyGas_refines [OF s1(2) ex False, of gp s] buyGas_refines [OF s2(2) ex False, of gp s] s1(1) s2(1) False
      unfolding e w0_def [symmetric] by (cases "msg_CheckNonce msg") (simp_all add: preCheck_def st)
  qed
qed

section \<open>The body of a message\<close>

definition arun :: "uint64 \<Rightarrow> VMEnv \<Rightarrow> Message \<Rightarrow> astate \<Rightarrow> astate" where
  "arun sn env msg w =
     (case msg_To msg of
        None \<Rightarrow> (if msg_Value msg \<le> bal w (msg_From msg)
                  then acreation sn (IsSiotImpr2 (env_config env) (hdr_Number (env_header env))) (msg_From msg) (msg_Value msg) w else w)
      | Some to \<Rightarrow>
          let w1 = aaccount sn to (aapply sn (msg_From msg) (ChNonce (nonce_of sn w (msg_From msg) + 1)) w)
          in if msg_Value msg \<le> bal w (msg_From msg) then atransfer sn (msg_From msg) to (msg_Value msg) w1 else w1)"

lemma run_message_refines:
  assumes "refines g m (st_state st) w" "env_depth env \<le> CallCreateDepth" "accts w (msg_From msg) \<noteq> None" "0 \<le> st_gas st"
  shows "\<exists>s'. run_message g sn env msg st =
      Inr (if msg_Value msg \<le> bal w (msg_From msg) then None else Some ValueTransferErr, st\<lparr>st_state := s'\<rparr>) \<and>
    refines g m s' (arun sn env msg w)"
proof (cases "msg_To msg")
  case None
  then show ?thesis using Create_refines [OF assms, of sn "msg_Value msg"] by (auto simp: run_message_def Let_def arun_def)
next
  case (Some to)
  define n where "n = nonce_of sn w (msg_From msg)"
  define w1 where "w1 = aapply sn (msg_From msg) (ChNonce (n + 1)) w"
  define w2 where "w2 = aaccount sn to w1"
  have ex: "accts w2 (msg_From msg) \<noteq> None" "accts w2 to \<noteq> None" by (simp_all add: w1_def w2_def del: not_None_eq)
  have b: "bal w2 = bal w" by (simp add: w1_def w2_def bals)
  obtain s1 where s1: "GetNonce g sn (msg_From msg) (st_state st) = Inr (n, s1)" "refines g m s1 w"
    using getters_reach(4) [OF assms(1), of sn "msg_From msg"] by (auto simp: nonce_of_def n_def)
  obtain s2 where s2: "SetNonce g sn (msg_From msg) (n + 1) s1 = Inr s2" "refines g m s2 w1"
    using setters_reach(1) [OF s1(2), of sn "msg_From msg" "n + 1"] by (auto simp: reaches_def w1_def)
  obtain s3 where s3: "account_or_new g sn to s2 = Inr s3" "refines g m s3 w2"
    using account_or_new_reaches [OF s2(2), of sn to] by (auto simp: w2_def)
  obtain s4 where "Call g sn env (msg_From msg) to (msg_Value msg) s3 =
      Inr (if msg_Value msg \<le> bal w (msg_From msg) then None else Some ValueTransferErr, s4)"
    "refines g m s4 (if msg_Value msg \<le> bal w (msg_From msg) then atransfer sn (msg_From msg) to (msg_Value msg) w2 else w2)"
    using Call_refines [OF s3(2) assms(2) ex, of sn "msg_Value msg"] unfolding b by blast
  then show ?thesis using s1(1) s2(1) s3(1) Some
    by (intro exI [of _ s4]) (simp add: run_message_def arun_def Let_def w1_def [symmetric] w2_def [symmetric] n_def [symmetric])
qed

definition recipient :: "uint64 \<Rightarrow> Message \<Rightarrow> astate \<Rightarrow> bytes" where
  "recipient sn msg w = (case msg_To msg of None \<Rightarrow> CreateAddress (msg_From msg) (nonce_of sn w (msg_From msg)) | Some to \<Rightarrow> to)"

definition moved :: "bytes \<Rightarrow> bytes \<Rightarrow> int \<Rightarrow> (bytes \<Rightarrow> int) \<Rightarrow> bytes \<Rightarrow> int" where
  \<comment> \<open>the balances after a payment\<close>
  "moved fr to n b = (let b1 = b(fr := b fr - n) in b1(to := b1 to + n))"

lemma bal_transfer [bals]: "accts w fr \<noteq> None \<Longrightarrow> bal (atransfer sn fr to n w) = moved fr to n (bal w)"
  by (simp add: atransfer_def bals moved_def Let_def del: not_None_eq)

lemma rest_transfer [bals]: "nonce_of sn (atransfer sn fr to n w) = nonce_of sn w" "arefund (atransfer sn fr to n w) = arefund w"
  "accts (atransfer sn fr to n w) b \<noteq> None \<longleftrightarrow> to = b \<or> accts w b \<noteq> None"
  by (simp_all add: atransfer_def bals del: not_None_eq)

lemma arun_effect:
  assumes "accts w (msg_From msg) \<noteq> None" "msg_To msg = None \<longrightarrow> recipient sn msg w \<noteq> msg_From msg"
  shows "arefund (arun sn env msg w) = arefund w" "accts (arun sn env msg w) (msg_From msg) \<noteq> None"
    "bal (arun sn env msg w) =
       (if msg_Value msg \<le> bal w (msg_From msg) then moved (msg_From msg) (recipient sn msg w) (msg_Value msg) (bal w) else bal w)"
    "msg_Value msg \<le> bal w (msg_From msg) \<Longrightarrow>
       nonce_of sn (arun sn env msg w) (msg_From msg) = nonce_of sn w (msg_From msg) + 1"
proof -
  have ne: "msg_To msg = None \<Longrightarrow> msg_From msg \<noteq> CreateAddress (msg_From msg) (nonce_of sn w (msg_From msg))"
    using assms(2) by (auto simp: recipient_def)
  note defs = arun_def acreation_def recipient_def Let_def bals
  show "arefund (arun sn env msg w) = arefund w" "accts (arun sn env msg w) (msg_From msg) \<noteq> None"
    using assms(1) by (simp_all add: defs split: option.split del: not_None_eq)
  show "bal (arun sn env msg w) =
       (if msg_Value msg \<le> bal w (msg_From msg) then moved (msg_From msg) (recipient sn msg w) (msg_Value msg) (bal w) else bal w)"
    using assms(1) by (simp add: defs split: option.split del: not_None_eq)
  show "nonce_of sn (arun sn env msg w) (msg_From msg) = nonce_of sn w (msg_From msg) + 1"
    if "msg_Value msg \<le> bal w (msg_From msg)"
    using assms(1) that ne by (cases "msg_To msg") (simp_all add: defs del: not_None_eq)
qed

section \<open>Refunding gas\<close>

lemma refundGas_refines:
  assumes "refines g m (st_state st) w" "accts w (msg_From msg) \<noteq> None" "rf = min (gasUsed st div 2) (arefund w)"
  shows "\<exists>st' w'. refundGas g sn msg st = Inr st' \<and> refines g m (st_state st') w' \<and>
    st_gas st' = st_gas st + rf \<and> st_initialGas st' = st_initialGas st \<and> st_gp st' = st_gp st + (st_gas st + rf) \<and>
    bal w' = (bal w)(msg_From msg := bal w (msg_From msg) + (st_gas st + rf) * msg_GasPrice msg) \<and>
    nonce_of sn w' = nonce_of sn w \<and>
    arefund w' = (if arefund w < gasUsed st div 2 then arefund w * msg_GasPrice msg else arefund w)"
proof -
  let ?f = "msg_From msg" and ?c = "arefund w < gasUsed st div 2"
  obtain s1 where s1: "account_or_new g sn ?f (st_state st) = Inr s1" "refines g m s1 w" "?f \<in> loaded s1"
    using account_known [OF assms(1,2)] by blast
  define w2 where "w2 = aapply sn ?f (ChAddBalance (st_gas st * msg_GasPrice msg)) w"
  obtain s2 where s2: "at_account ?f (obj_AddBalance (st_gas st * msg_GasPrice msg)) s1 = Inr s2" "refines g m s2 w2"
    using at_account_reaches(2) [OF s1(2,3) assms(2), of "st_gas st * msg_GasPrice msg" sn] by (auto simp: reaches_def w2_def)
  have r: "GetRefund s2 = arefund w"
    using s2(2) by (simp add: refines_def GetRefund_def w2_def bals)
  define w3 where "w3 = (if ?c then w2\<lparr>arefund := rf * msg_GasPrice msg\<rparr> else w2)"
  define s3 where "s3 = (if ?c then s2\<lparr>refund := rf * msg_GasPrice msg\<rparr> else s2)"
  have "refines g m s3 w3" using s2(2) refines_refund [OF s2(2)] by (simp add: s3_def w3_def)
  then obtain s4 where s4: "AddBalance g sn ?f (rf * msg_GasPrice msg) s3 = Inr s4"
    "refines g m s4 (aapply sn ?f (ChAddBalance (rf * msg_GasPrice msg)) w3)"
    using setters_reach(3) [of g m s3 w3 sn ?f "rf * msg_GasPrice msg"] by (auto simp: reaches_def)
  have rf: "(if ?c then arefund w else gasUsed st div 2) = rf" using assms(3) by simp
  have "refundGas g sn msg st =
    Inr (st\<lparr>st_gas := st_gas st + rf, st_state := s4, st_gp := AddGas (st_gas st + rf) (st_gp st)\<rparr>)"
    using s1(1) s2(1) s4(1) rf by (cases ?c) (simp_all add: refundGas_def Let_def r s3_def)
  moreover have "bal w3 = bal w2" "nonce_of sn w3 = nonce_of sn w2" by (simp_all add: w3_def bals)
  moreover have "arefund w3 = (if ?c then arefund w * msg_GasPrice msg else arefund w)"
    using rf by (cases ?c) (simp_all add: w3_def w2_def bals)
  ultimately show ?thesis using s4(2)
    by (intro exI [of _ "st\<lparr>st_gas := st_gas st + rf, st_state := s4, st_gp := AddGas (st_gas st + rf) (st_gp st)\<rparr>"]
      exI [of _ "aapply sn ?f (ChAddBalance (rf * msg_GasPrice msg)) w3"])
      (simp add: AddGas_def bal_change nonce_change arefund_change w2_def distrib_right add.assoc)
qed

end
