(* ===== verification/Exec_Effect.thy ===== *)
theory Exec_Effect
  imports Exec_Refine
begin

text \<open>
  The effect of \<open>ApplyMessage\<close> on every path, and what it conserves.
\<close>

section \<open>What a message does\<close>

definition intrinsic :: "VMEnv \<Rightarrow> Message \<Rightarrow> int" where
  "intrinsic env msg = IntrinsicGas (msg_Data msg) (msg_To msg = None) (IsHomestead (env_config env) (hdr_Number (env_header env)))"

definition message_result :: "uint64 \<Rightarrow> VMEnv \<Rightarrow> Message \<Rightarrow> int \<Rightarrow> astate \<Rightarrow> tx_error + int" where
  \<comment> \<open>the error, or the gas used\<close>
  "message_result sn env msg gp w =
     (let igas = intrinsic env msg
      in case buy_error sn msg gp w of
           Some e \<Rightarrow> Inl e
         | None \<Rightarrow>
             if msg_Gas msg < igas then Inl (InvalidTxErr OutOfGasError)
             else if bal w (msg_From msg) - msg_Gas msg * msg_GasPrice msg < msg_Value msg then Inl (InvalidTxErr ValueTransferErr)
             else Inr (igas - min (igas div 2) (arefund w)))"

definition message_effect :: "uint64 \<Rightarrow> VMEnv \<Rightarrow> Message \<Rightarrow> int \<Rightarrow> astate \<Rightarrow> tx_error + int \<Rightarrow> int \<Rightarrow> astate \<Rightarrow> bool" where
  \<comment> \<open>gas pool and accounts after the result \<open>r\<close>\<close>
  "message_effect sn env msg gp w r gp' w' =
     (case r of
        Inr used \<Rightarrow>
          gp' = gp - used \<and>
          bal w' = moved (msg_From msg) (hdr_Coinbase (env_header env)) (used * msg_GasPrice msg)
                     (moved (msg_From msg) (recipient sn msg w) (msg_Value msg) (bal w)) \<and>
          nonce_of sn w' (msg_From msg) = nonce_of sn w (msg_From msg) + 1
      | Inl e \<Rightarrow>
          if buy_error sn msg gp w = Some e then gp' = gp \<and> bal w' = bal w
          else gp' = gp - msg_Gas msg \<and> bal w' = (bal w)(msg_From msg := bal w (msg_From msg) - msg_Gas msg * msg_GasPrice msg))"

lemma buy_error_kinds: "buy_error sn msg gp w \<noteq> Some (InvalidTxErr OutOfGasError)" "buy_error sn msg gp w \<noteq> Some (InvalidTxErr ValueTransferErr)"
  by (simp_all add: buy_error_def)

lemma moved_twice:
  "(let b1 = moved fr to n (b(fr := b fr - x)); b2 = b1(fr := b1 fr + y) in b2(c := b2 c + (x - y))) =
   moved fr c (x - y) (moved fr to n b)"
  by (auto simp: fun_eq_iff moved_def Let_def)

lemma paid_effect:
  assumes "refines g m (st_state st) w1" "accts w1 (msg_From msg) \<noteq> None" "env_depth env \<le> CallCreateDepth" "0 \<le> st_gas st"
    "msg_To msg = None \<longrightarrow> recipient sn msg w1 \<noteq> msg_From msg" "msg_Value msg \<le> bal w1 (msg_From msg)"
    "rf = min (gasUsed st div 2) (arefund w1)" "used = gasUsed st - rf"
  shows "\<exists>st1 st2 s' w'. run_message g sn env msg st = Inr (None, st1) \<and> gasUsed st1 = gasUsed st \<and>
    refundGas g sn msg st1 = Inr st2 \<and> gasUsed st2 = used \<and>
    AddBalance g sn (hdr_Coinbase (env_header env)) (used * msg_GasPrice msg) (st_state st2) = Inr s' \<and> refines g m s' w' \<and>
    st_gp st2 = st_gp st + (st_gas st + rf) \<and>
    bal w' = (let b1 = moved (msg_From msg) (recipient sn msg w1) (msg_Value msg) (bal w1);
                  b2 = b1(msg_From msg := b1 (msg_From msg) + (st_gas st + rf) * msg_GasPrice msg)
              in b2(hdr_Coinbase (env_header env) := b2 (hdr_Coinbase (env_header env)) + used * msg_GasPrice msg)) \<and>
    nonce_of sn w' (msg_From msg) = nonce_of sn w1 (msg_From msg) + 1"
proof -
  note a = arun_effect [OF assms(2,5), of env]
  obtain s1 where s1: "run_message g sn env msg st = Inr (None, st\<lparr>st_state := s1\<rparr>)" "refines g m s1 (arun sn env msg w1)"
    using run_message_refines [OF assms(1,3,2,4), of sn] assms(6) by auto
  have rf: "rf = min (gasUsed (st\<lparr>st_state := s1\<rparr>) div 2) (arefund (arun sn env msg w1))"
    using assms(7) a(1) by (simp add: gasUsed_def)
  have r1: "refines g m (st_state (st\<lparr>st_state := s1\<rparr>)) (arun sn env msg w1)" using s1(2) by simp
  obtain st2 w2 where st2: "refundGas g sn msg (st\<lparr>st_state := s1\<rparr>) = Inr st2" "refines g m (st_state st2) w2"
    "st_gas st2 = st_gas st + rf" "st_initialGas st2 = st_initialGas st" "st_gp st2 = st_gp st + (st_gas st + rf)"
    "bal w2 = (bal (arun sn env msg w1))(msg_From msg := bal (arun sn env msg w1) (msg_From msg) + (st_gas st + rf) * msg_GasPrice msg)"
    "nonce_of sn w2 = nonce_of sn (arun sn env msg w1)"
    using refundGas_refines [OF r1 a(2) rf, of sn] by auto
  obtain s3 where s3: "AddBalance g sn (hdr_Coinbase (env_header env)) (used * msg_GasPrice msg) (st_state st2) = Inr s3"
    "refines g m s3 (aapply sn (hdr_Coinbase (env_header env)) (ChAddBalance (used * msg_GasPrice msg)) w2)"
    using setters_reach(3) [OF st2(2), of sn "hdr_Coinbase (env_header env)" "used * msg_GasPrice msg"] by (auto simp: reaches_def)
  have "gasUsed (st\<lparr>st_state := s1\<rparr>) = gasUsed st" "gasUsed st2 = used"
    using st2(3,4) assms(8) by (simp_all add: gasUsed_def)
  then show ?thesis using s1(1) st2(1,5) s3
    by (intro exI [of _ "st\<lparr>st_state := s1\<rparr>"] exI [of _ st2] exI [of _ s3]
      exI [of _ "aapply sn (hdr_Coinbase (env_header env)) (ChAddBalance (used * msg_GasPrice msg)) w2"])
      (simp add: bal_change nonce_change st2(6,7) a(3,4) assms(6) Let_def)
qed

lemma paid_steps:
  assumes "preCheck g sn msg (NewStateTransition gp s) = Inr (None, st)" "account_or_new g sn (msg_From msg) (st_state st) = Inr s1"
    "st_gas st = msg_Gas msg"
  shows "msg_Gas msg < intrinsic env msg \<Longrightarrow> ApplyMessage g sn env msg gp s = Inr (Inl (InvalidTxErr OutOfGasError), st_gp st, s1)"
    "\<not> msg_Gas msg < intrinsic env msg \<Longrightarrow>
      run_message g sn env msg (st\<lparr>st_state := s1, st_gas := msg_Gas msg - intrinsic env msg\<rparr>) = Inr (Some ValueTransferErr, st1) \<Longrightarrow>
      ApplyMessage g sn env msg gp s = Inr (Inl (InvalidTxErr ValueTransferErr), st_gp st1, st_state st1)"
    "\<not> msg_Gas msg < intrinsic env msg \<Longrightarrow>
      run_message g sn env msg (st\<lparr>st_state := s1, st_gas := msg_Gas msg - intrinsic env msg\<rparr>) = Inr (None, st1) \<Longrightarrow>
      refundGas g sn msg st1 = Inr st2 \<Longrightarrow>
      AddBalance g sn (hdr_Coinbase (env_header env)) (gasUsed st2 * msg_GasPrice msg) (st_state st2) = Inr s' \<Longrightarrow>
      ApplyMessage g sn env msg gp s = Inr (Inr (gasUsed st2), st_gp st2, s')"
  using assms by (simp_all add: ApplyMessage_def TransitionDb_def useGas_def MessageCreatesExternalLogic_def intrinsic_def Let_def)

lemma result_cases:
  assumes "buy_error sn msg gp w = None"
  shows "msg_Gas msg < intrinsic env msg \<Longrightarrow> message_result sn env msg gp w = Inl (InvalidTxErr OutOfGasError)"
    "\<not> msg_Gas msg < intrinsic env msg \<Longrightarrow> bal w (msg_From msg) - msg_Gas msg * msg_GasPrice msg < msg_Value msg \<Longrightarrow>
      message_result sn env msg gp w = Inl (InvalidTxErr ValueTransferErr)"
    "\<not> msg_Gas msg < intrinsic env msg \<Longrightarrow> \<not> bal w (msg_From msg) - msg_Gas msg * msg_GasPrice msg < msg_Value msg \<Longrightarrow>
      message_result sn env msg gp w = Inr (intrinsic env msg - min (intrinsic env msg div 2) (arefund w))"
    "message_effect sn env msg gp w (Inl e) gp' w' \<longleftrightarrow>
      gp' = gp - msg_Gas msg \<and> bal w' = (bal w)(msg_From msg := bal w (msg_From msg) - msg_Gas msg * msg_GasPrice msg)"
  using assms by (simp_all add: message_result_def message_effect_def Let_def)

lemma message_charged:
  \<comment> \<open>gas has been bought, and the intrinsic gas is covered\<close>
  assumes w1: "bal w1 = (bal w)(msg_From msg := bal w (msg_From msg) - msg_Gas msg * msg_GasPrice msg)" "nonce_of sn w1 = nonce_of sn w"
      "arefund w1 = arefund w" "recipient sn msg w1 = recipient sn msg w" "accts w1 (msg_From msg) \<noteq> None"
    and st: "preCheck g sn msg (NewStateTransition gp s) = Inr (None, st)" "account_or_new g sn (msg_From msg) (st_state st) = Inr s1"
      "refines g m s1 w1" "st_gas st = msg_Gas msg" "st_initialGas st = msg_Gas msg" "st_gp st = gp - msg_Gas msg"
    and c: "buy_error sn msg gp w = None" "\<not> msg_Gas msg < intrinsic env msg" "env_depth env \<le> CallCreateDepth"
      "msg_To msg = None \<longrightarrow> recipient sn msg w \<noteq> msg_From msg"
  shows "\<exists>gp' s' w'. ApplyMessage g sn env msg gp s = Inr (message_result sn env msg gp w, gp', s') \<and> refines g m s' w' \<and>
    message_effect sn env msg gp w (message_result sn env msg gp w) gp' w'"
proof -
  let ?f = "msg_From msg" and ?ig = "intrinsic env msg"
  define st0 where "st0 = st\<lparr>st_state := s1, st_gas := msg_Gas msg - ?ig\<rparr>"
  have st0: "refines g m (st_state st0) w1" "0 \<le> st_gas st0" "gasUsed st0 = ?ig" "st_gas st0 = msg_Gas msg - ?ig" "st_gp st0 = gp - msg_Gas msg"
    using st c(2) by (simp_all add: st0_def gasUsed_def)
  have r: "msg_To msg = None \<longrightarrow> recipient sn msg w1 \<noteq> ?f" using c(4) w1(4) by simp
  show ?thesis
  proof (cases "msg_Value msg \<le> bal w1 ?f")
    case False
    obtain s2 where s2: "run_message g sn env msg st0 = Inr (Some ValueTransferErr, st0\<lparr>st_state := s2\<rparr>)" "refines g m s2 (arun sn env msg w1)"
      using run_message_refines [OF st0(1) c(3) w1(5) st0(2), of sn] False by auto
    have b: "bal (arun sn env msg w1) = bal w1" using arun_effect(3) [OF w1(5) r] False by simp
    have v: "message_result sn env msg gp w = Inl (InvalidTxErr ValueTransferErr)"
      using result_cases(2) [OF c(1,2)] False w1(1) by simp
    show ?thesis unfolding v result_cases(4) [OF c(1)]
      using paid_steps(2) [OF st(1,2,4) c(2) s2(1) [unfolded st0_def]] s2(2) b w1(1) st(6) by (auto intro!: exI [of _ "arun sn env msg w1"])
  next
    case True
    define rf where "rf = min (?ig div 2) (arefund w)"
    have v: "message_result sn env msg gp w = Inr (?ig - rf)"
      using result_cases(3) [OF c(1,2)] True w1(1) by (simp add: rf_def)
    obtain st1 st2 s' w' where p: "run_message g sn env msg st0 = Inr (None, st1)"
      "refundGas g sn msg st1 = Inr st2" "gasUsed st2 = ?ig - rf"
      "AddBalance g sn (hdr_Coinbase (env_header env)) ((?ig - rf) * msg_GasPrice msg) (st_state st2) = Inr s'" "refines g m s' w'"
      "st_gp st2 = st_gp st0 + (st_gas st0 + rf)"
      "bal w' = (let b1 = moved ?f (recipient sn msg w1) (msg_Value msg) (bal w1);
                b2 = b1(?f := b1 ?f + (st_gas st0 + rf) * msg_GasPrice msg)
            in b2(hdr_Coinbase (env_header env) := b2 (hdr_Coinbase (env_header env)) + (?ig - rf) * msg_GasPrice msg))"
      "nonce_of sn w' ?f = nonce_of sn w1 ?f + 1"
      using paid_effect [OF st0(1) w1(5) c(3) st0(2) r True, of rf "?ig - rf"] unfolding st0(3) w1(3) rf_def by blast
    have x: "msg_Gas msg * msg_GasPrice msg - (msg_Gas msg - ?ig + rf) * msg_GasPrice msg = (?ig - rf) * msg_GasPrice msg" by (simp add: algebra_simps)
    have "bal w' = moved ?f (hdr_Coinbase (env_header env)) ((?ig - rf) * msg_GasPrice msg) (moved ?f (recipient sn msg w) (msg_Value msg) (bal w))"
      using moved_twice [of ?f "recipient sn msg w" "msg_Value msg" "bal w" "msg_Gas msg * msg_GasPrice msg"
          "(msg_Gas msg - ?ig + rf) * msg_GasPrice msg" "hdr_Coinbase (env_header env)"]
      unfolding p(7) w1(1,4) st0(4) x .
    moreover have "st_gp st2 = gp - (?ig - rf)" using p(6) st0(4,5) by simp
    moreover have "ApplyMessage g sn env msg gp s = Inr (Inr (?ig - rf), st_gp st2, s')"
      using paid_steps(3) [OF st(1,2,4) c(2) p(1) [unfolded st0_def] p(2), of s'] p(3,4) by simp
    ultimately show ?thesis unfolding v message_effect_def using p(5,8) w1(2) by auto
  qed
qed

lemma message_refines:
  assumes "refines g m s w" "env_depth env \<le> CallCreateDepth" "msg_To msg = None \<longrightarrow> recipient sn msg w \<noteq> msg_From msg"
  shows "\<exists>gp' s' w'. ApplyMessage g sn env msg gp s = Inr (message_result sn env msg gp w, gp', s') \<and> refines g m s' w' \<and>
    message_effect sn env msg gp w (message_result sn env msg gp w) gp' w'"
proof -
  let ?f = "msg_From msg" and ?cost = "msg_Gas msg * msg_GasPrice msg"
  let ?ig = "intrinsic env msg"
  define w0 where "w0 = aaccount sn ?f w"
  have ex: "accts w0 ?f \<noteq> None" by (simp add: w0_def del: not_None_eq)
  define w1 where "w1 = asub ?f ?cost w0"
  have ex1: "accts w1 ?f \<noteq> None" using ex by (simp add: w1_def del: not_None_eq)
  have w1: "bal w1 = (bal w)(?f := bal w ?f - ?cost)" "nonce_of sn w1 = nonce_of sn w" "arefund w1 = arefund w" "recipient sn msg w1 = recipient sn msg w"
    using ex by (simp_all add: w1_def w0_def recipient_def bals del: not_None_eq cong: option.case_cong)
  obtain st where st: "preCheck g sn msg (NewStateTransition gp s) = Inr (buy_error sn msg gp w, st)"
    "refines g m (st_state st) (if buy_error sn msg gp w = None then w1 else w0)"
    "if buy_error sn msg gp w = None then st_gp st = gp - msg_Gas msg \<and> st_gas st = msg_Gas msg \<and> st_initialGas st = msg_Gas msg else st_gp st = gp"
    using preCheck_refines [OF assms(1), of sn msg gp] unfolding w0_def w1_def by blast
  show ?thesis
  proof (cases "buy_error sn msg gp w")
    case (Some e)
    then show ?thesis using st
      by (auto simp: ApplyMessage_def TransitionDb_def message_result_def message_effect_def w0_def bals intro!: exI [of _ w0])
  next
    case None
    obtain s1 where s1: "account_or_new g sn ?f (st_state st) = Inr s1" "refines g m s1 w1"
      using account_known [OF _ ex1, of g m "st_state st" sn] st(2) None by auto
    then have st': "preCheck g sn msg (NewStateTransition gp s) = Inr (None, st)"
      "st_gas st = msg_Gas msg" "st_initialGas st = msg_Gas msg" "st_gp st = gp - msg_Gas msg" using st(1,3) None by simp_all
    show ?thesis
    proof (cases "msg_Gas msg < ?ig")
      case True
      show ?thesis unfolding result_cases(1) [OF None True] result_cases(4) [OF None]
        using paid_steps(1) [OF st'(1) s1(1) st'(2) True] s1(2) w1(1) st'(4) by auto
    next
      case False
      show ?thesis by (rule message_charged [OF w1 ex1 st'(1) s1 st'(2-4) None False assms(2,3)])
    qed
  qed
qed

text \<open>
  C6. What a message does, on every path. On a state that stands for the accounts \<open>w\<close>, \<open>ApplyMessage\<close>
  never panics. It fails for a wrong nonce, a sender that cannot pay the gas and an exhausted gas pool,
  with nothing paid; and for gas below the intrinsic gas and a value the sender cannot pay, with the
  gas paid and taken from the pool. Otherwise the gas used is the intrinsic gas less a refund of at most
  half of it; the sender pays the value to the recipient and the gas used to the coinbase, at the gas
  price; the pool loses the gas used; and the nonce of the sender grows by one.
\<close>

theorem ApplyMessage_effect:
  assumes "refines g m s w" "env_depth env \<le> CallCreateDepth" "msg_To msg = None \<longrightarrow> recipient sn msg w \<noteq> msg_From msg"
  shows "\<exists>gp' s' w'. ApplyMessage g sn env msg gp s = Inr (message_result sn env msg gp w, gp', s') \<and> refines g m s' w' \<and>
    message_effect sn env msg gp w (message_result sn env msg gp w) gp' w'"
  using message_refines [OF assms] .

definition no_accounts :: astate where
  "no_accounts = \<lparr>accts = \<lambda>a. None, arefund = 0, alogs = \<lambda>h. [], ajournal = []\<rparr>"

lemma bal_no_accounts: "bal no_accounts = (\<lambda>a. 0)"
  by (simp add: fun_eq_iff bal_def no_accounts_def)

lemma refines_empty: "\<exists>s. complete_state Map.empty zero_hash s \<and> refines Map.empty (\<lambda>k. None) s no_accounts"
proof -
  obtain t where "NewSecure 0 zero_hash (Some Map.empty) MaxTrieCacheGen = Inr t" "sec_holds Map.empty t (\<lambda>k. None)"
    using NewSecure_zero [of 0 Map.empty MaxTrieCacheGen] by (auto simp: zero_hash_def)
  then show ?thesis
    by (auto simp: complete_state_def state_New_def fresh_state_def trie_ok_def load_def refines_def acct_rel_def no_accounts_def GetLogs_def)
qed

definition payment :: Message where
  "payment = \<lparr>msg_From = [1], msg_To = Some [2], msg_GasPrice = 2, msg_Gas = 30000, msg_Value = 7, msg_Nonce = 0,
     msg_CheckNonce = True, msg_Data = []\<rparr>"

lemma funded: "\<exists>s0 s. complete_state Map.empty zero_hash s0 \<and> AddBalance Map.empty 0 [1] 100000 s0 = Inr s \<and>
    refines Map.empty (\<lambda>k. None) s (aapply 0 [1] (ChAddBalance 100000) no_accounts)"
proof -
  obtain s0 where s0: "complete_state Map.empty zero_hash s0" "refines Map.empty (\<lambda>k. None) s0 no_accounts" using refines_empty by blast
  then show ?thesis using setters_reach(3) [OF s0(2), of 0 "[1]" 100000] by (auto simp: reaches_def)
qed

lemma payment_result:
  "message_result 0 env payment 50000 (aapply 0 [1] (ChAddBalance 100000) no_accounts) = Inr 21000"
  by (simp add: message_result_def buy_error_def payment_def bals intrinsic_def IntrinsicGas_def TxGas_def Let_def)
    (simp add: bal_def nonce_of_def no_accounts_def)

definition block_env :: VMEnv where
  "block_env = \<lparr>env_config = \<lparr>ChainId = 0, HomesteadBlock = Some 0, DAOForkBlock = None, DAOForkSupport = False, SiotImpr0Block = None,
       SiotImpr0Hash = zero_hash, SiotImpr1Block = None, SiotImpr2Block = None\<rparr>,
     env_depth = 0,
     env_header = \<lparr>hdr_ParentHash = zero_hash, hdr_UncleHash = zero_hash, hdr_Coinbase = [3], hdr_Root = zero_hash, hdr_TxHash = zero_hash,
       hdr_ReceiptHash = zero_hash, hdr_Bloom = [], hdr_Difficulty = 131072, hdr_Number = 1, hdr_GasLimit = 50000, hdr_GasUsed = 0, hdr_Time = 10,
       hdr_Extra = [], hdr_MixDigest = zero_hash, hdr_Nonce = []\<rparr>\<rparr>"

lemma payment_ok: "env_depth block_env \<le> CallCreateDepth"
  "msg_To payment = None \<longrightarrow> recipient 0 payment (aapply 0 [1] (ChAddBalance 100000) no_accounts) \<noteq> msg_From payment"
  by (simp_all add: block_env_def CallCreateDepth_def payment_def)

theorem ApplyMessage_effect_witness:
  "\<exists>s0 s s' w'. complete_state Map.empty zero_hash s0 \<and> AddBalance Map.empty 0 [1] 100000 s0 = Inr s \<and>
     ApplyMessage Map.empty 0 block_env payment 50000 s = Inr (Inr 21000, 29000, s') \<and> refines Map.empty (\<lambda>k. None) s' w' \<and>
     bal w' [1] = 57993 \<and> bal w' [2] = 7 \<and> bal w' [3] = 42000"
proof -
  obtain s0 s where s: "complete_state Map.empty zero_hash s0" "AddBalance Map.empty 0 [1] 100000 s0 = Inr s"
    "refines Map.empty (\<lambda>k. None) s (aapply 0 [1] (ChAddBalance 100000) no_accounts)" using funded by blast
  obtain s' w' where "ApplyMessage Map.empty 0 block_env payment 50000 s = Inr (Inr 21000, 29000, s')" "refines Map.empty (\<lambda>k. None) s' w'"
    "bal w' = moved [1] [3] 42000 (moved [1] [2] 7 (bal (aapply 0 [1] (ChAddBalance 100000) no_accounts)))"
    using ApplyMessage_effect [OF s(3) payment_ok, of 50000] unfolding payment_result
    by (auto simp: message_effect_def recipient_def payment_def block_env_def)
  then show ?thesis using s(1,2)
    by (intro exI [of _ s0] exI [of _ s] exI [of _ s'] exI [of _ w']) (simp add: moved_def bals bal_no_accounts)
qed

lemma sum_moved:
  assumes "finite A" "fr \<in> A" "to \<in> A"
  shows "sum (moved fr to n b) A = sum b A"
proof -
  have upd: "sum (c(x := y)) A = sum c A - c x + y" if "x \<in> A" for c :: "bytes \<Rightarrow> int" and x y
    using sum.remove [OF assms(1) that, of c] sum.remove [OF assms(1) that, of "c(x := y)"] by simp
  show ?thesis unfolding moved_def Let_def upd [OF assms(3)] upd [OF assms(2)] by simp
qed

lemma intrinsic_least: "21000 \<le> intrinsic env msg"
  by (simp add: intrinsic_def IntrinsicGas_def Let_def TxGas_def TxGasExternalLogicCreation_def TxDataNonZeroGas_def TxDataZeroGas_def)

text \<open>
  C7. Nothing is created or lost by a message that is applied: over any finite set of addresses with the
  sender, the recipient and the coinbase the sum of the balances stays the same, and the pool loses
  exactly the gas used. That gas is at least half of the intrinsic gas, which is at least 21000 and at
  most the gas of the message; without a negative refund counter it is at most the intrinsic gas.
\<close>

theorem ApplyMessage_conserves:
  assumes "refines g m s w" "env_depth env \<le> CallCreateDepth" "msg_To msg = None \<longrightarrow> recipient sn msg w \<noteq> msg_From msg"
    and "ApplyMessage g sn env msg gp s = Inr (Inr used, gp', s')"
    and "finite A" "{msg_From msg, recipient sn msg w, hdr_Coinbase (env_header env)} \<subseteq> A"
  shows "\<exists>w'. refines g m s' w' \<and> sum (bal w') A = sum (bal w) A \<and> gp' + used = gp \<and> intrinsic env msg \<le> 2 * used \<and>
    21000 \<le> intrinsic env msg \<and> intrinsic env msg \<le> msg_Gas msg \<and> (0 \<le> arefund w \<longrightarrow> used \<le> intrinsic env msg)"
proof -
  obtain w' where w': "message_result sn env msg gp w = Inr used" "refines g m s' w'" "message_effect sn env msg gp w (Inr used) gp' w'"
    using message_refines [OF assms(1-3), of gp] assms(4) by auto
  have "sum (bal w') A = sum (bal w) A" using w'(3) assms(5,6) by (simp add: message_effect_def sum_moved)
  moreover have "intrinsic env msg \<le> msg_Gas msg" "used = intrinsic env msg - min (intrinsic env msg div 2) (arefund w)"
    using w'(1) by (auto simp: message_result_def Let_def split: option.split_asm if_split_asm)
  ultimately show ?thesis using w'(2,3) intrinsic_least [of env msg] by (auto simp: message_effect_def)
qed

theorem ApplyMessage_conserves_witness:
  "\<exists>s0 s s' w'. complete_state Map.empty zero_hash s0 \<and> AddBalance Map.empty 0 [1] 100000 s0 = Inr s \<and>
     ApplyMessage Map.empty 0 block_env payment 50000 s = Inr (Inr 21000, 29000, s') \<and> refines Map.empty (\<lambda>k. None) s' w' \<and>
     bal w' [1] + bal w' [2] + bal w' [3] = 100000"
proof -
  let ?w = "aapply 0 [1] (ChAddBalance 100000) no_accounts"
  obtain s0 s where s: "complete_state Map.empty zero_hash s0" "AddBalance Map.empty 0 [1] 100000 s0 = Inr s"
    "refines Map.empty (\<lambda>k. None) s ?w" using funded by blast
  obtain s' where a: "ApplyMessage Map.empty 0 block_env payment 50000 s = Inr (Inr 21000, 29000, s')"
    using message_refines [OF s(3) payment_ok, of 50000] unfolding payment_result by (auto simp: message_effect_def)
  have "{msg_From payment, recipient 0 payment ?w, hdr_Coinbase (env_header block_env)} \<subseteq> {[1], [2], [3]}"
    by (simp add: payment_def recipient_def block_env_def)
  from ApplyMessage_conserves [OF s(3) payment_ok a _ this] obtain w' where
    "refines Map.empty (\<lambda>k. None) s' w'" "sum (bal w') {[1], [2], [3]} = sum (bal ?w) {[1], [2], [3]}" by auto
  then show ?thesis using s(1,2) a by (auto simp: bals bal_no_accounts add.assoc)
qed

end
