(* ===== verification/Block_Validate.thy ===== *)
theory Block_Validate
  imports Types_Block Exec_Effect
begin

text \<open>
  Block validation (\<open>block_validator.go\<close>, \<open>dao.go\<close>): the rules for headers, uncles and processed blocks,
  the difficulty and the gas limit of the next block. The clock and the proof of work are parameters.
\<close>

section \<open>Parameters\<close>

definition MaximumExtraDataSize :: int where "MaximumExtraDataSize = 32"
definition DifficultyBoundDivisor :: int where "DifficultyBoundDivisor = 2048"
definition DurationLimit :: int where "DurationLimit = 13"
definition MinGasLimit :: int where "MinGasLimit = 5000"
definition GenesisGasLimit :: int where "GenesisGasLimit = 4712388"
definition GasLimitBoundDivisor :: int where "GasLimitBoundDivisor = 1024"
definition MinimumDifficulty :: int where "MinimumDifficulty = 131072"
definition ExpDiffPeriod :: int where "ExpDiffPeriod = 100000"
definition MaxBig :: int where "MaxBig = 2 ^ 256 - 1"
definition DAOForkExtraRange :: int where "DAOForkExtraRange = 10"

definition DAOForkBlockExtra :: bytes where
  "DAOForkBlockExtra = [0x64, 0x61, 0x6f, 0x2d, 0x68, 0x61, 0x72, 0x64, 0x2d, 0x66, 0x6f, 0x72, 0x6b]"

datatype block_error =
    ExtraTooLong
  | BlockTSTooBigErr
  | BlockFutureErr
  | BlockEqualTSErr
  | DifficultyErr int int
  | BadGasLimit int
  | BlockNumberErr
  | BlockNonceErr
  | DAOExtraErr
  | ForkHashErr
  | ParentErr bytes
  | KnownBlockErr int bytes
  | TooManyUncles
  | UncleNotUnique nat
  | UncleIsAncestor nat
  | UncleParentErr nat
  | UncleHeaderErr nat block_error
  | UncleHashErr
  | TxHashErr
  | GasUsedErr
  | BloomErr
  | ReceiptHashErr

section \<open>Difficulty and gas limit\<close>

definition CalcDifficulty :: "ChainConfig \<Rightarrow> uint64 \<Rightarrow> uint64 \<Rightarrow> int \<Rightarrow> int \<Rightarrow> int" where
  "CalcDifficulty config time parentTime parentNumber parentDiff = 0x2000"

definition calcDifficultyHomestead :: "uint64 \<Rightarrow> uint64 \<Rightarrow> int \<Rightarrow> int \<Rightarrow> int" where
  "calcDifficultyHomestead time parentTime parentNumber parentDiff =
     (let x = max (1 - (uint time - uint parentTime) div 10) (- 99);
          y = parentDiff div DifficultyBoundDivisor;
          x = max (parentDiff + y * x) MinimumDifficulty;
          periodCount = (parentNumber + 1) div ExpDiffPeriod
      in if periodCount > 1 then x + 2 ^ nat (periodCount - 2) else x)"

definition calcDifficultyFrontier :: "uint64 \<Rightarrow> uint64 \<Rightarrow> int \<Rightarrow> int \<Rightarrow> int" where
  "calcDifficultyFrontier time parentTime parentNumber parentDiff =
     (let adjust = parentDiff div DifficultyBoundDivisor;
          diff = (if uint time - uint parentTime < DurationLimit then parentDiff + adjust else parentDiff - adjust);
          diff = max diff MinimumDifficulty;
          periodCount = (parentNumber + 1) div ExpDiffPeriod
      in if periodCount > 1 then max (diff + 2 ^ nat (periodCount - 2)) MinimumDifficulty else diff)"

definition CalcGasLimit :: "int \<Rightarrow> Header \<Rightarrow> int" where
  \<comment> \<open>the first argument is the variable \<open>TargetGasLimit\<close>, which a command line flag sets\<close>
  "CalcGasLimit target parent =
     (let contrib = hdr_GasUsed parent * 3 div 2 div GasLimitBoundDivisor;
          decay = hdr_GasLimit parent div GasLimitBoundDivisor - 1;
          gl = max (hdr_GasLimit parent - decay + contrib) MinGasLimit
      in if gl < target then min (hdr_GasLimit parent + decay) target else gl)"

section \<open>Headers\<close>

definition ValidateDAOHeaderExtraData :: "ChainConfig \<Rightarrow> Header \<Rightarrow> block_error option" where
  "ValidateDAOHeaderExtraData config header =
     (case DAOForkBlock config of
        None \<Rightarrow> None
      | Some fork \<Rightarrow>
          if hdr_Number header < fork \<or> fork + DAOForkExtraRange \<le> hdr_Number header then None
          else if DAOForkSupport config then (if hdr_Extra header \<noteq> DAOForkBlockExtra then Some DAOExtraErr else None)
          else if hdr_Extra header = DAOForkBlockExtra then Some DAOExtraErr else None)"

definition bad_gas_limit :: "Header \<Rightarrow> Header \<Rightarrow> bool" where
  "bad_gas_limit header parent \<longleftrightarrow>
     \<not> \<bar>hdr_GasLimit parent - hdr_GasLimit header\<bar> < hdr_GasLimit parent div GasLimitBoundDivisor \<or> hdr_GasLimit header < MinGasLimit"

definition ValidateHeader :: "ChainConfig \<Rightarrow> (Header \<Rightarrow> bool) \<Rightarrow> int \<Rightarrow> Header \<Rightarrow> Header \<Rightarrow> bool \<Rightarrow> bool \<Rightarrow> block_error option" where
  \<comment> \<open>\<open>verify\<close> is \<open>pow.Verify\<close>, \<open>now\<close> is \<open>time.Now().Unix()\<close>\<close>
  "ValidateHeader config verify now header parent checkPow uncle =
     (let expd = CalcDifficulty config (of_int (hdr_Time header)) (of_int (hdr_Time parent)) (hdr_Number parent) (hdr_Difficulty parent)
      in if int (length (hdr_Extra header)) > MaximumExtraDataSize then Some ExtraTooLong
         else if uncle \<and> hdr_Time header > MaxBig then Some BlockTSTooBigErr
         else if \<not> uncle \<and> hdr_Time header > now then Some BlockFutureErr
         else if hdr_Time header \<le> hdr_Time parent then Some BlockEqualTSErr
         else if expd \<noteq> hdr_Difficulty header then Some (DifficultyErr (hdr_Difficulty header) expd)
         else if bad_gas_limit header parent then Some (BadGasLimit (hdr_GasLimit header))
         else if hdr_Number header - hdr_Number parent \<noteq> 1 then Some BlockNumberErr
         else if checkPow \<and> \<not> verify header then Some BlockNonceErr
         else case ValidateDAOHeaderExtraData config header of
                Some e \<Rightarrow> Some e
              | None \<Rightarrow>
                  if SiotImpr0Block config = Some (hdr_Number header) \<and> SiotImpr0Hash config \<noteq> zero_hash \<and>
                     SiotImpr0Hash config \<noteq> Header_Hash header
                  then Some ForkHashErr else None)"

section \<open>The chain\<close>

text \<open>What the readers of the block chain return: \<open>GetBlock\<close>, \<open>GetBlockNumber\<close> and the chain database.\<close>

record BlockChain =
  bc_GetBlock :: "bytes \<Rightarrow> uint64 \<Rightarrow> Block option"
  bc_GetBlockNumber :: "bytes \<Rightarrow> uint64"
  bc_HasHeader :: "bytes \<Rightarrow> bool"
  bc_chainDb :: trie_db

definition Block_Hash :: "Block \<Rightarrow> bytes" where
  "Block_Hash b = Header_Hash (blk_header b)"

definition HasBlock :: "BlockChain \<Rightarrow> bytes \<Rightarrow> bool" where
  "HasBlock bc h \<longleftrightarrow> bc_GetBlock bc h (bc_GetBlockNumber bc h) \<noteq> None"

fun blocks_from :: "BlockChain \<Rightarrow> bytes \<Rightarrow> uint64 \<Rightarrow> nat \<Rightarrow> Block list" where
  "blocks_from bc h number 0 = []"
| "blocks_from bc h number (Suc n) =
     (case bc_GetBlock bc h number of
        None \<Rightarrow> []
      | Some block \<Rightarrow> block # blocks_from bc (hdr_ParentHash (blk_header block)) (number - 1) n)"

definition GetBlocksFromHash :: "BlockChain \<Rightarrow> bytes \<Rightarrow> nat \<Rightarrow> Block list" where
  "GetBlocksFromHash bc h n = blocks_from bc h (bc_GetBlockNumber bc h) n"

section \<open>Uncles and blocks\<close>

fun verify_uncles :: "ChainConfig \<Rightarrow> (Header \<Rightarrow> bool) \<Rightarrow> int \<Rightarrow> bytes \<Rightarrow> (bytes \<times> Block) list \<Rightarrow> bytes list \<Rightarrow> nat \<Rightarrow> Header list \<Rightarrow>
    block_error option" where
  "verify_uncles config verify now parent_hash ancestors seen i [] = None"
| "verify_uncles config verify now parent_hash ancestors seen i (uncle # uncles) =
     (let hash = Header_Hash uncle
      in if hash \<in> set seen then Some (UncleNotUnique i)
         else if map_of ancestors hash \<noteq> None then Some (UncleIsAncestor i)
         else case map_of ancestors (hdr_ParentHash uncle) of
                None \<Rightarrow> Some (UncleParentErr i)
              | Some ancestor \<Rightarrow>
                  if hdr_ParentHash uncle = parent_hash then Some (UncleParentErr i)
                  else case ValidateHeader config verify now uncle (blk_header ancestor) True True of
                         Some e \<Rightarrow> Some (UncleHeaderErr i e)
                       | None \<Rightarrow> verify_uncles config verify now parent_hash ancestors (hash # seen) (Suc i) uncles)"

definition VerifyUncles :: "ChainConfig \<Rightarrow> (Header \<Rightarrow> bool) \<Rightarrow> int \<Rightarrow> BlockChain \<Rightarrow> Block \<Rightarrow> Block \<Rightarrow> block_error option" where
  "VerifyUncles config verify now bc block parent =
     (if length (blk_uncles block) > 2 then Some TooManyUncles
      else
        let found = GetBlocksFromHash bc (hdr_ParentHash (blk_header block)) 7;
            seen = concat (map (\<lambda>a. map Header_Hash (blk_uncles a)) found);
            ancestors = (Block_Hash block, block) # rev (map (\<lambda>a. (Block_Hash a, a)) found)
        in verify_uncles config verify now (Block_Hash parent) ancestors (Block_Hash block # seen) 0 (blk_uncles block))"

datatype block_panic = StatePanic state_panic | BloomPanic | DerivePanic derive_panic

definition method_ValidateHeader :: "ChainConfig \<Rightarrow> (Header \<Rightarrow> bool) \<Rightarrow> int \<Rightarrow> BlockChain \<Rightarrow> Header \<Rightarrow> Header option \<Rightarrow> bool \<Rightarrow>
    block_error option" where
  "method_ValidateHeader config verify now bc header parent checkPow =
     (case parent of
        None \<Rightarrow> Some (ParentErr (hdr_ParentHash header))
      | Some parent \<Rightarrow>
          if bc_HasHeader bc (Header_Hash header) then None else ValidateHeader config verify now header parent checkPow False)"

definition ValidateBlock :: "ChainConfig \<Rightarrow> (Header \<Rightarrow> bool) \<Rightarrow> int \<Rightarrow> BlockChain \<Rightarrow> Block \<Rightarrow> block_panic + block_error option" where
  "ValidateBlock config verify now bc block =
     (let header = blk_header block;
          parent_err = ParentErr (hdr_ParentHash header)
      in if HasBlock bc (Block_Hash block) \<and> \<not> isl (state_New (hdr_Root header) (bc_chainDb bc))
         then Inr (Some (KnownBlockErr (hdr_Number header) (Block_Hash block)))
         else case bc_GetBlock bc (hdr_ParentHash header) (of_int (hdr_Number header) - 1) of
                None \<Rightarrow> Inr (Some parent_err)
              | Some parent \<Rightarrow>
                  (case state_New (hdr_Root (blk_header parent)) (bc_chainDb bc) of
                     Inl _ \<Rightarrow> Inr (Some parent_err)
                   | Inr _ \<Rightarrow>
                       (case ValidateHeader config verify now header (blk_header parent) False False of
                          Some e \<Rightarrow> Inr (Some e)
                        | None \<Rightarrow>
                            (case VerifyUncles config verify now bc block parent of
                               Some e \<Rightarrow> Inr (Some e)
                             | None \<Rightarrow>
                                 if CalcUncleHash (blk_uncles block) \<noteq> hdr_UncleHash header then Inr (Some UncleHashErr)
                                 else case DeriveSha (length (blk_transactions block)) (Transactions_GetRlp (blk_transactions block)) of
                                        Inl e \<Rightarrow> Inl (DerivePanic e)
                                      | Inr txSha \<Rightarrow> Inr (if txSha \<noteq> hdr_TxHash header then Some TxHashErr else None)))))"

definition ValidateState :: "trie_db \<Rightarrow> ChainConfig \<Rightarrow> Block \<Rightarrow> StateDB \<Rightarrow> Receipt list \<Rightarrow> int \<Rightarrow>
    block_panic + block_error option \<times> StateDB" where
  \<comment> \<open>a state root that differs is logged, and nil is returned all the same\<close>
  "ValidateState g config block statedb receipts usedGas =
     (let header = blk_header block
      in if hdr_GasUsed header \<noteq> usedGas then Inr (Some GasUsedErr, statedb)
         else case CreateBloom receipts of
                None \<Rightarrow> Inl BloomPanic
              | Some rbloom \<Rightarrow>
                  if rbloom \<noteq> hdr_Bloom header then Inr (Some BloomErr, statedb)
                  else case DeriveSha (length receipts) (Receipts_GetRlp receipts) of
                         Inl e \<Rightarrow> Inl (DerivePanic e)
                       | Inr receiptSha \<Rightarrow>
                           if receiptSha \<noteq> hdr_ReceiptHash header then Inr (Some ReceiptHashErr, statedb)
                           else case IntermediateRoot g (IsSiotImpr2 config (hdr_Number header)) statedb of
                                  Inl e \<Rightarrow> Inl (StatePanic e)
                                | Inr (rt, statedb) \<Rightarrow>
                                    if hdr_Root header \<noteq> rt then Inr (None, statedb) else Inr (None, statedb))"

lemma gas_limit_arith:
  fixes L U :: int
  assumes "5000 \<le> L" "0 \<le> U" "U \<le> L" "5124 \<le> target"
    and "gl = max (L - (L div 1024 - 1) + U * 3 div 2 div 1024) 5000" "new = (if gl < target then min (L + (L div 1024 - 1)) target else gl)"
  shows "\<bar>L - new\<bar> < L div 1024" "5000 \<le> new"
proof -
  define x where "x = L div 1024"
  define c where "c = U * 3 div 2 div 1024"
  have x: "1024 * x \<le> L" "L < 1024 * x + 1024" unfolding x_def by simp_all
  have c: "2048 * c \<le> 3 * U" "3 * U < 2048 * c + 2048" unfolding c_def by simp_all
  have x4: "4 \<le> x" using x assms(1) by linarith
  have c0: "0 \<le> c" unfolding c_def using assms(2) by (simp add: pos_imp_zdiv_nonneg_iff)
  have hi: "c < 2 * x - 1 \<or> x = 4 \<and> c \<le> 7"
  proof (cases "x = 4")
    case True
    then have "2048 * c < 2048 * 8" using x c assms(3) by linarith
    then show ?thesis using True by simp
  qed (use x c x4 assms(3) in linarith)
  have gl: "gl = L - (x - 1) + c \<or> gl = 5000 \<and> L - (x - 1) + c < 5000" using assms(5) by (auto simp: x_def c_def max_def)
  show "\<bar>L - new\<bar> < L div 1024"
  proof (cases "gl < target")
    case True
    then have "new = L + (x - 1) \<or> new = target \<and> target < L + (x - 1)" using assms(6) by (auto simp: x_def min_def)
    then show ?thesis unfolding x_def [symmetric] abs_less_iff using gl x4 c0 assms(4) True by linarith
  next
    case False
    then show ?thesis unfolding x_def [symmetric] abs_less_iff using assms(4,6) gl hi x x4 c0 by (auto; linarith)
  qed
  show "5000 \<le> new" using assms(1,4-6) x4 by (auto simp: x_def [symmetric] min_def)
qed

text \<open>
  C17. The gas limit that a miner computes for the next block passes the gas limit check of the validator,
  whatever gas the parent used, as long as the target is at least 5124.
\<close>

theorem CalcGasLimit_accepted:
  assumes "MinGasLimit \<le> hdr_GasLimit parent" "0 \<le> hdr_GasUsed parent" "hdr_GasUsed parent \<le> hdr_GasLimit parent" "5124 \<le> target"
    "hdr_GasLimit header = CalcGasLimit target parent"
  shows "\<not> bad_gas_limit header parent"
proof -
  have "5000 \<le> hdr_GasLimit parent" using assms(1) by (simp add: MinGasLimit_def)
  note a = gas_limit_arith [OF this assms(2-4) refl refl]
  show ?thesis
    unfolding bad_gas_limit_def assms(5) CalcGasLimit_def Let_def MinGasLimit_def GasLimitBoundDivisor_def de_Morgan_disj not_not
    by (rule conjI [OF a(1) leD [OF a(2)]])
qed

theorem CalcGasLimit_accepted_witness:
  "\<not> bad_gas_limit ((env_header block_env)\<lparr>hdr_GasLimit := CalcGasLimit GenesisGasLimit (env_header block_env)\<rparr>) (env_header block_env)"
  using CalcGasLimit_accepted [of "env_header block_env" GenesisGasLimit
      "(env_header block_env)\<lparr>hdr_GasLimit := CalcGasLimit GenesisGasLimit (env_header block_env)\<rparr>"]
  by (simp add: block_env_def MinGasLimit_def GenesisGasLimit_def)

text \<open>
  With a lower target, which the command line flag allows, the computed limit can be rejected: after a full
  block at the minimal limit it moves by a whole 1024th.
\<close>

lemma CalcGasLimit_small_target:
  assumes "hdr_GasLimit parent = 5000" "hdr_GasUsed parent = 5000" "hdr_GasLimit header = CalcGasLimit 5000 parent"
  shows "bad_gas_limit header parent"
  using assms by (simp add: bad_gas_limit_def CalcGasLimit_def MinGasLimit_def GasLimitBoundDivisor_def Let_def)

text \<open>
  C18. The validator does not check the state root: whatever root the header has, \<open>ValidateState\<close> gives the
  same result, so a block whose root differs from the computed one is accepted.
\<close>

theorem ValidateState_ignores_root:
  "ValidateState g config (block\<lparr>blk_header := (blk_header block)\<lparr>hdr_Root := rt\<rparr>\<rparr>) statedb receipts usedGas =
   ValidateState g config block statedb receipts usedGas"
  by (simp add: ValidateState_def Let_def cong: sum.case_cong option.case_cong if_cong)

end
