(* ===== verification/Block_Process.thy ===== *)
theory Block_Process
  imports Block_Validate State_Sound
begin

text \<open>
  Processing blocks (\<open>state_processor.go\<close>): the transactions are applied one after the other against one
  gas pool, then the rewards are paid. Recovering the sender of a transaction from its signature is a
  parameter.
\<close>

section \<open>Processing\<close>

datatype process_error = SenderErr | TxErr tx_error

definition AsMessage :: "(Transaction \<Rightarrow> bytes option) \<Rightarrow> Transaction \<Rightarrow> Message option" where
  \<comment> \<open>\<open>Sender(s, tx)\<close> is the parameter; \<open>None\<close> is its error\<close>
  "AsMessage sender tx =
     map_option (\<lambda>fr. \<lparr>msg_From = fr, msg_To = tx_Recipient tx, msg_GasPrice = tx_Price tx, msg_Gas = tx_GasLimit tx, msg_Value = tx_Amount tx,
         msg_Nonce = tx_AccountNonce tx, msg_CheckNonce = True, msg_Data = tx_Payload tx\<rparr>) (sender tx)"

definition NewEnv :: "ChainConfig \<Rightarrow> Header \<Rightarrow> VMEnv" where
  "NewEnv config header = \<lparr>env_config = config, env_depth = 0, env_header = header\<rparr>"

definition ApplyTransaction :: "trie_db \<Rightarrow> uint64 \<Rightarrow> ChainConfig \<Rightarrow> (Transaction \<Rightarrow> bytes option) \<Rightarrow> Header \<Rightarrow> Transaction \<Rightarrow> int \<Rightarrow> int \<Rightarrow> StateDB \<Rightarrow>
    block_panic + (process_error + Receipt \<times> Log list \<times> int) \<times> int \<times> int \<times> StateDB" where
  \<comment> \<open>the result, the gas used by the block so far, the gas pool and the state\<close>
  "ApplyTransaction g sn config sender header tx usedGas gp statedb =
     (case AsMessage sender tx of
        None \<Rightarrow> Inr (Inl SenderErr, usedGas, gp, statedb)
      | Some msg \<Rightarrow>
          (case ApplyMessage g sn (NewEnv config header) msg gp statedb of
             Inl e \<Rightarrow> Inl (StatePanic e)
           | Inr (Inl err, gp, statedb) \<Rightarrow> Inr (Inl (TxErr err), usedGas, gp, statedb)
           | Inr (Inr gas, gp, statedb) \<Rightarrow>
               let usedGas = usedGas + gas
               in case IntermediateRoot g (IsSiotImpr2 config (hdr_Number header)) statedb of
                    Inl e \<Rightarrow> Inl (StatePanic e)
                  | Inr (rt, statedb) \<Rightarrow>
                      let receipt = (NewReceipt rt usedGas)\<lparr>rc_TxHash := Transaction_Hash tx, rc_GasUsed := gas\<rparr>;
                          receipt = (if MessageCreatesExternalLogic msg
                                     then receipt\<lparr>rc_ExternalLogicAddress := CreateAddress (msg_From msg) (tx_AccountNonce tx)\<rparr> else receipt);
                          ls = GetLogs (Transaction_Hash tx) statedb;
                          receipt = receipt\<lparr>rc_Logs := ls\<rparr>
                      in case CreateBloom [receipt] of
                           None \<Rightarrow> Inl BloomPanic
                         | Some b \<Rightarrow> Inr (Inr (receipt\<lparr>rc_Bloom := b\<rparr>, ls, gas), usedGas, gp, statedb)))"

fun process_txs :: "trie_db \<Rightarrow> uint64 \<Rightarrow> ChainConfig \<Rightarrow> (Transaction \<Rightarrow> bytes option) \<Rightarrow> Block \<Rightarrow> nat \<Rightarrow> Transaction list \<Rightarrow> int \<Rightarrow> int \<Rightarrow> StateDB \<Rightarrow>
    block_panic + (process_error + Receipt list \<times> Log list) \<times> int \<times> int \<times> StateDB" where
  "process_txs g sn config sender block i [] usedGas gp statedb = Inr (Inr ([], []), usedGas, gp, statedb)"
| "process_txs g sn config sender block i (tx # txs) usedGas gp statedb =
     (case ApplyTransaction g sn config sender (blk_header block) tx usedGas gp
             (StartRecord (Transaction_Hash tx) (Block_Hash block) i statedb) of
        Inl e \<Rightarrow> Inl e
      | Inr (Inl err, rest) \<Rightarrow> Inr (Inl err, rest)
      | Inr (Inr (receipt, ls, _), usedGas, gp, statedb) \<Rightarrow>
          map_ok (\<lambda>(r, rest). (map_ok (\<lambda>(receipts, allLogs). (receipt # receipts, ls @ allLogs)) r, rest))
            (process_txs g sn config sender block (Suc i) txs usedGas gp statedb))"

definition BlockReward :: int where "BlockReward = 5000000000000000000"

fun reward_uncles :: "trie_db \<Rightarrow> uint64 \<Rightarrow> Header \<Rightarrow> Header list \<Rightarrow> int \<Rightarrow> StateDB \<Rightarrow> state_panic + int \<times> StateDB" where
  "reward_uncles g sn header [] reward statedb = Inr (reward, statedb)"
| "reward_uncles g sn header (uncle # uncles) reward statedb =
     res_bind (AddBalance g sn (hdr_Coinbase uncle) ((hdr_Number uncle + 8 - hdr_Number header) * BlockReward div 8) statedb)
       (reward_uncles g sn header uncles (reward + BlockReward div 32))"

definition AccumulateRewards :: "trie_db \<Rightarrow> uint64 \<Rightarrow> Header \<Rightarrow> Header list \<Rightarrow> StateDB \<Rightarrow> state_panic + StateDB" where
  "AccumulateRewards g sn header uncles statedb =
     res_bind (reward_uncles g sn header uncles BlockReward statedb) (\<lambda>(reward, statedb).
       AddBalance g sn (hdr_Coinbase header) reward statedb)"

definition DAORefundExternalLogic :: bytes where
  "DAORefundExternalLogic =
     [0xbf, 0x4e, 0xd7, 0xb2, 0x7f, 0x1d, 0x66, 0x65, 0x46, 0xe3, 0x0d, 0x74, 0xd5, 0x0d, 0x17, 0x3d, 0x20, 0xbc, 0xa7, 0x54]"

fun dao_drain :: "trie_db \<Rightarrow> bytes list \<Rightarrow> StateDB \<Rightarrow> state_panic + StateDB" where
  "dao_drain g [] statedb = Inr statedb"
| "dao_drain g (addr # addrs) statedb =
     res_bind (GetStateObject g addr statedb) (\<lambda>(account, statedb).
       case account of
         None \<Rightarrow> dao_drain g addrs statedb
       | Some account \<Rightarrow>
           res_bind (at_account DAORefundExternalLogic (obj_AddBalance (acc_Balance (data account))) statedb) (\<lambda>statedb.
           res_bind (at_account addr (obj_SetBalance 0) statedb) (dao_drain g addrs)))"

definition ApplyDAOHardFork :: "trie_db \<Rightarrow> uint64 \<Rightarrow> bytes list \<Rightarrow> StateDB \<Rightarrow> state_panic + StateDB" where
  \<comment> \<open>the list is \<open>configure.DAODrainList\<close>, a table of addresses\<close>
  "ApplyDAOHardFork g sn drain statedb =
     res_bind (GetOrNewStateObject g sn DAORefundExternalLogic statedb) (\<lambda>(_, statedb). dao_drain g drain statedb)"

definition Process :: "trie_db \<Rightarrow> uint64 \<Rightarrow> ChainConfig \<Rightarrow> (Transaction \<Rightarrow> bytes option) \<Rightarrow> bytes list \<Rightarrow> Block \<Rightarrow> StateDB \<Rightarrow>
    block_panic + (process_error + Receipt list \<times> Log list \<times> int) \<times> StateDB" where
  "Process g sn config sender drain block statedb =
     (let header = blk_header block;
          gp = AddGas (hdr_GasLimit header) 0
      in case (if DAOForkSupport config \<and> DAOForkBlock config = Some (hdr_Number header)
               then ApplyDAOHardFork g sn drain statedb else Inr statedb) of
           Inl e \<Rightarrow> Inl (StatePanic e)
         | Inr statedb \<Rightarrow>
             (case process_txs g sn config sender block 0 (blk_transactions block) 0 gp statedb of
                Inl e \<Rightarrow> Inl e
              | Inr (Inl err, _, _, statedb) \<Rightarrow> Inr (Inl err, statedb)
              | Inr (Inr (receipts, allLogs), totalUsedGas, gp, statedb) \<Rightarrow>
                  (case AccumulateRewards g sn header (blk_uncles block) statedb of
                     Inl e \<Rightarrow> Inl (StatePanic e)
                   | Inr statedb \<Rightarrow> Inr (Inr (receipts, allLogs, totalUsedGas), statedb))))"

section \<open>The refund counter during a message\<close>

lemma refund_simps [simp]:
  "refund (touch c s) = refund s" "refund (append_journal e s) = refund s" "refund (setStateObject c s) = refund s"
  "refund (MarkStateObjectDirty a s) = refund s" "refund (snd (Snapshot s)) = refund s"
  by (simp_all add: touch_def append_journal_def setStateObject_def MarkStateObjectDirty_def Snapshot_def)

lemma refund_obj [simp]:
  "refund (obj_SetBalance n c s) = refund s" "refund (obj_SetNonce k c s) = refund s" "refund (obj_SetCode g h b c s) = refund s"
  "refund (obj_AddBalance n c s) = refund s" "refund (obj_SubBalance n c s) = refund s"
  by (simp_all add: obj_SetBalance_def obj_setBalance_def obj_SetNonce_def obj_setNonce_def obj_SetCode_def obj_setCode_def
    obj_AddBalance_def obj_SubBalance_def case_prod_beta)

lemma refund_GetStateObject: "GetStateObject g a s = Inr (obj, s') \<Longrightarrow> refund s' = refund s"
  by (auto simp: GetStateObject_def Let_def split: option.split_asm sum.split_asm prod.split_asm if_split_asm)

lemma refund_createObject: "createObject g sn a s = Inr (c, prev, s') \<Longrightarrow> refund s' = refund s"
  by (auto simp: createObject_def Let_def res_bind_eq_Inr dest!: refund_GetStateObject)

lemma refund_GetOrNew: "GetOrNewStateObject g sn a s = Inr (c, s') \<Longrightarrow> refund s' = refund s"
  by (auto simp: GetOrNewStateObject_def res_bind_eq_Inr map_ok_eq_Inr split: option.split_asm if_split_asm
    dest!: refund_GetStateObject refund_createObject)

lemma ens_bind:
  "ens (\<lambda>s. refund s = r) m \<Longrightarrow> (\<And>s. refund s = r \<Longrightarrow> ens P (f s)) \<Longrightarrow> ens P (res_bind m f)"
  "ens (\<lambda>x. refund (snd x) = r) m' \<Longrightarrow> (\<And>a s. refund s = r \<Longrightarrow> ens P (f' (a, s))) \<Longrightarrow> ens P (res_bind m' f')"
  by (auto simp: ens_def res_bind_eq_Inr)

lemmas refund_ops = SetNonce_def SetCode_def AddBalance_def CreateAccount_def GetBalance_def GetNonce_def Exist_def get_account_def
  at_account_def CanTransfer_def

lemma refund_kept:
  assumes "refund s = refund (s0 :: StateDB)"
  shows "ens (\<lambda>s'. refund s' = refund s0) (SetNonce g sn a n s)" "ens (\<lambda>s'. refund s' = refund s0) (SetCode g sn a b s)"
    "ens (\<lambda>s'. refund s' = refund s0) (AddBalance g sn a k s)" "ens (\<lambda>s'. refund s' = refund s0) (CreateAccount g sn a s)"
    "ens (\<lambda>x. refund (snd x) = refund s0) (GetNonce g sn a s)" "ens (\<lambda>x. refund (snd x) = refund s0) (Exist g a s)"
    "ens (\<lambda>s'. refund s' = refund s0) (get_account g a s)" "ens (\<lambda>x. refund (snd x) = refund s0) (CanTransfer g a k s)"
    "ens (\<lambda>x. refund (snd x) = refund s0) (GetStateObject g a s)" "ens (\<lambda>x. refund (snd x) = refund s0) (GetOrNewStateObject g sn a s)"
  using assms by (auto simp: ens_def refund_ops map_ok_eq_Inr split: option.split_asm if_split_asm option.split
    dest!: refund_GetStateObject refund_GetOrNew refund_createObject)

lemma refund_at: "refund s = refund (s0 :: StateDB) \<Longrightarrow> (\<And>c s. refund (f c s) = refund s) \<Longrightarrow> ens (\<lambda>s'. refund s' = refund s0) (at_account a f s)"
  by (auto simp: ens_def at_account_def split: option.split_asm)

lemma refund_account: "refund s = refund (s0 :: StateDB) \<Longrightarrow> ens (\<lambda>s'. refund s' = refund s0) (account_or_new g sn a s)"
  unfolding account_or_new_def by (auto intro!: ens_bind(2) [where r = "refund s0"] ens_intros(3) refund_kept)

lemma refund_Transfer: "refund s = refund (s0 :: StateDB) \<Longrightarrow> ens (\<lambda>s'. refund s' = refund s0) (Transfer fr to n s)"
  unfolding Transfer_def by (auto intro!: ens_bind(1) [where r = "refund s0"] refund_at)

lemma refund_Call: "refund s = refund (s0 :: StateDB) \<Longrightarrow> ens (\<lambda>x. refund (snd x) = refund s0) (Call g sn env a b n s)"
  unfolding Call_def by (auto simp: Snapshot_def Let_def intro!: ens_bind [where r = "refund s0"] ens_intros refund_kept refund_Transfer)

lemma Create_gas:
  assumes "refund s = refund (s0 :: StateDB)" "0 \<le> gas"
  shows "ens (\<lambda>((addr, e), gas', s'). gas' = gas \<and> refund s' = refund s0 \<and> e \<noteq> Some CodeStoreOutOfGasError) (Create g sn env a gas n s)"
  unfolding Create_def using assms
  by (auto simp: Snapshot_def Let_def CreateDataGas_def intro!: ens_bind [where r = "refund s0"] ens_intros refund_kept refund_Transfer)

lemma run_message_gas:
  assumes "run_message g sn env msg st = Inr (e, st')" "0 \<le> st_gas st"
  shows "st_gas st' = st_gas st" "st_gp st' = st_gp st" "st_initialGas st' = st_initialGas st" "refund (st_state st') = refund (st_state st)"
proof -
  let ?r = "refund (st_state st)"
  have "ens (\<lambda>x. st_gas (snd x) = st_gas st \<and> st_gp (snd x) = st_gp st \<and> st_initialGas (snd x) = st_initialGas st \<and>
    refund (st_state (snd x)) = ?r) (run_message g sn env msg st)"
  proof (cases "msg_To msg")
    case None
    then show ?thesis using Create_gas [OF refl assms(2), of "st_state st" g sn env "msg_From msg" "msg_Value msg"]
      by (auto simp: run_message_def Let_def ens_def map_ok_eq_Inr)
  next
    case (Some to)
    have "ens (\<lambda>x. refund (snd x) = ?r) (res_bind (GetNonce g sn (msg_From msg) (st_state st)) (\<lambda>(n, s).
             res_bind (SetNonce g sn (msg_From msg) (n + 1) s) (\<lambda>s.
             res_bind (account_or_new g sn to s) (Call g sn env (msg_From msg) to (msg_Value msg)))))"
      by (auto intro!: ens_bind [where r = ?r] refund_kept refund_account refund_Call)
    then show ?thesis using Some by (auto simp: run_message_def Let_def ens_def map_ok_eq_Inr res_bind_eq_Inr) (force+)?
  qed
  then show "st_gas st' = st_gas st" "st_gp st' = st_gp st" "st_initialGas st' = st_initialGas st" "refund (st_state st') = ?r"
    using assms(1) by (auto simp: ens_def)
qed

lemma buyGas_gas:
  assumes "buyGas g sn msg st = Inr (None, st')"
  shows "msg_Gas msg \<le> st_gp st" "st_gp st' = st_gp st - msg_Gas msg" "st_gas st' = st_gas st + msg_Gas msg" "st_initialGas st' = msg_Gas msg"
    "refund (st_state st') = refund (st_state st)"
proof -
  obtain s where s: "account_or_new g sn (msg_From msg) (st_state st) = Inr s"
    using assms by (auto simp: buyGas_def Let_def res_bind_eq_Inr)
  have r: "refund s = refund (st_state st)" using refund_account [OF refl, of "st_state st" g sn "msg_From msg"] s by (simp add: ens_def)
  show "msg_Gas msg \<le> st_gp st" "st_gp st' = st_gp st - msg_Gas msg" "st_gas st' = st_gas st + msg_Gas msg" "st_initialGas st' = msg_Gas msg"
    "refund (st_state st') = refund (st_state st)"
    using assms s r by (auto simp: buyGas_def Let_def SubGas_def split: option.split_asm if_split_asm)
qed

lemma preCheck_gas:
  assumes "preCheck g sn msg st = Inr (None, st')"
  shows "msg_Gas msg \<le> st_gp st" "st_gp st' = st_gp st - msg_Gas msg" "st_gas st' = st_gas st + msg_Gas msg" "st_initialGas st' = msg_Gas msg"
    "refund (st_state st') = refund (st_state st)"
proof -
  obtain s1 where s1: "account_or_new g sn (msg_From msg) (st_state st) = Inr s1"
    using assms by (auto simp: preCheck_def res_bind_eq_Inr)
  have r1: "refund s1 = refund (st_state st)" using refund_account [OF refl, of "st_state st" g sn "msg_From msg"] s1 by (simp add: ens_def)
  obtain s where s: "refund s = refund (st_state st)" "buyGas g sn msg (st\<lparr>st_state := s\<rparr>) = Inr (None, st')"
  proof (cases "msg_CheckNonce msg")
    case True
    obtain n s where n: "GetNonce g sn (msg_From msg) s1 = Inr (n, s)" using assms s1 True by (auto simp: preCheck_def res_bind_eq_Inr)
    have "refund s = refund (st_state st)" using refund_kept(5) [OF r1, of g sn "msg_From msg"] n by (simp add: ens_def)
    then show ?thesis using that [of s] assms s1 n True by (auto simp: preCheck_def split: if_split_asm)
  qed (use that [OF r1] assms s1 in \<open>simp add: preCheck_def\<close>)
  note b = buyGas_gas [OF s(2)]
  show "msg_Gas msg \<le> st_gp st" "st_gp st' = st_gp st - msg_Gas msg" "st_gas st' = st_gas st + msg_Gas msg" "st_initialGas st' = msg_Gas msg"
    "refund (st_state st') = refund (st_state st)"
    using b s(1) by simp_all
qed

lemma refundGas_gas:
  assumes "refundGas g sn msg st = Inr st'" "rf = min (gasUsed st div 2) (refund (st_state st))"
  shows "st_gas st' = st_gas st + rf" "st_gp st' = st_gp st + (st_gas st + rf)" "st_initialGas st' = st_initialGas st"
proof -
  obtain s1 s2 where s: "account_or_new g sn (msg_From msg) (st_state st) = Inr s1"
    "at_account (msg_From msg) (obj_AddBalance (st_gas st * msg_GasPrice msg)) s1 = Inr s2"
    using assms(1) by (auto simp: refundGas_def res_bind_eq_Inr)
  have "refund s2 = refund (st_state st)"
    using refund_account [OF refl, of "st_state st" g sn "msg_From msg"] s by (auto simp: ens_def at_account_def split: option.split_asm)
  then have "(if gasUsed st div 2 > GetRefund s2 then GetRefund s2 else gasUsed st div 2) = rf" using assms(2) by (simp add: GetRefund_def)
  then show "st_gas st' = st_gas st + rf" "st_gp st' = st_gp st + (st_gas st + rf)" "st_initialGas st' = st_initialGas st"
    using assms(1) s by (auto simp: refundGas_def Let_def map_ok_eq_Inr AddGas_def)
qed

lemma ApplyMessage_gas:
  assumes "ApplyMessage g sn env msg gp s = Inr (Inr used, gp', s')" "0 \<le> refund s"
  shows "gp' + used = gp" "10500 \<le> used" "used \<le> msg_Gas msg" "msg_Gas msg \<le> gp"
proof -
  let ?ig = "IntrinsicGas (msg_Data msg) (MessageCreatesExternalLogic msg) (IsHomestead (env_config env) (hdr_Number (env_header env)))"
  obtain st1 s1 err st2 st3 where t: "preCheck g sn msg (NewStateTransition gp s) = Inr (None, st1)"
    "account_or_new g sn (msg_From msg) (st_state st1) = Inr s1" "\<not> st_gas st1 < ?ig"
    "run_message g sn env msg (st1\<lparr>st_state := s1, st_gas := st_gas st1 - ?ig\<rparr>) = Inr (err, st2)"
    "refundGas g sn msg st2 = Inr st3" "used = gasUsed st3" "gp' = st_gp st3"
    using assms(1) by (auto simp: ApplyMessage_def TransitionDb_def useGas_def res_bind_eq_Inr map_ok_eq_Inr Let_def
      split: option.split_asm if_split_asm sum.split_asm)
  note p = preCheck_gas [OF t(1), unfolded NewStateTransition_def, simplified]
  have r1: "refund s1 = refund s" using refund_account [OF refl, of "st_state st1" g sn "msg_From msg"] t(2) p(5) by (simp add: ens_def)
  have g0: "0 \<le> st_gas (st1\<lparr>st_state := s1, st_gas := st_gas st1 - ?ig\<rparr>)" using t(3) by simp
  note q = run_message_gas [OF t(4) g0, simplified]
  note f = refundGas_gas [OF t(5) refl]
  have ig: "21000 \<le> ?ig"
    by (simp add: IntrinsicGas_def Let_def TxGas_def TxGasExternalLogicCreation_def TxDataNonZeroGas_def TxDataZeroGas_def)
  have gu: "gasUsed st2 = ?ig" using p q by (simp add: gasUsed_def)
  have u: "used = ?ig - min (?ig div 2) (refund s)" using t(6) f q p r1 gu by (simp add: gasUsed_def)
  show "gp' + used = gp" using t(6,7) f q p by (simp add: gasUsed_def)
  show "10500 \<le> used" using u ig by simp
  show "used \<le> msg_Gas msg" using u ig t(3) p(3) assms(2) by simp
  show "msg_Gas msg \<le> gp" using p(1) .
qed

section \<open>The gas of a block\<close>

lemma Inr_eq_map_ok: "Inr y = map_ok f r \<longleftrightarrow> (\<exists>x. r = Inr x \<and> y = f x)"
  by (cases r) auto

lemma IntermediateRoot_refund:
  assumes "IntermediateRoot g d s = Inr (rt, s')"
  shows "refund s' = 0"
proof -
  obtain s1 where s1: "root_loop g d (stateObjectsDirty s) s = Inr s1" using assms by (auto simp: IntermediateRoot_def res_bind_eq_Inr)
  obtain r t where "sec_Hash (st_trie (clearJournalAndRefund s1)) = (r, t)" by (cases "sec_Hash (st_trie (clearJournalAndRefund s1))")
  then show ?thesis using assms s1 by (cases r) (auto simp: IntermediateRoot_def Let_def clearJournalAndRefund_def)
qed

lemma ApplyTransaction_gas:
  assumes "ApplyTransaction g sn config sender header tx usedGas gp s = Inr (Inr (receipt, ls, gas), usedGas', gp', s')" "0 \<le> refund s"
  shows "rc_GasUsed receipt = gas" "rc_CumulativeGasUsed receipt = usedGas'" "usedGas' = usedGas + gas" "gp' + gas = gp"
    "10500 \<le> gas" "gas \<le> tx_GasLimit tx" "tx_GasLimit tx \<le> gp" "refund s' = 0"
proof -
  obtain msg s1 where m: "AsMessage sender tx = Some msg" "ApplyMessage g sn (NewEnv config header) msg gp s = Inr (Inr gas, gp', s1)"
    "usedGas' = usedGas + gas" "rc_GasUsed receipt = gas" "rc_CumulativeGasUsed receipt = usedGas'"
    "\<exists>rt. IntermediateRoot g (IsSiotImpr2 config (hdr_Number header)) s1 = Inr (rt, s')"
    using assms(1) by (auto simp: ApplyTransaction_def Let_def NewReceipt_def split: option.split_asm sum.split_asm prod.split_asm if_split_asm)
  have "msg_Gas msg = tx_GasLimit tx" using m(1) by (auto simp: AsMessage_def)
  moreover have "refund s' = 0" using m(6) IntermediateRoot_refund by blast
  ultimately show "rc_GasUsed receipt = gas" "rc_CumulativeGasUsed receipt = usedGas'" "usedGas' = usedGas + gas" "gp' + gas = gp"
    "10500 \<le> gas" "gas \<le> tx_GasLimit tx" "tx_GasLimit tx \<le> gp" "refund s' = 0"
    using m(3-5) ApplyMessage_gas [OF m(2) assms(2)] by simp_all
qed

lemma process_txs_gas:
  assumes "process_txs g sn config sender block i txs usedGas gp s = Inr (Inr (receipts, ls), usedGas', gp', s')" "0 \<le> refund s" "0 \<le> gp"
  shows "usedGas' = usedGas + sum_list (map rc_GasUsed receipts) \<and> gp' + sum_list (map rc_GasUsed receipts) = gp \<and> 0 \<le> gp' \<and>
    list_all2 (\<lambda>tx r. 10500 \<le> rc_GasUsed r \<and> rc_GasUsed r \<le> tx_GasLimit tx) txs receipts \<and>
    (\<forall>k < length receipts. rc_CumulativeGasUsed (receipts ! k) = usedGas + sum_list (map rc_GasUsed (take (Suc k) receipts)))"
  using assms
proof (induction txs arbitrary: i usedGas gp s receipts ls)
  case (Cons tx txs)
  obtain r l gas used1 gp1 s1 rs l' where a: "ApplyTransaction g sn config sender (blk_header block) tx usedGas gp
      (StartRecord (Transaction_Hash tx) (Block_Hash block) i s) = Inr (Inr (r, l, gas), used1, gp1, s1)"
    and p: "process_txs g sn config sender block (Suc i) txs used1 gp1 s1 = Inr (Inr (rs, l'), usedGas', gp', s')" "receipts = r # rs"
    using Cons.prems(1) by (auto simp: map_ok_eq_Inr Inr_eq_map_ok split: sum.split_asm prod.split_asm)
  have "0 \<le> refund (StartRecord (Transaction_Hash tx) (Block_Hash block) i s)" using Cons.prems(2) by (simp add: StartRecord_def)
  note t = ApplyTransaction_gas [OF a this]
  have "usedGas' = used1 + sum_list (map rc_GasUsed rs) \<and> gp' + sum_list (map rc_GasUsed rs) = gp1 \<and> 0 \<le> gp' \<and>
    list_all2 (\<lambda>tx r. 10500 \<le> rc_GasUsed r \<and> rc_GasUsed r \<le> tx_GasLimit tx) txs rs \<and>
    (\<forall>k < length rs. rc_CumulativeGasUsed (rs ! k) = used1 + sum_list (map rc_GasUsed (take (Suc k) rs)))"
    using Cons.IH [OF p(1)] t by simp
  then show ?case using t p(2) by (auto simp: nth_Cons split: nat.split)
qed auto

lemma refund_drain: "refund s = refund (s0 :: StateDB) \<Longrightarrow> ens (\<lambda>s'. refund s' = refund s0) (dao_drain g addrs s)"
proof (induction addrs arbitrary: s)
  case (Cons a addrs)
  have "ens (\<lambda>s'. refund s' = refund s0) (case x of None \<Rightarrow> dao_drain g addrs s1
       | Some account \<Rightarrow>
           res_bind (at_account DAORefundExternalLogic (obj_AddBalance (acc_Balance (data account))) s1) (\<lambda>s1.
           res_bind (at_account a (obj_SetBalance 0) s1) (dao_drain g addrs)))"
    if "refund s1 = refund s0" for x s1
    using that Cons.IH by (cases x) (auto intro!: ens_bind(1) [where r = "refund s0"] refund_at)
  then show ?case using refund_kept(9) [OF Cons.prems, of g a] by (auto intro!: ens_bind(2) [where r = "refund s0"])
qed (simp add: ens_def)

lemma refund_fork: "refund s = refund (s0 :: StateDB) \<Longrightarrow> ens (\<lambda>s'. refund s' = refund s0) (ApplyDAOHardFork g sn drain s)"
  unfolding ApplyDAOHardFork_def by (auto intro!: ens_bind(2) [where r = "refund s0"] refund_kept refund_drain)

text \<open>
  C8. A block that is processed stays within its gas limit. Every transaction uses at least 10500 gas and
  at most its own limit, the total is the sum over the receipts and at most the gas limit of the block,
  and each receipt carries the gas used up to and including its transaction.
\<close>

theorem Process_gas:
  assumes "Process g sn config sender drain block s = Inr (Inr (receipts, ls, gas), s')"
    "0 \<le> GetRefund s" "0 \<le> hdr_GasLimit (blk_header block)"
  shows "gas = sum_list (map rc_GasUsed receipts) \<and> gas \<le> hdr_GasLimit (blk_header block) \<and>
    list_all2 (\<lambda>tx r. 10500 \<le> rc_GasUsed r \<and> rc_GasUsed r \<le> tx_GasLimit tx) (blk_transactions block) receipts \<and>
    (\<forall>k < length receipts. rc_CumulativeGasUsed (receipts ! k) = sum_list (map rc_GasUsed (take (Suc k) receipts)))"
proof -
  let ?fork = "if DAOForkSupport config \<and> DAOForkBlock config = Some (hdr_Number (blk_header block)) then ApplyDAOHardFork g sn drain s else Inr s"
  obtain s1 gp1 s2 where p: "?fork = Inr s1"
    "process_txs g sn config sender block 0 (blk_transactions block) 0 (hdr_GasLimit (blk_header block)) s1 = Inr (Inr (receipts, ls), gas, gp1, s2)"
    using assms(1) by (auto simp: Process_def Let_def AddGas_def split: sum.split_asm prod.split_asm)
  have "refund s1 = refund s" using p(1) refund_fork [OF refl, of s g sn drain] by (auto simp: ens_def split: if_split_asm)
  then show ?thesis using process_txs_gas [OF p(2)] assms(2,3) by (simp add: GetRefund_def)
qed

definition payment_tx :: Transaction where
  "payment_tx = \<lparr>tx_AccountNonce = 0, tx_Price = 2, tx_GasLimit = 30000, tx_Recipient = Some [2], tx_Amount = 7, tx_Payload = [], tx_V = 27, tx_R = 1, tx_S = 1\<rparr>"

definition payment_block :: Block where
  "payment_block = \<lparr>blk_header = env_header block_env, blk_uncles = [], blk_transactions = [payment_tx]\<rparr>"

text \<open>The state of the example is written out: three accounts over an empty trie.\<close>

definition example_account :: "bytes \<Rightarrow> uint64 \<Rightarrow> int \<Rightarrow> StateObject" where
  "example_account a n b = (newObject a None)\<lparr>data := (data (newObject a None))\<lparr>acc_Nonce := n, acc_Balance := b\<rparr>, onDirty := False\<rparr>"

lemmas run_defs = ApplyMessage_def TransitionDb_def NewStateTransition_def preCheck_def buyGas_def account_or_new_def Exist_def get_account_def
  GetNonce_def SubGas_def obj_SubBalance_def obj_SetBalance_def obj_setBalance_def useGas_def IntrinsicGas_def run_message_def SetNonce_def
  GetOrNewStateObject_def obj_SetNonce_def obj_setNonce_def CreateAccount_def createObject_def Call_def CanTransfer_def GetBalance_def Transfer_def
  at_account_def obj_AddBalance_def refundGas_def gasUsed_def AddBalance_def GetRefund_def AddGas_def Snapshot_def GetStateObject_def
  touch_def append_journal_def setStateObject_def MarkStateObjectDirty_def Let_def fresh_state_def newObject_def payment_def block_env_def
  MessageCreatesExternalLogic_def CallCreateDepth_def TxGas_def IsHomestead_def IsSiotImpr2_def reached_def empty_def StartRecord_def

lemma payment_runs:
  assumes "root (sec_trie t) = NilNode"
  shows "\<exists>s s'. AddBalance Map.empty 0 [1] 100000 (fresh_state t) = Inr s \<and> refund s = 0 \<and>
    ApplyMessage Map.empty 0 block_env payment 50000 (StartRecord th bh i s) = Inr (Inr 21000, 29000, s') \<and>
    stateObjects s' = [([1], example_account [1] 1 57993), ([2], example_account [2] 0 7), ([3], example_account [3] 0 42000)] \<and>
    stateObjectsDirty s' = [[3], [2], [1]] \<and> st_trie s' = t \<and> logs s' = [] \<and>
    list_all (sound_entry Map.empty) (journal s')"
  using assms by (simp add: run_defs sec_Get_nil example_account_def)

lemma example_sound: "sound_obj g (example_account a n b)"
  unfolding example_account_def
  by (rule sound_obj_cong [OF sound_new [where g = g and a = a and sn = n and b = False]]) (simp_all add: newObject_def emptyCodeHash_def slots_sized_def)

lemma reward_returns: "map_of (stateObjects s) a \<noteq> None \<Longrightarrow> \<exists>s'. AddBalance g sn a n s = Inr s'"
  by (auto simp: AddBalance_def GetOrNewStateObject_def GetStateObject_def createObject_def Let_def)

lemma payment_processed:
  assumes "root (sec_trie t) = NilNode" "sec_holds Map.empty t (\<lambda>k. None)"
  shows "\<exists>s receipts ls s'. AddBalance Map.empty 0 [1] 100000 (fresh_state t) = Inr s \<and> refund s = 0 \<and>
    Process Map.empty 0 (env_config block_env) (\<lambda>tx. Some [1]) [] payment_block s = Inr (Inr (receipts, ls, 21000), s')"
proof -
  obtain s s1 where r: "AddBalance Map.empty 0 [1] 100000 (fresh_state t) = Inr s" "refund s = 0"
    "ApplyMessage Map.empty 0 block_env payment 50000 (StartRecord (Transaction_Hash payment_tx) (Block_Hash payment_block) 0 s) = Inr (Inr 21000, 29000, s1)"
    "stateObjects s1 = [([1], example_account [1] 1 57993), ([2], example_account [2] 0 7), ([3], example_account [3] 0 42000)]"
    "stateObjectsDirty s1 = [[3], [2], [1]]" "st_trie s1 = t" "list_all (sound_entry Map.empty) (journal s1)"
    using payment_runs [OF assms(1)] by blast
  have ad: "address (example_account a n b) = a" "acc_Balance (data (example_account a n b)) = b" for a n b
    by (simp_all add: example_account_def newObject_def)
  have "sound Map.empty (\<lambda>k. None) s1"
    using r(4-7) assms(2) by (auto simp: sound_def sound_loads_def load_def example_sound ad split: if_split_asm)
  moreover have "small_map (\<lambda>k. None)" by (simp add: small_map_def)
  moreover have "\<forall>a c. map_of (stateObjects s1) a = Some c \<longrightarrow> acc_Balance (data c) < 2 ^ 256" using r(4) by (auto simp: ad split: if_split_asm)
  moreover have "\<not> unencodable False s1 a" for a using r(4) by (simp add: unencodable_def ad)
  ultimately obtain rt s2 where s2: "IntermediateRoot Map.empty False s1 = Inr (rt, s2)" "dom (map_of (stateObjects s1)) \<subseteq> dom (map_of (stateObjects s2))"
    using IntermediateRoot_outcome [of Map.empty "\<lambda>k. None" s1 False] by auto
  have "map_of (stateObjects s2) [3] \<noteq> None" using s2(2) r(4) by auto
  then obtain s3 where s3: "AddBalance Map.empty 0 [3] BlockReward s2 = Inr s3" using reward_returns by blast
  have c: "AsMessage (\<lambda>tx. Some [1]) payment_tx = Some payment" "NewEnv (env_config block_env) (env_header block_env) = block_env"
    "IsSiotImpr2 (env_config block_env) (hdr_Number (env_header block_env)) = False" "hdr_GasLimit (env_header block_env) = 50000"
    "hdr_Coinbase (env_header block_env) = [3]" "\<not> DAOForkSupport (env_config block_env)" "\<not> MessageCreatesExternalLogic payment"
    by (simp_all add: AsMessage_def payment_tx_def payment_def NewEnv_def block_env_def IsSiotImpr2_def reached_def MessageCreatesExternalLogic_def)
  obtain b where b: "CreateBloom [((NewReceipt rt 21000)\<lparr>rc_TxHash := Transaction_Hash payment_tx, rc_GasUsed := 21000\<rparr>)\<lparr>rc_Logs := GetLogs (Transaction_Hash payment_tx) s2\<rparr>] = Some b"
    using CreateBloom_returns by blast
  show ?thesis using r(1-3) s2(1) s3 b c
    by (simp add: Process_def ApplyTransaction_def payment_block_def AddGas_def AccumulateRewards_def Let_def)
qed

theorem Process_gas_witness:
  "\<exists>s0 s receipts ls s'. complete_small Map.empty zero_hash s0 \<and> AddBalance Map.empty 0 [1] 100000 s0 = Inr s \<and>
     Process Map.empty 0 (env_config block_env) (\<lambda>tx. Some [1]) [] payment_block s = Inr (Inr (receipts, ls, 21000), s') \<and>
     map rc_GasUsed receipts = [21000] \<and> map rc_CumulativeGasUsed receipts = [21000]"
proof -
  obtain t where t: "root (sec_trie t) = NilNode" "complete_small Map.empty zero_hash (fresh_state t)" "sec_holds Map.empty t (\<lambda>k. None)"
    using state_New_empty [of Map.empty] by blast
  obtain s receipts ls s' where p: "AddBalance Map.empty 0 [1] 100000 (fresh_state t) = Inr s" "refund s = 0"
    "Process Map.empty 0 (env_config block_env) (\<lambda>tx. Some [1]) [] payment_block s = Inr (Inr (receipts, ls, 21000), s')"
    using payment_processed [OF t(1,3)] by blast
  have g: "0 \<le> GetRefund s" "0 \<le> hdr_GasLimit (blk_header payment_block)" using p(2) by (simp_all add: GetRefund_def payment_block_def block_env_def)
  note q = Process_gas [OF p(3) g]
  have "length receipts = 1" using q by (auto simp: payment_block_def dest!: list_all2_lengthD)
  then obtain r where "receipts = [r]" by (cases receipts) auto
  then show ?thesis using q t(2) p by auto
qed

end
