(* ===== verification/Spec2Isabelle.thy ===== *)
theory Spec2Isabelle
  imports State_Sound Rlp_Types Block_Process
begin

text \<open>
  A verification development of the siotchain node (a light fork of go-ethereum): the serialisation format,
  the hash functions, the Merkle trie, the state database, the execution of messages, and the validation
  and processing of blocks.

  \<^bold>\<open>The program and how its parts interact.\<close> A block is a header, transactions and uncle headers
  (\<open>blockchainCore/types\<close>). \<open>BlockValidator\<close> checks it against its parent; \<open>StateProcessor.Process\<close>
  applies its transactions one after the other against one gas pool; \<open>ApplyMessage\<close> (\<open>state_transition.go\<close>,
  \<open>execution.go\<close>) checks the nonce, buys gas, moves value and pays the coinbase on a \<open>StateDB\<close>
  (\<open>blockchainCore/state\<close>). The state database keeps live objects and a journal over a secure trie
  (\<open>trie/secure_trie.go\<close>), a Merkle Patricia trie (\<open>trie/\<close>) under hashed keys whose nodes are RLP lists
  (\<open>helper/rlp\<close>) stored in a database (\<open>database\<close>) under their Keccak-256 digest (\<open>crypto/sha3\<close>).

  \<^bold>\<open>Conventions.\<close> Go integers of fixed width are words, big integers are \<open>int\<close> (or \<open>nat\<close> where they
  cannot be negative), byte slices are lists of bytes, structs are records, Go maps are association lists
  where they are iterated over or changed in place and functions otherwise. A function that can fail
  returns \<open>error + result\<close>; a panic is a constructor of the error type; a call that need not return is a
  \<open>partial_function\<close> into \<open>option\<close> or takes fuel, and a theorem says when it returns. Pointers to trie
  nodes and state objects are modelled by returning the changed value; where the code relies on sharing
  (\<open>pastTries\<close>, the refund counter, accounts held across calls) the model says so.

  \<^bold>\<open>Theories.\<close>
  \<^item> \<open>Prelude\<close>: results, big-endian numbers, generic lemmas.
  \<^item> \<open>Rlp_Encode\<close> (\<open>encode.go\<close>, \<open>typecache.go\<close>): the encode buffer with deferred list headers, the
    writers chosen by type, \<open>EncodeToReader\<close>; the buffer yields the recursive encoding.
    \<open>Rlp_Raw\<close> (\<open>raw.go\<close>): \<open>Split\<close> and \<open>CountValues\<close>; \<open>Split\<close> accepts exactly the canonical encodings.
    \<open>Rlp_Decode\<close> (\<open>decode.go\<close>): the stream and the type-directed decoders with fuel; \<open>decode_fuel\<close> is enough
    for every type without a slice of one-byte arrays or of pointers to them, and for those decoding diverges.
    \<open>Rlp_Roundtrip\<close>: decoding inverts encoding. \<open>Rlp_Types\<close>: decoded values have the type asked for.
  \<^item> \<open>Keccak_F\<close> (\<open>keccakf.go\<close>): the unrolled permutation is Keccak-f[1600]. \<open>Keccak_Sponge\<close> (\<open>sha3.go\<close>,
    \<open>hashes.go\<close>, \<open>shake.go\<close>, \<open>xor*.go\<close>): absorbing and squeezing give the sponge function; a locale
    describes the two ways of moving bytes, and both are interpreted. \<open>Crypto\<close> (\<open>crypto.go\<close>): digests and
    contract addresses.
  \<^item> \<open>Trie_Encoding\<close>, \<open>Trie_Node\<close>, \<open>Trie_Ops\<close>, \<open>Trie_Hash\<close>, \<open>Trie_Proof\<close> (\<open>encoding.go\<close>, \<open>node.go\<close>, \<open>trie.go\<close>,
    \<open>hasher.go\<close>, \<open>proof.go\<close>): the model. \<open>Trie_Spec\<close>: plain tries without caches; \<open>Trie_Store\<close>: which database
    stores a plain trie; \<open>Trie_Refine\<close>: insertion, deletion and lookup act as on a map. \<open>Trie_Map\<close>: the
    interpretation with Keccak-256 and the theorems on operations, root hash, committing and proofs.
    \<open>Trie_Secure\<close>: hashed keys and the cache of preimages. \<open>Trie_Size\<close>: bounds on encodings.
    The locales \<open>hash_fn\<close>, \<open>database\<close>, \<open>node_store\<close> and \<open>byte_map\<close> are the interfaces; they are interpreted on
    the digest, the in-memory database and the tries of the model.
  \<^item> \<open>Database_Mem\<close> (\<open>memory_database.go\<close>): the map behind a lock, batches.
  \<^item> \<open>State_Object\<close>, \<open>State_DB\<close> (\<open>state_object.go\<close>, \<open>statedb.go\<close>, \<open>journal.go\<close>): the model. \<open>State_Spec\<close>: an
    abstract machine of plain accounts with a journal. \<open>State_Refine\<close>: every journaled operation on a
    complete database refines it. \<open>State_Revert\<close>: sequences of journaled operations; reverting restores what
    the getters showed. \<open>State_Root\<close>: what \<open>IntermediateRoot\<close> writes and returns. \<open>State_Sound\<close>: after journaled
    operations \<open>IntermediateRoot\<close> panics exactly when a kept account has a negative balance.
  \<^item> \<open>Exec_Model\<close> (\<open>gaspool.go\<close>, \<open>execution.go\<close>, \<open>vm_env.go\<close>, \<open>state_transition.go\<close>): the model. \<open>Exec_Refine\<close>: its
    steps on the abstract machine. \<open>Exec_Effect\<close>: results, balances and gas of a message on every path.
    The callers of \<open>Call\<close> and \<open>Create\<close> are accounts.
  \<^item> \<open>Types_Bloom\<close>, \<open>Types_Block\<close> (\<open>bloom9.go\<close>, \<open>receipt.go\<close>, \<open>transaction.go\<close>, \<open>block.go\<close>, \<open>derive_sha.go\<close>): the
    filter has no false negatives; the root of a list is the root of the map of its indices.
  \<^item> \<open>Block_Validate\<close> (\<open>block_validator.go\<close>, \<open>dao.go\<close>): header, uncle and state checks; the computed gas limit
    is accepted; a wrong state root is, too. \<open>Block_Process\<close> (\<open>state_processor.go\<close>): a processed block stays
    within its gas limit.

  \<^bold>\<open>Bounds and fuel.\<close> The decoders take fuel because Go recurses over the type and loops over the input;
  \<open>decode_fuel\<close> is linear in the input length for each type and suffices by \<open>DecodeBytes_terminates\<close>. Hashing
  needs node encodings below \<open>2^64\<close> bytes (\<open>map_sized\<close>), which holds when keys and values are below \<open>2^32\<close>
  bytes (\<open>small_map\<close>). Everything else terminates structurally or by a measure, or is stated as divergence.

  \<^bold>\<open>Parameters.\<close> The clock, the proof of work, the readers of the block chain, the recovery of a sender from
  a signature and the table of addresses drained by the DAO fork are arguments of the definitions.

  \<^bold>\<open>Not modelled.\<close> Goroutines, channels, timers and sockets (downloader, fetcher, peer-to-peer network, miner,
  event feeds, transaction pool loops): their behaviour is the interleaving, of which the sources give no
  contract to state. Elliptic curve code and the proof of work call C code and floating-point or
  random input. LevelDB, key files, RPC, consoles, logging, metrics and JSON are input and output.
  In the modelled packages: types with their own \<open>EncodeRLP\<close> inside the reflection-driven encoder, the
  caches of decoded type information and of code sizes, \<open>StateDB.Copy\<close> and dumps, trie iterators and
  synchronisation, the chain database and reorganisation of \<open>blockchain.go\<close>, the transaction lists of the
  pool, \<open>CallCode\<close> and \<open>DelegateCall\<close>, which only code run by the virtual machine could reach with another
  caller than an account. \<open>Commit\<close> of the state database is a definition, but no theorem covers it.
\<close>

end
